(* ===== verification/Sz_Prelude.thy ===== *)
theory Sz_Prelude
  imports Main "HOL-Library.Word"
begin

text \<open>
  Shared vocabulary of the development: the failures a C statement can run into, the
  result type every partial operation returns, bounds-checked access to memory blocks,
  C strings as NUL-terminated blocks, and the generic lemmas the components use.

  A C function that can fail is a HOL function into \<open>cerr + 'a\<close>: \<open>Inl e\<close> is an execution
  that ends in the failure \<open>e\<close> (undefined behaviour, a failed assertion, a deadlock, an
  exit), \<open>Inr x\<close> one that returns.  Sequencing is \<open>bindR\<close>.
\<close>

unbundle bit_operations_syntax

type_synonym u8 = "8 word"
type_synonym u16 = "16 word"
type_synonym u32 = "32 word"
type_synonym u64 = "64 word"
type_synonym size_t = "64 word"

text \<open>A block of memory, and a NUL-terminated block.\<close>

type_synonym block = "u8 list"

section \<open>Failures and results\<close>

text \<open>
  \<open>AssertFailed\<close>: a false \<open>assert\<close>; \<open>NullDeref\<close>: a NULL pointer is dereferenced;
  \<open>Dangling\<close>: freed memory is accessed or freed again; \<open>OutOfBounds\<close>: an access outside
  its block; \<open>UninitRead\<close>: an indeterminate value decides a branch; \<open>SignedOverflow\<close>,
  \<open>DivByZero\<close>: undefined arithmetic; \<open>Deadlock\<close>: a thread locks a mutex it holds;
  \<open>Blocked\<close>: the thread sleeps on a condition variable no step of its own can signal;
  \<open>ExitFailure\<close>: \<open>exit(EXIT_FAILURE)\<close>; \<open>Diverges\<close>: a loop that has not ended within the
  fuel of the model.
\<close>

datatype cerr =
    AssertFailed | NullDeref | Dangling | OutOfBounds | UninitRead
  | SignedOverflow | DivByZero | Deadlock | Blocked | ExitFailure | Diverges

named_theorems res_simps "equations of the result monad and of checked memory access"

fun bindR :: "cerr + 'a \<Rightarrow> ('a \<Rightarrow> cerr + 'b) \<Rightarrow> cerr + 'b" where
  "bindR (Inl e) f = Inl e"
| "bindR (Inr x) f = f x"

definition guardR :: "bool \<Rightarrow> cerr \<Rightarrow> cerr + unit" where
  "guardR b e = (if b then Inr () else Inl e)"

lemma bindR_cong [fundef_cong]:
  assumes "m = m'" and "\<And>x. m' = Inr x \<Longrightarrow> f x = f' x"
  shows "bindR m f = bindR m' f'"
  using assms by (cases m') auto

lemma bindR_eq_Inr [res_simps]:
  "bindR m f = Inr y \<longleftrightarrow> (\<exists>x. m = Inr x \<and> f x = Inr y)"
  by (cases m) auto

lemma bindR_eq_Inl [res_simps]:
  "bindR m f = Inl e \<longleftrightarrow> m = Inl e \<or> (\<exists>x. m = Inr x \<and> f x = Inl e)"
  by (cases m) auto

lemma bindR_assoc: "bindR (bindR m f) g = bindR m (\<lambda>x. bindR (f x) g)"
  by (cases m) auto

lemma guardR_True [simp]: "guardR True e = Inr ()"
  by (simp add: guardR_def)

lemma guardR_False [simp]: "guardR False e = Inl e"
  by (simp add: guardR_def)

lemma guardR_eq_Inr [res_simps]: "guardR b e = Inr u \<longleftrightarrow> b"
  by (simp add: guardR_def)

text \<open>\<open>fails_only E m\<close>: the computation returns, or fails in one of the ways \<open>E\<close>.\<close>

definition fails_only :: "cerr set \<Rightarrow> cerr + 'a \<Rightarrow> bool" where
  "fails_only E m \<longleftrightarrow> (\<forall>e. m = Inl e \<longrightarrow> e \<in> E)"

named_theorems fails_intros "rules that derive the possible failures of a computation from its parts"

lemma fails_only_Inr [fails_intros]: "fails_only E (Inr x)"
  by (simp add: fails_only_def)

lemma fails_only_bindR [fails_intros]:
  "fails_only E m \<Longrightarrow> (\<And>x. m = Inr x \<Longrightarrow> fails_only E (f x)) \<Longrightarrow> fails_only E (bindR m f)"
  by (cases m) (auto simp: fails_only_def)

lemma fails_only_prod [fails_intros]:
  "(\<And>x y. p = (x, y) \<Longrightarrow> fails_only E (f x y)) \<Longrightarrow> fails_only E (case p of (x, y) \<Rightarrow> f x y)"
  by (cases p) simp

lemma fails_only_if [fails_intros]:
  "(c \<Longrightarrow> fails_only E m) \<Longrightarrow> (\<not> c \<Longrightarrow> fails_only E m') \<Longrightarrow> fails_only E (if c then m else m')"
  by simp

lemma fails_only_guardR [fails_intros]: "e \<in> E \<Longrightarrow> fails_only E (guardR b e)"
  by (simp add: fails_only_def guardR_def)

lemma fails_onlyD: "fails_only {e} m \<Longrightarrow> m = Inl e \<or> (\<exists>x. m = Inr x)"
  by (cases m) (auto simp: fails_only_def)

text \<open>\<open>yields Q m\<close>: if the computation returns, its result satisfies \<open>Q\<close>.\<close>

definition yields :: "('a \<Rightarrow> bool) \<Rightarrow> cerr + 'a \<Rightarrow> bool" where
  "yields Q m \<longleftrightarrow> (\<forall>x. m = Inr x \<longrightarrow> Q x)"

named_theorems yields_intros "rules that derive what a computation yields from its parts"

lemma yields_Inr: "Q x \<Longrightarrow> yields Q (Inr x)"
  by (simp add: yields_def)

lemma yields_Inl [simp]: "yields Q (Inl e)"
  by (simp add: yields_def)

lemma yieldsD: "yields Q m \<Longrightarrow> m = Inr x \<Longrightarrow> Q x"
  by (simp add: yields_def)

lemma yields_bindR: "yields P m \<Longrightarrow> (\<And>x. P x \<Longrightarrow> yields Q (f x)) \<Longrightarrow> yields Q (bindR m f)"
  by (cases m) (auto simp: yields_def)

lemma yields_mono: "yields P m \<Longrightarrow> (\<And>x. P x \<Longrightarrow> Q x) \<Longrightarrow> yields Q m"
  by (simp add: yields_def)

lemma yields_if [yields_intros]:
  "(c \<Longrightarrow> yields Q m) \<Longrightarrow> (\<not> c \<Longrightarrow> yields Q m') \<Longrightarrow> yields Q (if c then m else m')"
  by simp

text \<open>A step whose result is only known to have been returned.\<close>

lemma yields_step: "(\<And>x. m = Inr x \<Longrightarrow> yields Q (f x)) \<Longrightarrow> yields Q (bindR m f)"
  by (cases m) (auto simp: yields_def)

section \<open>Checked access to memory blocks\<close>

definition rd :: "'a list \<Rightarrow> nat \<Rightarrow> cerr + 'a" where
  "rd xs i = (if i < length xs then Inr (xs ! i) else Inl OutOfBounds)"

definition wr :: "'a list \<Rightarrow> nat \<Rightarrow> 'a \<Rightarrow> cerr + 'a list" where
  "wr xs i v = (if i < length xs then Inr (xs[i := v]) else Inl OutOfBounds)"

definition rd_block :: "'a list \<Rightarrow> nat \<Rightarrow> nat \<Rightarrow> cerr + 'a list" where
  "rd_block xs i n = (if i + n \<le> length xs then Inr (take n (drop i xs)) else Inl OutOfBounds)"

definition wr_block :: "'a list \<Rightarrow> nat \<Rightarrow> 'a list \<Rightarrow> cerr + 'a list" where
  "wr_block xs i bs =
     (if i + length bs \<le> length xs then Inr (take i xs @ bs @ drop (i + length bs) xs)
      else Inl OutOfBounds)"

lemma rd_in [simp]: "i < length xs \<Longrightarrow> rd xs i = Inr (xs ! i)"
  by (simp add: rd_def)

lemma wr_in [simp]: "i < length xs \<Longrightarrow> wr xs i v = Inr (xs[i := v])"
  by (simp add: wr_def)

lemma rd_out [simp]: "\<not> i < length xs \<Longrightarrow> rd xs i = Inl OutOfBounds"
  by (simp add: rd_def)

lemma rd_fails [fails_intros]:
  "OutOfBounds \<in> E \<Longrightarrow> fails_only E (rd xs i)" "OutOfBounds \<in> E \<Longrightarrow> fails_only E (rd_block xs i n)"
  "OutOfBounds \<in> E \<Longrightarrow> fails_only E (wr xs i v)" "OutOfBounds \<in> E \<Longrightarrow> fails_only E (wr_block xs i bs)"
  by (simp_all add: fails_only_def rd_def rd_block_def wr_def wr_block_def)

lemma rd_block_length [res_simps]: "rd_block xs i n = Inr ys \<Longrightarrow> length ys = n"
  by (auto simp: rd_block_def split: if_splits)

lemma wr_block_length [res_simps]: "wr_block xs i bs = Inr ys \<Longrightarrow> length ys = length xs"
  by (auto simp: wr_block_def split: if_splits)

text \<open>Writing just behind a prefix that is already laid out extends the prefix.\<close>

lemma wr_block_append:
  assumes "length pre = i" and "length bs \<le> length rest"
  shows "wr_block (pre @ rest) i bs = Inr ((pre @ bs) @ drop (length bs) rest)"
  using assms by (simp add: wr_block_def)

lemma rd_block_append:
  assumes "length pre = i" and "length bs = n"
  shows "rd_block (pre @ bs @ rest) i n = Inr bs"
  using assms by (simp add: rd_block_def)

lemma list_upd_append_hd: "(xs @ y # ys)[length xs := z] = xs @ z # ys"
  by simp

section \<open>C strings\<close>

text \<open>
  \<open>c_str s\<close> are the characters before the first NUL.  \<open>strlen\<close>, \<open>strdup\<close> and \<open>strcmp\<close> scan
  to that NUL, so on a block without one they run off the block.
\<close>

definition c_str :: "block \<Rightarrow> u8 list" where
  "c_str s = takeWhile (\<lambda>c. c \<noteq> 0) s"

definition c_strlen :: "block \<Rightarrow> cerr + nat" where
  "c_strlen s = (if 0 \<in> set s then Inr (length (c_str s)) else Inl OutOfBounds)"

definition c_strdup :: "block \<Rightarrow> cerr + block" where
  "c_strdup s = (if 0 \<in> set s then Inr (c_str s @ [0]) else Inl OutOfBounds)"

lemma c_str_no_nul: "0 \<notin> set (c_str s)"
  by (auto simp: c_str_def dest: set_takeWhileD)

lemma c_str_append_nul [simp]: "0 \<notin> set s \<Longrightarrow> c_str (s @ 0 # t) = s"
  by (auto simp: c_str_def takeWhile_append)

lemma c_strlen_nul [simp]: "0 \<notin> set s \<Longrightarrow> c_strlen (s @ [0]) = Inr (length s)"
  by (simp add: c_strlen_def)

lemma c_strdup_nul [simp]: "0 \<notin> set s \<Longrightarrow> c_strdup (s @ [0]) = Inr (s @ [0])"
  by (simp add: c_strdup_def)

lemma c_str_length_le: "length (c_str s) \<le> length s"
  by (simp add: c_str_def length_takeWhile_le)

lemma c_str_strdup [simp]: "c_str (c_str s @ [0]) = c_str s"
  by (simp add: c_str_no_nul)

lemma c_str_snoc_nul_length: "length (c_str (s @ [0])) \<le> length s"
  by (cases "0 \<in> set s") (auto simp: c_str_def takeWhile_append length_takeWhile_le)

section \<open>Words\<close>

lemma unat_word_mod: "unat (a mod b :: 'a::len word) = unat a mod unat b"
  by (simp add: unat_mod_distrib)

lemma unat_bound: "unat (w :: 'a::len word) < 2 ^ LENGTH('a)"
  by (rule unsigned_less)

lemma unat_succ_below:
  assumes "unat (h :: 64 word) < unat (m :: 64 word)"
  shows "unat (h + 1) = unat h + 1"
proof -
  have "unat m < 2 ^ 64"
    using unat_bound [of m] by simp
  with assms show ?thesis
    by (simp add: unat_word_ariths)
qed

lemma unat_of_nat_small: "n < 2 ^ LENGTH('a) \<Longrightarrow> unat (of_nat n :: 'a::len word) = n"
  by (simp add: unat_of_nat take_bit_nat_eq_self)

text \<open>A step around a ring of \<open>m\<close> slots: \<open>(i + 1) mod m\<close> without a division.\<close>

lemma mod_succ_cases: "i < m \<Longrightarrow> Suc i mod m = (if Suc i = m then 0 else Suc i)"
  by auto

lemma mod_add_cases: "t < m \<Longrightarrow> i \<le> m \<Longrightarrow> (t + i) mod m = (if t + i < m then t + i else t + i - m)"
  for t i m :: nat
  by (cases "t + i < m") (auto simp: mod_if [of "t + i"] mod_less)

end
