(* ===== verification/Sz_Heap.thy ===== *)
theory Sz_Heap
  imports Sz_Prelude
begin

text \<open>
  Dynamic memory.  A typed heap maps addresses to objects; \<open>h_brk\<close> bounds every address
  handed out so far, so an allocation is fresh and a freed address is never reused;
  \<open>h_avail\<close> is the number of \<open>malloc\<close> calls that still succeed, chosen by the environment.
  A pointer is \<open>None\<close> (NULL) or an address.  Singly linked cells and the chains they form
  are shared by the lists of \<^verbatim>\<open>list.c\<close> and the queues of \<^verbatim>\<open>queue.c\<close>.
\<close>

type_synonym ptr = "nat option"

record 'c heap =
  h_cells :: "nat \<Rightarrow> 'c option"
  h_brk :: nat
  h_avail :: nat

named_theorems heap_simps "equations of loads, stores, allocation and release"

text \<open>All changes of the object map go through \<open>h_upd\<close>.\<close>

definition h_upd :: "'c heap \<Rightarrow> nat \<Rightarrow> 'c option \<Rightarrow> 'c heap" where
  "h_upd h a x = h\<lparr>h_cells := (h_cells h)(a := x)\<rparr>"

lemma h_upd_sel [simp]:
  "h_cells (h_upd h a x) = (h_cells h)(a := x)"
  "h_brk (h_upd h a x) = h_brk h"
  "h_avail (h_upd h a x) = h_avail h"
  by (simp_all add: h_upd_def)

lemma h_upd_upd [simp]: "h_upd (h_upd h a x) a y = h_upd h a y"
  by (simp add: h_upd_def)

definition h_load :: "'c heap \<Rightarrow> ptr \<Rightarrow> cerr + 'c" where
  "h_load h p = (case p of None \<Rightarrow> Inl NullDeref
     | Some a \<Rightarrow> (case h_cells h a of None \<Rightarrow> Inl Dangling | Some c \<Rightarrow> Inr c))"

definition h_store :: "'c heap \<Rightarrow> ptr \<Rightarrow> 'c \<Rightarrow> cerr + 'c heap" where
  "h_store h p c = (case p of None \<Rightarrow> Inl NullDeref
     | Some a \<Rightarrow> (case h_cells h a of None \<Rightarrow> Inl Dangling
         | Some _ \<Rightarrow> Inr (h_upd h a (Some c))))"

text \<open>\<open>malloc\<close> together with the stores that fill the new object; \<open>None\<close> is a NULL return.\<close>

definition h_alloc :: "'c heap \<Rightarrow> 'c \<Rightarrow> (nat \<times> 'c heap) option" where
  "h_alloc h c =
     (if h_avail h = 0 then None
      else Some (h_brk h, (h_upd h (h_brk h) (Some c))
                   \<lparr>h_brk := Suc (h_brk h), h_avail := h_avail h - 1\<rparr>))"

text \<open>\<open>free(NULL)\<close> does nothing; freeing what is not allocated is an error.\<close>

definition h_free :: "'c heap \<Rightarrow> ptr \<Rightarrow> cerr + 'c heap" where
  "h_free h p = (case p of None \<Rightarrow> Inr h
     | Some a \<Rightarrow> (case h_cells h a of None \<Rightarrow> Inl Dangling
         | Some _ \<Rightarrow> Inr (h_upd h a None)))"

definition heap_ok :: "'c heap \<Rightarrow> bool" where
  "heap_ok h \<longleftrightarrow> (\<forall>a. h_cells h a \<noteq> None \<longrightarrow> a < h_brk h)"

definition empty_heap :: "nat \<Rightarrow> 'c heap" where
  "empty_heap n = \<lparr>h_cells = (\<lambda>_. None), h_brk = 0, h_avail = n\<rparr>"

lemma h_load_Some [heap_simps]: "h_cells h a = Some c \<Longrightarrow> h_load h (Some a) = Inr c"
  by (simp add: h_load_def)

lemma h_load_None [heap_simps]: "h_load h None = Inl NullDeref"
  by (simp add: h_load_def)

lemma h_load_freed [heap_simps]: "h_cells h a = None \<Longrightarrow> h_load h (Some a) = Inl Dangling"
  by (simp add: h_load_def)

lemma h_store_Some [heap_simps]:
  "h_cells h a = Some c \<Longrightarrow> h_store h (Some a) c' = Inr (h_upd h a (Some c'))"
  by (simp add: h_store_def)

lemma h_free_Some [heap_simps]:
  "h_cells h a = Some c \<Longrightarrow> h_free h (Some a) = Inr (h_upd h a None)"
  by (simp add: h_free_def)

lemma h_free_None [heap_simps]: "h_free h None = Inr h"
  by (simp add: h_free_def)

lemma h_load_eq_Inr [res_simps]:
  "h_load h p = Inr c \<longleftrightarrow> (\<exists>a. p = Some a \<and> h_cells h a = Some c)"
  by (auto simp: h_load_def split: option.splits)

lemma h_store_eq_Inr [res_simps]:
  "h_store h p c = Inr h' \<longleftrightarrow>
     (\<exists>a. p = Some a \<and> h_cells h a \<noteq> None \<and> h' = h_upd h a (Some c))"
  by (auto simp: h_store_def split: option.splits)

lemma h_alloc_fresh:
  assumes "heap_ok h" and "h_alloc h c = Some (a, h')"
  shows "h_cells h a = None" and "h_cells h' = (h_cells h)(a := Some c)" and "heap_ok h'"
  using assms by (auto simp: h_alloc_def heap_ok_def less_Suc_eq split: if_splits)

lemma h_alloc_avail: "h_avail h > 0 \<Longrightarrow> \<exists>a h'. h_alloc h c = Some (a, h') \<and> h_avail h' = h_avail h - 1"
  by (auto simp: h_alloc_def)

lemma heap_ok_upd_Some [intro]:
  "heap_ok h \<Longrightarrow> h_cells h a \<noteq> None \<Longrightarrow> heap_ok (h_upd h a (Some c))"
  by (auto simp: heap_ok_def)

lemma heap_ok_free [intro]: "heap_ok h \<Longrightarrow> heap_ok (h_upd h a None)"
  by (auto simp: heap_ok_def)

section \<open>Linked cells\<close>

text \<open>\<open>list_node\<close> and \<open>QueueItem\<close> have the same two fields.\<close>

record cell =
  c_data :: ptr
  c_next :: ptr

fun chain :: "(nat \<Rightarrow> cell option) \<Rightarrow> ptr \<Rightarrow> nat list \<Rightarrow> bool" where
  "chain m p [] \<longleftrightarrow> p = None"
| "chain m p (a # as) \<longleftrightarrow> p = Some a \<and> (\<exists>c. m a = Some c \<and> chain m (c_next c) as)"

text \<open>The addresses met from \<open>p\<close> within \<open>n\<close> steps, and the data pointers stored there.\<close>

fun walk :: "nat \<Rightarrow> (nat \<Rightarrow> cell option) \<Rightarrow> ptr \<Rightarrow> nat list" where
  "walk 0 m p = []"
| "walk (Suc n) m p = (case p of None \<Rightarrow> []
     | Some a \<Rightarrow> (case m a of None \<Rightarrow> [] | Some c \<Rightarrow> a # walk n m (c_next c)))"

definition cell_data :: "(nat \<Rightarrow> cell option) \<Rightarrow> nat \<Rightarrow> ptr" where
  "cell_data m a = (case m a of None \<Rightarrow> None | Some c \<Rightarrow> c_data c)"

abbreviation chain_data :: "(nat \<Rightarrow> cell option) \<Rightarrow> nat list \<Rightarrow> ptr list" where
  "chain_data m as \<equiv> map (cell_data m) as"

lemma chain_walk: "chain m p as \<Longrightarrow> length as \<le> n \<Longrightarrow> walk n m p = as"
proof (induction as arbitrary: p n)
  case Nil
  then show ?case by (cases n) auto
next
  case (Cons a as)
  then show ?case by (cases n) auto
qed

lemma chain_unique: "chain m p as \<Longrightarrow> chain m p bs \<Longrightarrow> as = bs"
  using chain_walk [of m p as "max (length as) (length bs)"]
    chain_walk [of m p bs "max (length as) (length bs)"] by simp

lemma chain_allocated: "chain m p as \<Longrightarrow> a \<in> set as \<Longrightarrow> m a \<noteq> None"
  by (induction as arbitrary: p) auto

lemma chain_fresh: "chain m p as \<Longrightarrow> m a = None \<Longrightarrow> a \<notin> set as"
  using chain_allocated by blast

lemma chain_append: "chain m p (as @ b # bs) \<Longrightarrow> chain m (Some b) (b # bs)"
  by (induction as arbitrary: p) auto

lemma chain_distinct: "chain m p as \<Longrightarrow> distinct as"
proof (induction as arbitrary: p)
  case (Cons a as)
  have "a \<notin> set as"
  proof
    assume "a \<in> set as"
    then obtain xs ys where as: "as = xs @ a # ys"
      by (auto simp: in_set_conv_decomp)
    with Cons.prems have "chain m (Some a) (a # ys)" and "chain m (Some a) (a # as)"
      using chain_append [of m p "a # xs" a ys] by auto
    then have "a # ys = a # as"
      by (rule chain_unique)
    with as have "length as < length as"
      by (metis Suc_n_not_le_n length_append length_Cons list.inject le_add2 not_le)
    then show False by simp
  qed
  with Cons show ?case by auto
qed simp

lemma chain_upd_other [simp]: "a \<notin> set as \<Longrightarrow> chain (m(a := x)) p as = chain m p as"
  by (induction as arbitrary: p) auto

lemma chain_data_upd_other [simp]: "a \<notin> set as \<Longrightarrow> chain_data (m(a := x)) as = chain_data m as"
  by (induction as) (auto simp: cell_data_def)

lemma chain_hd: "chain m p as \<Longrightarrow> p = (case as of [] \<Rightarrow> None | a # _ \<Rightarrow> Some a)"
  by (cases as) auto

lemma chain_None [simp]: "chain m None as \<longleftrightarrow> as = []"
  by (cases as) auto

lemma chain_Some [simp]:
  "chain m (Some a) as \<longleftrightarrow> (\<exists>c bs. as = a # bs \<and> m a = Some c \<and> chain m (c_next c) bs)"
  by (cases as) auto

text \<open>Hanging a new cell behind the last one extends the chain.\<close>

lemma chain_snoc:
  assumes "chain m p as" and "as \<noteq> []" and "m (last as) = Some c" and "b \<notin> set as"
  shows "chain (m(b := Some \<lparr>c_data = d, c_next = None\<rparr>,
                  last as := Some (c\<lparr>c_next := Some b\<rparr>))) p (as @ [b])"
  using assms
proof (induction as arbitrary: p)
  case (Cons a as)
  show ?case
  proof (cases "as = []")
    case True
    with Cons.prems show ?thesis by auto
  next
    case False
    from Cons.prems obtain ca where ca: "p = Some a" "m a = Some ca" "chain m (c_next ca) as"
      by auto
    have "a \<noteq> last as" "a \<noteq> b"
      using chain_distinct [OF Cons.prems(1)] False Cons.prems(4) by auto
    moreover have "chain (m(b := Some \<lparr>c_data = d, c_next = None\<rparr>,
        last as := Some (c\<lparr>c_next := Some b\<rparr>))) (c_next ca) (as @ [b])"
      by (rule Cons.IH [OF ca(3) False]) (use Cons.prems False in simp_all)
    ultimately show ?thesis
      using ca by (simp only: last_ConsR [OF False] append_Cons chain.simps) auto
  qed
qed simp

end
