(* ===== verification/Sz_List.thy ===== *)
theory Sz_List
  imports Sz_Heap
begin

text \<open>
  The singly linked list of \<^verbatim>\<open>list.c\<close> over a heap of cells.  \<open>list_wf\<close> is the invariant the
  constructors establish (the cells reachable from the head, the cached tail and the cached
  length agree); \<open>list_weak\<close> is what survives \<open>list_remove_node\<close>, which repairs neither the
  length nor the tail.
\<close>

section \<open>The structure and its operations\<close>

record clist =
  l_head :: ptr
  l_tail :: ptr
  l_len :: u64

definition list_create :: "bool \<Rightarrow> cerr + clist" where
  "list_create malloc_ok =
     (if malloc_ok then Inr \<lparr>l_head = None, l_tail = None, l_len = 0\<rparr> else Inl ExitFailure)"

definition list_attach :: "clist \<Rightarrow> ptr \<Rightarrow> u64 \<Rightarrow> clist" where
  "list_attach l head len = l\<lparr>l_head := head, l_len := len\<rparr>"

text \<open>
  The loop of \<open>list_release\<close>: \<open>n\<close> is the value of \<open>l->len\<close>; \<open>h->next\<close> is read before the NULL
  test on \<open>h\<close>.  The second result is the data pointers that were passed to \<open>free\<close>.
\<close>

fun list_release_loop :: "nat \<Rightarrow> cell heap \<Rightarrow> ptr \<Rightarrow> int \<Rightarrow> cerr + (cell heap \<times> nat list)" where
  "list_release_loop 0 h p deep = Inr (h, [])"
| "list_release_loop (Suc n) h p deep =
     bindR (h_load h p) (\<lambda>c.
     bindR (if p \<noteq> None then h_free h p else Inr h) (\<lambda>h1.
     bindR (list_release_loop n h1 (c_next c) deep) (\<lambda>(h2, ds).
     Inr (h2, (case c_data c of Some d \<Rightarrow> if deep = 1 then d # ds else ds | None \<Rightarrow> ds)))))"

definition list_release :: "cell heap \<Rightarrow> clist option \<Rightarrow> int \<Rightarrow> cerr + (cell heap \<times> nat list)" where
  "list_release h lo deep = (case lo of None \<Rightarrow> Inr (h, [])
     | Some l \<Rightarrow> list_release_loop (unat (l_len l)) h (l_head l) deep)"

definition list_head_insert :: "cell heap \<Rightarrow> clist \<Rightarrow> ptr \<Rightarrow> cerr + (cell heap \<times> clist)" where
  "list_head_insert h l val =
     (case h_alloc h \<lparr>c_data = val, c_next = (if l_len l = 0 then None else l_head l)\<rparr> of
        None \<Rightarrow> Inl ExitFailure
      | Some (new_node, h1) \<Rightarrow>
          Inr (h1, (if l_len l = 0 then l\<lparr>l_head := Some new_node, l_tail := Some new_node\<rparr>
                    else l\<lparr>l_head := Some new_node\<rparr>)\<lparr>l_len := l_len l + 1\<rparr>))"

definition list_tail_insert :: "cell heap \<Rightarrow> clist \<Rightarrow> ptr \<Rightarrow> cerr + (cell heap \<times> clist)" where
  "list_tail_insert h l val =
     (case h_alloc h \<lparr>c_data = val, c_next = None\<rparr> of
        None \<Rightarrow> Inl ExitFailure
      | Some (new_node, h1) \<Rightarrow>
          if l_len l = 0
          then Inr (h1, l\<lparr>l_head := Some new_node, l_tail := Some new_node, l_len := l_len l + 1\<rparr>)
          else bindR (h_load h1 (l_tail l)) (\<lambda>t.
               bindR (h_store h1 (l_tail l) (t\<lparr>c_next := Some new_node\<rparr>)) (\<lambda>h2.
               Inr (h2, l\<lparr>l_tail := Some new_node, l_len := l_len l + 1\<rparr>))))"

text \<open>
  \<open>list_remove_node\<close>, with the depth of the recursion as fuel; the comparison reads the
  two nodes and may fail.
\<close>

fun list_remove_node ::
    "nat \<Rightarrow> cell heap \<Rightarrow> ptr \<Rightarrow> cell \<Rightarrow> (cell \<Rightarrow> cell \<Rightarrow> cerr + int) \<Rightarrow> cerr + (cell heap \<times> ptr)" where
  "list_remove_node 0 h head node cmp = Inl Diverges"
| "list_remove_node (Suc n) h head node cmp =
     (case head of None \<Rightarrow> Inr (h, None)
      | Some a \<Rightarrow>
          bindR (h_load h head) (\<lambda>c.
          bindR (cmp c node) (\<lambda>r.
          if r = 0
          then bindR (h_free h head) (\<lambda>h1. Inr (h1, c_next c))
          else bindR (list_remove_node n h (c_next c) node cmp) (\<lambda>(h1, nx).
               bindR (h_load h1 head) (\<lambda>c1.
               bindR (h_store h1 head (c1\<lparr>c_next := nx\<rparr>)) (\<lambda>h2. Inr (h2, head)))))))"

section \<open>Invariants\<close>

definition list_wf :: "cell heap \<Rightarrow> clist \<Rightarrow> nat list \<Rightarrow> bool" where
  "list_wf h l as \<longleftrightarrow> heap_ok h \<and> chain (h_cells h) (l_head l) as \<and> unat (l_len l) = length as \<and>
     (as \<noteq> [] \<longrightarrow> l_tail l = Some (last as))"

definition list_weak :: "cell heap \<Rightarrow> clist \<Rightarrow> nat list \<Rightarrow> bool" where
  "list_weak h l as \<longleftrightarrow>
     heap_ok h \<and> chain (h_cells h) (l_head l) as \<and> length as \<le> unat (l_len l)"

definition list_items :: "cell heap \<times> clist \<Rightarrow> ptr list" where
  "list_items s = chain_data (h_cells (fst s))
     (walk (unat (l_len (snd s))) (h_cells (fst s)) (l_head (snd s)))"

definition list_slots :: "cell heap \<times> clist \<Rightarrow> nat" where
  "list_slots s = min (h_avail (fst s)) (2 ^ 64 - 1 - unat (l_len (snd s)))"

lemma list_wf_weak: "list_wf h l as \<Longrightarrow> list_weak h l as"
  by (simp add: list_wf_def list_weak_def)

lemma list_weak_items: "list_weak h l as \<Longrightarrow> list_items (h, l) = chain_data (h_cells h) as"
  by (auto simp: list_weak_def list_items_def dest: chain_walk)

lemma list_wf_items: "list_wf h l as \<Longrightarrow> list_items (h, l) = chain_data (h_cells h) as"
  by (simp add: list_weak_items list_wf_weak)

lemma list_create_wf: "heap_ok h \<Longrightarrow> list_create True = Inr l \<Longrightarrow> list_wf h l []"
  by (auto simp: list_create_def list_wf_def)

section \<open>Insertion\<close>

lemma slots_step:
  assumes "list_slots (h, l) > 0"
  shows "h_avail h > 0" and "unat (l_len l + 1) = unat (l_len l) + 1"
  using assms unat_bound [of "l_len l"]
  by (auto simp: list_slots_def unat_word_ariths)

lemma list_head_insert_weak:
  assumes "list_weak h l as" and "list_slots (h, l) > 0"
  obtains a h' l' where "list_head_insert h l val = Inr (h', l')" "list_weak h' l' (a # as)"
    "chain_data (h_cells h') (a # as) = val # chain_data (h_cells h) as"
    "list_slots (h', l') = list_slots (h, l) - 1"
    "unat (l_len l') = Suc (unat (l_len l))" "list_wf h l as \<Longrightarrow> list_wf h' l' (a # as)"
proof -
  note slots = slots_step [OF assms(2)]
  define c where "c = \<lparr>c_data = val, c_next = (if l_len l = 0 then None else l_head l)\<rparr>"
  define l' where "l' = (if l_len l = 0 then l\<lparr>l_head := Some (h_brk h), l_tail := Some (h_brk h)\<rparr>
     else l\<lparr>l_head := Some (h_brk h)\<rparr>)\<lparr>l_len := l_len l + 1\<rparr>"
  obtain h' where h': "h_alloc h c = Some (h_brk h, h')" "h_avail h' = h_avail h - 1"
    using slots(1) by (auto simp: h_alloc_def)
  have inv: "heap_ok h" "chain (h_cells h) (l_head l) as" "length as \<le> unat (l_len l)"
    using assms(1) by (auto simp: list_weak_def)
  note fresh = h_alloc_fresh [OF inv(1) h'(1)]
  have new: "h_brk h \<notin> set as"
    by (rule chain_fresh [OF inv(2) fresh(1)])
  have c_next: "chain (h_cells h) (c_next c) as"
    using inv by (auto simp: c_def unat_eq_0)
  have "list_weak h' l' (h_brk h # as)"
    using fresh c_next new inv slots by (auto simp: list_weak_def l'_def)
  moreover have "list_wf h' l' (h_brk h # as)" if "list_wf h l as"
    using that fresh c_next new slots by (auto simp: list_wf_def l'_def unat_eq_0)
  moreover have "chain_data (h_cells h') (h_brk h # as) = val # chain_data (h_cells h) as"
    using fresh new by (simp add: cell_data_def c_def)
  moreover have "list_head_insert h l val = Inr (h', l')"
    using h'(1) by (simp add: list_head_insert_def l'_def flip: c_def)
  moreover have "list_slots (h', l') = list_slots (h, l) - 1" "unat (l_len l') = Suc (unat (l_len l))"
    using slots h'(2) by (auto simp: list_slots_def l'_def)
  ultimately show thesis by (intro that)
qed

lemma list_tail_insert_wf:
  assumes "list_wf h l as" and "list_slots (h, l) > 0"
  obtains a h' l' where "list_tail_insert h l val = Inr (h', l')" "list_wf h' l' (as @ [a])"
    "chain_data (h_cells h') (as @ [a]) = chain_data (h_cells h) as @ [val]"
    "list_slots (h', l') = list_slots (h, l) - 1"
proof -
  note slots = slots_step [OF assms(2)]
  define c where "c = \<lparr>c_data = val, c_next = None\<rparr>"
  obtain h1 where h1: "h_alloc h c = Some (h_brk h, h1)" "h_avail h1 = h_avail h - 1"
    using slots(1) by (auto simp: h_alloc_def)
  have inv: "heap_ok h" "chain (h_cells h) (l_head l) as" "length as = unat (l_len l)"
      "as \<noteq> [] \<Longrightarrow> l_tail l = Some (last as)"
    using assms(1) by (auto simp: list_wf_def)
  note fresh = h_alloc_fresh [OF inv(1) h1(1)]
  have new: "h_brk h \<notin> set as"
    by (rule chain_fresh [OF inv(2) fresh(1)])
  show thesis
  proof (cases "as = []")
    case True
    let ?l = "l\<lparr>l_head := Some (h_brk h), l_tail := Some (h_brk h), l_len := l_len l + 1\<rparr>"
    have "l_len l = 0"
      using True inv(3) by (simp add: unat_eq_0)
    then have "list_tail_insert h l val = Inr (h1, ?l)" "list_slots (h1, ?l) = list_slots (h, l) - 1"
      using h1 slots by (auto simp: list_tail_insert_def list_slots_def simp flip: c_def)
    moreover have "list_wf h1 ?l ([] @ [h_brk h])"
      using fresh slots True \<open>l_len l = 0\<close> by (auto simp: list_wf_def c_def)
    ultimately show thesis
      using that [of h1 ?l "h_brk h"] fresh True by (auto simp: cell_data_def c_def)
  next
    case False
    then obtain t where t: "h_cells h (last as) = Some t"
      using chain_allocated [OF inv(2), of "last as"] by auto
    let ?h = "h_upd h1 (last as) (Some (t\<lparr>c_next := Some (h_brk h)\<rparr>))"
    let ?l = "l\<lparr>l_tail := Some (h_brk h), l_len := l_len l + 1\<rparr>"
    have t1: "h_cells h1 (last as) = Some t"
      using t new False fresh by auto
    have ins: "list_tail_insert h l val = Inr (?h, ?l)"
      using False inv h1(1) t1
      by (auto simp: list_tail_insert_def heap_simps unat_eq_0 simp flip: c_def)
    have ch: "chain (h_cells ?h) (l_head l) (as @ [h_brk h])"
      using chain_snoc [OF inv(2) False t new, of val] fresh by (simp add: c_def)
    have "list_wf ?h ?l (as @ [h_brk h])"
      using ch fresh(3) t1 slots inv by (auto simp: list_wf_def)
    moreover have "cell_data (h_cells ?h) x = cell_data (h_cells h) x" if "x \<in> set as" for x
      using that new fresh(2) t by (auto simp: cell_data_def)
    moreover have "cell_data (h_cells ?h) (h_brk h) = val"
      using new False fresh(2) by (auto simp: cell_data_def c_def)
    moreover have "list_slots (?h, ?l) = list_slots (h, l) - 1"
      using slots h1(2) by (auto simp: list_slots_def)
    ultimately show thesis
      using that [OF ins] by simp
  qed
qed

text \<open>
  Both insertions meet one interface: a place for the new element and a budget of
  insertions the allocator and the length counter still allow.
\<close>

fun inserts :: "('s \<Rightarrow> 'd \<Rightarrow> cerr + 's) \<Rightarrow> 's \<Rightarrow> 'd list \<Rightarrow> cerr + 's" where
  "inserts ins s [] = Inr s"
| "inserts ins s (d # ds) = bindR (ins s d) (\<lambda>s'. inserts ins s' ds)"

locale seq_insert =
  fixes inv :: "'s \<Rightarrow> bool"
    and items :: "'s \<Rightarrow> 'd list"
    and slots :: "'s \<Rightarrow> nat"
    and place :: "'d \<Rightarrow> 'd list \<Rightarrow> 'd list"
    and ins :: "'s \<Rightarrow> 'd \<Rightarrow> cerr + 's"
  assumes ins_ok: "inv s \<Longrightarrow> slots s > 0 \<Longrightarrow>
    \<exists>s'. ins s d = Inr s' \<and> inv s' \<and> items s' = place d (items s) \<and> slots s' = slots s - 1"
begin

lemma inserts_ok:
  assumes "inv s" and "length ds \<le> slots s"
  shows "\<exists>s'. inserts ins s ds = Inr s' \<and> inv s' \<and> items s' = fold place ds (items s) \<and>
    slots s' = slots s - length ds"
  using assms
proof (induction ds arbitrary: s)
  case Nil
  then show ?case by simp
next
  case (Cons d ds)
  then obtain s1 where s1: "ins s d = Inr s1" "inv s1" "items s1 = place d (items s)"
      "slots s1 = slots s - 1"
    using ins_ok [of s d] by auto
  with Cons.prems Cons.IH [of s1] show ?case by auto
qed

end

interpretation head_list: seq_insert "\<lambda>(h, l). \<exists>as. list_weak h l as" list_items list_slots "(#)"
  "\<lambda>(h, l) d. list_head_insert h l d"
proof (unfold_locales, clarify)
  fix h l as and d :: ptr
  assume "list_weak h l as" and "list_slots (h, l) > 0"
  then obtain a h' l' where "list_head_insert h l d = Inr (h', l')" "list_weak h' l' (a # as)"
      "chain_data (h_cells h') (a # as) = d # chain_data (h_cells h) as"
      "list_slots (h', l') = list_slots (h, l) - 1"
    by (rule list_head_insert_weak)
  with \<open>list_weak h l as\<close>
  show "\<exists>s'. list_head_insert h l d = Inr s' \<and> (case s' of (h, l) \<Rightarrow> \<exists>as. list_weak h l as) \<and>
      list_items s' = d # list_items (h, l) \<and> list_slots s' = list_slots (h, l) - 1"
    by (auto simp: list_weak_items)
qed

interpretation tail_list: seq_insert "\<lambda>(h, l). \<exists>as. list_wf h l as" list_items list_slots
  "\<lambda>d ds. ds @ [d]" "\<lambda>(h, l) d. list_tail_insert h l d"
proof (unfold_locales, clarify)
  fix h l as and d :: ptr
  assume "list_wf h l as" and "list_slots (h, l) > 0"
  then obtain a h' l' where "list_tail_insert h l d = Inr (h', l')" "list_wf h' l' (as @ [a])"
      "chain_data (h_cells h') (as @ [a]) = chain_data (h_cells h) as @ [d]"
      "list_slots (h', l') = list_slots (h, l) - 1"
    by (rule list_tail_insert_wf)
  with \<open>list_wf h l as\<close>
  show "\<exists>s'. list_tail_insert h l d = Inr s' \<and> (case s' of (h, l) \<Rightarrow> \<exists>as. list_wf h l as) \<and>
      list_items s' = list_items (h, l) @ [d] \<and> list_slots s' = list_slots (h, l) - 1"
    by (auto simp: list_wf_items)
qed

section \<open>Removal\<close>

fun remove_first :: "('a \<Rightarrow> bool) \<Rightarrow> 'a list \<Rightarrow> 'a list" where
  "remove_first P [] = []"
| "remove_first P (x # xs) = (if P x then xs else x # remove_first P xs)"

lemma set_remove_first: "set (remove_first P xs) \<subseteq> set xs"
  by (induction xs) auto

lemma length_remove_first:
  "length (remove_first P xs) = (if \<exists>x\<in>set xs. P x then length xs - 1 else length xs)"
  by (induction xs) (auto dest: length_pos_if_in_set)

lemma remove_first_id: "\<forall>x\<in>set xs. \<not> P x \<Longrightarrow> remove_first P xs = xs"
  by (induction xs) auto

lemma map_remove_first:
  "(\<And>x. x \<in> set xs \<Longrightarrow> P x = Q (f x)) \<Longrightarrow> map f (remove_first P xs) = remove_first Q (map f xs)"
  by (induction xs) auto

lemma list_remove_node_chain:
  assumes "chain (h_cells h) p as" and "heap_ok h" and "length as < n"
    and "\<forall>a\<in>set as. \<forall>c. h_cells h a = Some c \<longrightarrow> cmp c node = Inr (r a)"
  shows "\<exists>h' p'. list_remove_node n h p node cmp = Inr (h', p') \<and>
    chain (h_cells h') p' (remove_first (\<lambda>a. r a = 0) as) \<and> heap_ok h' \<and> h_avail h' = h_avail h \<and>
    (\<forall>a\<in>set (remove_first (\<lambda>a. r a = 0) as). cell_data (h_cells h') a = cell_data (h_cells h) a) \<and>
    (\<forall>b. b \<notin> set as \<longrightarrow> h_cells h' b = h_cells h b)"
  using assms
proof (induction as arbitrary: p n)
  case Nil
  then show ?case by (cases n) auto
next
  case (Cons a as)
  then obtain c m where c: "p = Some a" "h_cells h a = Some c" "chain (h_cells h) (c_next c) as"
      and m: "n = Suc m" "length as < m"
    by (cases n) auto
  have a: "a \<notin> set as"
    using chain_distinct [OF Cons.prems(1)] by simp
  have cmp: "cmp c node = Inr (r a)"
    using Cons.prems(4) c(2) by simp
  show ?case
  proof (cases "r a = 0")
    case True
    with c m cmp a Cons.prems(2) show ?thesis
      by (auto simp: heap_simps cell_data_def)
  next
    case False
    from Cons.IH [OF c(3) Cons.prems(2) m(2)] Cons.prems(4) obtain h1 nx where
      IH: "list_remove_node m h (c_next c) node cmp = Inr (h1, nx)"
        "chain (h_cells h1) nx (remove_first (\<lambda>a. r a = 0) as)" "heap_ok h1" "h_avail h1 = h_avail h"
        "\<forall>a\<in>set (remove_first (\<lambda>a. r a = 0) as). cell_data (h_cells h1) a = cell_data (h_cells h) a"
        "\<forall>b. b \<notin> set as \<longrightarrow> h_cells h1 b = h_cells h b"
      by auto
    have a1: "h_cells h1 a = Some c" and a2: "a \<notin> set (remove_first (\<lambda>a. r a = 0) as)"
      using IH(6) a c(2) set_remove_first [of _ as] by auto
    show ?thesis
      using c m cmp False IH a1 a2
      by (auto simp: heap_simps cell_data_def)
  qed
qed

section \<open>Release\<close>

definition non_null :: "ptr list \<Rightarrow> nat list" where
  "non_null ps = map the (filter (\<lambda>p. p \<noteq> None) ps)"

definition h_drop :: "'c heap \<Rightarrow> nat set \<Rightarrow> 'c heap" where
  "h_drop h A = h\<lparr>h_cells := (\<lambda>a. if a \<in> A then None else h_cells h a)\<rparr>"

lemma h_drop_empty [simp]: "h_drop h {} = h"
  by (simp add: h_drop_def)

lemma h_drop_upd [simp]: "h_drop (h_upd h a None) A = h_drop h (insert a A)"
  by (simp add: h_drop_def h_upd_def fun_eq_iff)

lemma list_release_loop_chain:
  assumes "chain (h_cells h) p as"
  shows "list_release_loop (length as) h p deep =
    Inr (h_drop h (set as), if deep = 1 then non_null (chain_data (h_cells h) as) else [])"
  using assms
proof (induction as arbitrary: h p)
  case Nil
  then show ?case by (simp add: non_null_def)
next
  case (Cons a as)
  then obtain c where c: "p = Some a" "h_cells h a = Some c" "chain (h_cells h) (c_next c) as"
    by auto
  have a: "a \<notin> set as"
    using chain_distinct [OF Cons.prems] by simp
  have "chain (h_cells (h_upd h a None)) (c_next c) as"
    using c(3) a by simp
  from Cons.IH [OF this] have "list_release_loop (length as) (h_upd h a None) (c_next c) deep =
      Inr (h_drop h (set (a # as)), if deep = 1 then non_null (chain_data (h_cells h) as) else [])"
    unfolding h_upd_sel chain_data_upd_other [OF a] by simp
  then show ?case
    using c by (auto simp: heap_simps non_null_def cell_data_def split: option.splits)
qed

lemma list_release_loop_short:
  assumes "chain (h_cells h) p as" and "length as < n"
  shows "list_release_loop n h p deep = Inl NullDeref"
  using assms
proof (induction as arbitrary: h p n)
  case Nil
  then show ?case by (cases n) (auto simp: heap_simps)
next
  case (Cons a as)
  then obtain c m where c: "p = Some a" "h_cells h a = Some c" "chain (h_cells h) (c_next c) as"
      and m: "n = Suc m" "length as < m"
    by (cases n) auto
  have "a \<notin> set as"
    using chain_distinct [OF Cons.prems(1)] by simp
  then have "chain (h_cells (h_upd h a None)) (c_next c) as"
    using c(3) by simp
  from Cons.IH [OF this m(2)]
  have "list_release_loop m (h_upd h a None) (c_next c) deep = Inl NullDeref" .
  with c m show ?case by (simp add: heap_simps)
qed

section \<open>Properties\<close>

text \<open>A two-element list in a heap that allows five more allocations.\<close>

definition heap2 :: "cell heap" where
  "heap2 = \<lparr>h_cells = (\<lambda>_. None)(0 := Some \<lparr>c_data = Some 10, c_next = Some 1\<rparr>,
      1 := Some \<lparr>c_data = Some 11, c_next = None\<rparr>), h_brk = 2, h_avail = 5\<rparr>"

definition list2 :: clist where
  "list2 = \<lparr>l_head = Some 0, l_tail = Some 1, l_len = 2\<rparr>"

lemma list2_wf: "list_wf heap2 list2 [0, 1]"
  by (auto simp: list_wf_def heap2_def list2_def heap_ok_def)

lemma list2_slots: "list_slots (heap2, list2) = 5"
  by (simp add: list_slots_def heap2_def list2_def)

text \<open>
  Appending a sequence of data pointers with \<open>list_tail_insert\<close> to a well-formed list,
  while allocation succeeds and the length counter has room, succeeds every time, keeps head,
  tail and length consistent, and leaves the old items followed by the new ones in order.
\<close>

theorem list_tail_insert_appends:
  assumes "list_wf h l as" and "length ds \<le> list_slots (h, l)"
  shows "\<exists>h' l' as'. inserts (\<lambda>(h, l) d. list_tail_insert h l d) (h, l) ds = Inr (h', l') \<and>
    list_wf h' l' as' \<and> list_items (h', l') = list_items (h, l) @ ds"
proof -
  have "fold (\<lambda>d xs. xs @ [d]) ds xs = xs @ ds" for xs :: "ptr list"
    by (induction ds arbitrary: xs) auto
  then show ?thesis
    using tail_list.inserts_ok [of "(h, l)" ds] assms by auto
qed

theorem list_tail_insert_appends_witness:
  "list_wf heap2 list2 [0, 1] \<and> length [Some 20, Some 21 :: ptr] \<le> list_slots (heap2, list2) \<and>
   (\<exists>h' l' as'. inserts (\<lambda>(h, l) d. list_tail_insert h l d) (heap2, list2) [Some 20, Some 21] =
      Inr (h', l') \<and> list_wf h' l' as' \<and>
      list_items (h', l') = list_items (heap2, list2) @ [Some 20, Some 21])"
  using list_tail_insert_appends [OF list2_wf, of "[Some 20, Some 21]"] list2_wf
  by (simp add: list2_slots)

text \<open>
  \<open>list_remove_node\<close> on the cells reachable from \<open>head\<close>, with a comparison that does not
  fail on them, ends (its recursion depth is at most the number of cells plus one), unlinks and
  frees exactly the first matching cell, keeps the data and the order of all others, and touches
  no other memory.
\<close>

theorem list_remove_node_removes_first:
  assumes "chain (h_cells h) p as" and "heap_ok h" and "length as < n"
    and "\<forall>a\<in>set as. \<forall>c. h_cells h a = Some c \<longrightarrow> cmp c node = Inr (r a)"
  shows "\<exists>h' p'. list_remove_node n h p node cmp = Inr (h', p') \<and>
    chain (h_cells h') p' (remove_first (\<lambda>a. r a = 0) as) \<and>
    chain_data (h_cells h') (remove_first (\<lambda>a. r a = 0) as) =
      chain_data (h_cells h) (remove_first (\<lambda>a. r a = 0) as) \<and>
    (\<forall>b. b \<notin> set as \<longrightarrow> h_cells h' b = h_cells h b)"
  using list_remove_node_chain [where h = h and cmp = cmp and node = node and r = r, OF assms] by auto

theorem list_remove_node_removes_first_witness:
  "chain (h_cells heap2) (Some 0) [0, 1] \<and> heap_ok heap2 \<and> length [0::nat, 1] < 3 \<and>
   (\<exists>h' p'. list_remove_node 3 heap2 (Some 0) \<lparr>c_data = Some 11, c_next = None\<rparr>
        (\<lambda>c d. Inr (if c_data c = c_data d then 0 else 1)) = Inr (h', p') \<and>
      chain (h_cells h') p' [0] \<and> chain_data (h_cells h') [0] = chain_data (h_cells heap2) [0] \<and>
      (\<forall>b. b \<notin> set [0::nat, 1] \<longrightarrow> h_cells h' b = h_cells heap2 b))"
proof -
  have c: "chain (h_cells heap2) (Some 0) [0, 1]" "heap_ok heap2"
    using list2_wf by (auto simp: list_wf_def list2_def)
  have "\<forall>a\<in>set [0::nat, 1]. \<forall>c. h_cells heap2 a = Some c \<longrightarrow>
      Inr (if c_data c = c_data \<lparr>c_data = Some 11, c_next = None\<rparr> then 0 else 1) =
      (Inr (if a = 1 then 0 else 1) :: cerr + int)"
    by (auto simp: heap2_def)
  then show ?thesis
    using c list_remove_node_removes_first [where h = heap2 and p = "Some 0" and as = "[0, 1]" and n = 3
      and cmp = "\<lambda>c d. Inr (if c_data c = c_data d then 0 else 1)" and node = "\<lparr>c_data = Some 11, c_next = None\<rparr>"
      and r = "\<lambda>a. if a = 1 then 0 else 1"] by simp
qed

text \<open>
  Releasing a well-formed list frees each of its cells once, hands exactly the non-NULL
  data pointers to \<open>free\<close> when \<open>deep\<close> is 1, and touches no other memory; but when the cached
  length exceeds the number of reachable cells the loop dereferences NULL.
\<close>

theorem list_release_correct:
  "(list_wf h l as \<longrightarrow> list_release h (Some l) deep =
      Inr (h_drop h (set as), if deep = 1 then non_null (list_items (h, l)) else [])) \<and>
   (list_weak h l bs \<and> length bs < unat (l_len l) \<longrightarrow>
      list_release h (Some l) deep = Inl NullDeref)"
  using list_release_loop_chain [of h "l_head l" as deep] list_wf_items [of h l as]
    list_release_loop_short [of h "l_head l" bs "unat (l_len l)" deep]
  by (auto simp: list_release_def list_wf_def list_weak_def)

theorem list_release_correct_witness:
  "list_wf heap2 list2 [0, 1] \<and> list_weak heap2 (list2\<lparr>l_len := 3\<rparr>) [0, 1] \<and>
   list_release heap2 (Some list2) 1 =
     Inr (h_drop heap2 (set [0, 1]),
          if (1::int) = 1 then non_null (list_items (heap2, list2)) else []) \<and>
   list_release heap2 (Some (list2\<lparr>l_len := 3\<rparr>)) 1 = Inl NullDeref"
proof -
  have "list_weak heap2 (list2\<lparr>l_len := 3\<rparr>) [0, 1]"
    and "length [0::nat, 1] < unat (l_len (list2\<lparr>l_len := 3\<rparr>))"
    using list2_wf by (auto simp: list_weak_def list_wf_def list2_def)
  then show ?thesis
    using list_release_correct [of heap2 list2 "[0, 1]" 1 "[]"] list2_wf
      list_release_correct [of heap2 "list2\<lparr>l_len := 3\<rparr>" "[]" 1 "[0, 1]"] by blast
qed

end
