(* ===== verification/Sz_Queue.thy ===== *)
theory Sz_Queue
  imports Sz_Heap
begin

text \<open>
  The blocking queue of \<^verbatim>\<open>queue.c\<close> over a heap of cells, with its mutex.  The model is
  the execution of one thread: \<open>q_locked\<close> says that the calling thread holds the mutex, so
  locking it again is a deadlock, and waiting for an element of an empty queue is \<open>Blocked\<close>.
  The interface \<open>fifo\<close> abstracts the queue to the sequence of its data pointers.
\<close>

section \<open>The structure and its operations\<close>

record cqueue =
  q_len :: u64
  q_front :: ptr
  q_rear :: ptr
  q_locked :: bool

definition create_queue :: "bool \<Rightarrow> cqueue option" where
  "create_queue calloc_ok =
     (if \<not> calloc_ok then None
      else Some \<lparr>q_len = 0, q_front = None, q_rear = None, q_locked = False\<rparr>)"

definition q_lock :: "cqueue \<Rightarrow> cerr + cqueue" where
  "q_lock q = (if q_locked q then Inl Deadlock else Inr (q\<lparr>q_locked := True\<rparr>))"

definition q_unlock :: "cqueue \<Rightarrow> cqueue" where
  "q_unlock q = q\<lparr>q_locked := False\<rparr>"

definition enqueue :: "cell heap \<Rightarrow> cqueue \<Rightarrow> ptr \<Rightarrow> cerr + (cell heap \<times> cqueue)" where
  "enqueue h q data =
     bindR (q_lock q) (\<lambda>q.
     case h_alloc h \<lparr>c_data = data, c_next = None\<rparr> of
       None \<Rightarrow> Inl ExitFailure
     | Some (new_item, h1) \<Rightarrow>
         let q = q\<lparr>q_len := q_len q + 1\<rparr> in
         if q_front q = None \<and> q_rear q = None
         then Inr (h1, q_unlock (q\<lparr>q_front := Some new_item, q_rear := Some new_item\<rparr>))
         else bindR (h_load h1 (q_rear q)) (\<lambda>c.
              bindR (h_store h1 (q_rear q) (c\<lparr>c_next := Some new_item\<rparr>)) (\<lambda>h2.
              Inr (h2, q_unlock (q\<lparr>q_rear := Some new_item\<rparr>)))))"

definition dequeue :: "cell heap \<Rightarrow> cqueue \<Rightarrow> cerr + (cell heap \<times> cqueue \<times> ptr)" where
  "dequeue h q =
     bindR (q_lock q) (\<lambda>q.
     if q_len q = 0 then Inl Blocked
     else
       let del_item = q_front q in
       bindR (h_load h (q_front q)) (\<lambda>c.
       let q = q\<lparr>q_front := c_next c\<rparr>;
           q = (if q_front q = None then q\<lparr>q_rear := None\<rparr> else q)
       in bindR (h_load h del_item) (\<lambda>d.
          bindR (h_free h del_item) (\<lambda>h1.
          Inr (h1, q_unlock (q\<lparr>q_len := q_len q - 1\<rparr>), c_data d)))))"

text \<open>The loop \<open>while (q->len > 0) dequeue(q)\<close>, with fuel; the queue itself is then freed.\<close>

fun release_queue_loop :: "nat \<Rightarrow> cell heap \<Rightarrow> cqueue \<Rightarrow> cerr + cell heap" where
  "release_queue_loop n h q =
     (if q_len q = 0 then Inr h
      else (case n of 0 \<Rightarrow> Inl Diverges
        | Suc m \<Rightarrow> bindR (dequeue h q) (\<lambda>(h1, q1, _). release_queue_loop m h1 q1)))"

declare release_queue_loop.simps [simp del]

definition release_queue :: "nat \<Rightarrow> cell heap \<Rightarrow> cqueue option \<Rightarrow> cerr + cell heap" where
  "release_queue fuel h qo =
     (case qo of None \<Rightarrow> Inr h | Some q \<Rightarrow> release_queue_loop fuel h q)"

text \<open>
  \<open>send_queue\<close> walks the items and keeps the last return code; the callback may change a
  state of its own but not the items (it is passed the item's address).
\<close>

fun send_queue_loop :: "nat \<Rightarrow> cell heap \<Rightarrow> ptr \<Rightarrow> (nat \<Rightarrow> 's \<Rightarrow> cerr + ('s \<times> int)) \<Rightarrow> 's \<Rightarrow> int \<Rightarrow>
    cerr + ('s \<times> int)" where
  "send_queue_loop n h item f s ret =
     (case item of None \<Rightarrow> Inr (s, ret)
      | Some a \<Rightarrow> (case n of 0 \<Rightarrow> Inl Diverges
          | Suc m \<Rightarrow> bindR (f a s) (\<lambda>(s1, ret1).
              bindR (h_load h item) (\<lambda>c. send_queue_loop m h (c_next c) f s1 ret1))))"

declare send_queue_loop.simps [simp del]

definition send_queue :: "nat \<Rightarrow> cell heap \<Rightarrow> cqueue \<Rightarrow> (nat \<Rightarrow> 's \<Rightarrow> cerr + ('s \<times> int)) \<Rightarrow> 's \<Rightarrow>
    cerr + ('s \<times> int)" where
  "send_queue fuel h q f s = send_queue_loop fuel h (q_front q) f s 0"

section \<open>Invariant and abstraction\<close>

definition queue_wf :: "cell heap \<Rightarrow> cqueue \<Rightarrow> nat list \<Rightarrow> bool" where
  "queue_wf h q as \<longleftrightarrow> heap_ok h \<and> chain (h_cells h) (q_front q) as \<and> unat (q_len q) = length as \<and>
     q_rear q = (if as = [] then None else Some (last as)) \<and> \<not> q_locked q"

definition queue_inv :: "cell heap \<times> cqueue \<Rightarrow> bool" where
  "queue_inv s \<longleftrightarrow> (\<exists>as. queue_wf (fst s) (snd s) as)"

definition queue_items :: "cell heap \<times> cqueue \<Rightarrow> ptr list" where
  "queue_items s = chain_data (h_cells (fst s))
     (walk (unat (q_len (snd s))) (h_cells (fst s)) (q_front (snd s)))"

definition queue_slots :: "cell heap \<times> cqueue \<Rightarrow> nat" where
  "queue_slots s = min (h_avail (fst s)) (2 ^ 64 - 1 - unat (q_len (snd s)))"

lemma queue_wf_items: "queue_wf h q as \<Longrightarrow> queue_items (h, q) = chain_data (h_cells h) as"
  by (auto simp: queue_wf_def queue_items_def dest: chain_walk)

lemma enqueue_wf:
  assumes "queue_wf h q as" and "queue_slots (h, q) > 0"
  obtains a h' q' where "enqueue h q d = Inr (h', q')" "queue_wf h' q' (as @ [a])"
    "chain_data (h_cells h') (as @ [a]) = chain_data (h_cells h) as @ [d]"
    "queue_slots (h', q') = queue_slots (h, q) - 1"
proof -
  have slots: "h_avail h > 0" "unat (q_len q + 1) = unat (q_len q) + 1"
    using assms(2) unat_bound [of "q_len q"] by (auto simp: queue_slots_def unat_word_ariths)
  define c where "c = \<lparr>c_data = d, c_next = None\<rparr>"
  obtain h1 where h1: "h_alloc h c = Some (h_brk h, h1)" "h_avail h1 = h_avail h - 1"
    using slots(1) by (auto simp: h_alloc_def)
  have inv: "heap_ok h" "chain (h_cells h) (q_front q) as" "unat (q_len q) = length as"
      "q_rear q = (if as = [] then None else Some (last as))" "\<not> q_locked q"
    using assms(1) by (auto simp: queue_wf_def)
  note fresh = h_alloc_fresh [OF inv(1) h1(1)]
  have new: "h_brk h \<notin> set as"
    by (rule chain_fresh [OF inv(2) fresh(1)])
  show thesis
  proof (cases "as = []")
    case True
    let ?q = "q\<lparr>q_len := q_len q + 1, q_front := Some (h_brk h), q_rear := Some (h_brk h), q_locked := False\<rparr>"
    have "enqueue h q d = Inr (h1, ?q)" "queue_slots (h1, ?q) = queue_slots (h, q) - 1"
      using True inv h1 slots
      by (auto simp: enqueue_def q_lock_def q_unlock_def Let_def queue_slots_def simp flip: c_def)
    moreover have "queue_wf h1 ?q ([] @ [h_brk h])"
      using fresh slots True inv by (auto simp: queue_wf_def c_def)
    ultimately show thesis
      using that [of h1 ?q "h_brk h"] fresh True by (auto simp: cell_data_def c_def)
  next
    case False
    then obtain t where t: "h_cells h (last as) = Some t"
      using chain_allocated [OF inv(2), of "last as"] by auto
    let ?h = "h_upd h1 (last as) (Some (t\<lparr>c_next := Some (h_brk h)\<rparr>))"
    let ?q = "q\<lparr>q_len := q_len q + 1, q_rear := Some (h_brk h), q_locked := False\<rparr>"
    have t1: "h_cells h1 (last as) = Some t"
      using t new False fresh by auto
    have enq: "enqueue h q d = Inr (?h, ?q)"
      using False inv h1(1) t1
      by (auto simp: enqueue_def q_lock_def q_unlock_def Let_def heap_simps simp flip: c_def)
    have "chain (h_cells ?h) (q_front q) (as @ [h_brk h])"
      using chain_snoc [OF inv(2) False t new, of d] fresh by (simp add: c_def)
    then have "queue_wf ?h ?q (as @ [h_brk h])"
      using fresh(3) t1 slots inv by (auto simp: queue_wf_def)
    moreover have "cell_data (h_cells ?h) x = cell_data (h_cells h) x" if "x \<in> set as" for x
      using that new fresh(2) t by (auto simp: cell_data_def)
    moreover have "cell_data (h_cells ?h) (h_brk h) = d"
      using new False fresh(2) by (auto simp: cell_data_def c_def)
    moreover have "queue_slots (?h, ?q) = queue_slots (h, q) - 1"
      using slots h1(2) by (auto simp: queue_slots_def)
    ultimately show thesis
      using that [OF enq] by simp
  qed
qed

lemma dequeue_wf:
  assumes "queue_wf h q (a # as)"
  obtains q' where "dequeue h q = Inr (h_upd h a None, q', cell_data (h_cells h) a)"
    "queue_wf (h_upd h a None) q' as" "chain_data (h_cells (h_upd h a None)) as = chain_data (h_cells h) as"
    "q_len q' = q_len q - 1"
proof -
  obtain c where c: "q_front q = Some a" "h_cells h a = Some c" "chain (h_cells h) (c_next c) as"
      "heap_ok h" "unat (q_len q) = Suc (length as)" "\<not> q_locked q"
      "q_rear q = Some (last (a # as))"
    using assms by (auto simp: queue_wf_def)
  have a: "a \<notin> set as"
    using assms chain_distinct [of "h_cells h" "q_front q" "a # as"] by (simp add: queue_wf_def)
  have nz: "q_len q \<noteq> 0"
    using c(5) by auto
  then have len: "unat (q_len q - 1) = length as" "q_len q \<noteq> 0"
    using c(5) by (simp_all add: unat_minus_one)
  have next_None: "c_next c = None \<longleftrightarrow> as = []"
    using c(3) by (cases as) auto
  define q' where "q' = (if as = [] then q\<lparr>q_front := c_next c, q_rear := None, q_len := q_len q - 1, q_locked := False\<rparr>
     else q\<lparr>q_front := c_next c, q_len := q_len q - 1, q_locked := False\<rparr>)"
  have "dequeue h q = Inr (h_upd h a None, q', cell_data (h_cells h) a)"
    using c len(2) next_None
    by (simp add: dequeue_def q_lock_def q_unlock_def Let_def heap_simps cell_data_def q'_def)
  moreover have "queue_wf (h_upd h a None) q' as"
    using c a len by (auto simp: queue_wf_def q'_def)
  ultimately show thesis
    using that a by (auto simp: q'_def)
qed

section \<open>The interface: a first-in first-out queue\<close>

fun drain :: "('s \<Rightarrow> cerr + ('s \<times> 'd)) \<Rightarrow> nat \<Rightarrow> 's \<Rightarrow> cerr + ('s \<times> 'd list)" where
  "drain deq 0 s = Inr (s, [])"
| "drain deq (Suc n) s =
     bindR (deq s) (\<lambda>(s1, d). bindR (drain deq n s1) (\<lambda>(s2, ds). Inr (s2, d # ds)))"

fun fill :: "('s \<Rightarrow> 'd \<Rightarrow> cerr + 's) \<Rightarrow> 's \<Rightarrow> 'd list \<Rightarrow> cerr + 's" where
  "fill enq s [] = Inr s"
| "fill enq s (d # ds) = bindR (enq s d) (\<lambda>s'. fill enq s' ds)"

locale fifo =
  fixes inv :: "'s \<Rightarrow> bool"
    and items :: "'s \<Rightarrow> 'd list"
    and slots :: "'s \<Rightarrow> nat"
    and enq :: "'s \<Rightarrow> 'd \<Rightarrow> cerr + 's"
    and deq :: "'s \<Rightarrow> cerr + ('s \<times> 'd)"
  assumes enq_ok: "inv s \<Longrightarrow> slots s > 0 \<Longrightarrow>
      \<exists>s'. enq s d = Inr s' \<and> inv s' \<and> items s' = items s @ [d] \<and> slots s' = slots s - 1"
    and deq_ok: "inv s \<Longrightarrow> items s = d # ds \<Longrightarrow>
      \<exists>s'. deq s = Inr (s', d) \<and> inv s' \<and> items s' = ds"
    and deq_empty: "inv s \<Longrightarrow> items s = [] \<Longrightarrow> deq s = Inl Blocked"
begin

lemma fill_ok:
  assumes "inv s" and "length ds \<le> slots s"
  shows "\<exists>s'. fill enq s ds = Inr s' \<and> inv s' \<and> items s' = items s @ ds"
  using assms
proof (induction ds arbitrary: s)
  case Nil
  then show ?case by simp
next
  case (Cons d ds)
  then obtain s1 where s1: "enq s d = Inr s1" "inv s1" "items s1 = items s @ [d]"
      "slots s1 = slots s - 1"
    using enq_ok [of s d] by auto
  with Cons.prems Cons.IH [of s1] show ?case by auto
qed

lemma drain_ok:
  assumes "inv s" and "n \<le> length (items s)"
  shows "\<exists>s'. drain deq n s = Inr (s', take n (items s)) \<and> inv s' \<and> items s' = drop n (items s)"
  using assms
proof (induction n arbitrary: s)
  case 0
  then show ?case by simp
next
  case (Suc n)
  then obtain d ds where "items s = d # ds"
    by (cases "items s") auto
  with Suc.prems deq_ok [of s d ds] obtain s1 where s1: "deq s = Inr (s1, d)" "inv s1" "items s1 = ds"
    by blast
  with Suc.prems Suc.IH [of s1] \<open>items s = d # ds\<close> show ?case by auto
qed

lemma fill_drain:
  assumes "inv s" and "items s = []" and "length ds \<le> slots s"
  shows "\<exists>s1 s2. fill enq s ds = Inr s1 \<and> drain deq (length ds) s1 = Inr (s2, ds) \<and> inv s2 \<and>
    deq s2 = Inl Blocked"
  using fill_ok [OF assms(1,3)] drain_ok [of _ "length ds"] deq_empty assms(2) by fastforce

end

abbreviation deq_pair :: "cell heap \<times> cqueue \<Rightarrow> cerr + ((cell heap \<times> cqueue) \<times> ptr)" where
  "deq_pair s \<equiv> bindR (dequeue (fst s) (snd s)) (\<lambda>(h, q, d). Inr ((h, q), d))"

abbreviation enq_pair :: "cell heap \<times> cqueue \<Rightarrow> ptr \<Rightarrow> cerr + (cell heap \<times> cqueue)" where
  "enq_pair s d \<equiv> enqueue (fst s) (snd s) d"

lemma dequeue_empty: "queue_wf h q [] \<Longrightarrow> dequeue h q = Inl Blocked"
  by (simp add: queue_wf_def dequeue_def q_lock_def unat_eq_0)

interpretation lq: fifo queue_inv queue_items queue_slots enq_pair deq_pair
proof
  fix s and d :: ptr and ds
  assume "queue_inv s"
  then obtain as where wf: "queue_wf (fst s) (snd s) as" and items: "queue_items s = chain_data (h_cells (fst s)) as"
    using queue_wf_items [of "fst s" "snd s"] by (auto simp: queue_inv_def)
  show "\<exists>s'. enq_pair s d = Inr s' \<and> queue_inv s' \<and> queue_items s' = queue_items s @ [d] \<and>
      queue_slots s' = queue_slots s - 1" if "queue_slots s > 0"
  proof -
    have "queue_slots (fst s, snd s) > 0"
      using that by simp
    with wf obtain a h' q' where "enq_pair s d = Inr (h', q')" "queue_wf h' q' (as @ [a])"
      "chain_data (h_cells h') (as @ [a]) = chain_data (h_cells (fst s)) as @ [d]"
      "queue_slots (h', q') = queue_slots (fst s, snd s) - 1"
      by (rule enqueue_wf)
    then show ?thesis
      using items by (auto simp: queue_inv_def queue_wf_items)
  qed
  show "\<exists>s'. deq_pair s = Inr (s', d) \<and> queue_inv s' \<and> queue_items s' = ds" if ne: "queue_items s = d # ds"
  proof -
    obtain a as' where as: "as = a # as'" "d = cell_data (h_cells (fst s)) a"
        "ds = chain_data (h_cells (fst s)) as'"
      using items ne by (cases as) auto
    from wf [unfolded as(1)] obtain q' where
      "dequeue (fst s) (snd s) = Inr (h_upd (fst s) a None, q', cell_data (h_cells (fst s)) a)"
      "queue_wf (h_upd (fst s) a None) q' as'"
      "chain_data (h_cells (h_upd (fst s) a None)) as' = chain_data (h_cells (fst s)) as'"
      by (rule dequeue_wf)
    then show ?thesis
      using as by (auto simp: queue_inv_def queue_wf_items simp del: h_upd_sel)
  qed
  show "deq_pair s = Inl Blocked" if "queue_items s = []"
    using wf items that by (simp add: dequeue_empty)
qed

section \<open>Release and traversal\<close>

lemma release_queue_loop_ok:
  assumes "queue_wf h q as" and "length as \<le> n"
  shows "\<exists>h'. release_queue_loop n h q = Inr h' \<and> (\<forall>a\<in>set as. h_cells h' a = None) \<and>
    (\<forall>b. b \<notin> set as \<longrightarrow> h_cells h' b = h_cells h b)"
  using assms
proof (induction as arbitrary: h q n)
  case Nil
  then show ?case
    by (auto simp: queue_wf_def release_queue_loop.simps unat_eq_0)
next
  case (Cons a as)
  then obtain m where m: "n = Suc m" "length as \<le> m"
    by (cases n) auto
  from Cons.prems(1) obtain q' where d: "dequeue h q = Inr (h_upd h a None, q', cell_data (h_cells h) a)"
      "queue_wf (h_upd h a None) q' as"
    by (rule dequeue_wf)
  have nz: "q_len q \<noteq> 0"
    using Cons.prems(1) by (auto simp: queue_wf_def)
  from Cons.IH [OF d(2) m(2)] obtain h' where h': "release_queue_loop m (h_upd h a None) q' = Inr h'"
      "\<forall>a\<in>set as. h_cells h' a = None"
      "\<forall>b. b \<notin> set as \<longrightarrow> h_cells h' b = ((h_cells h)(a := None)) b"
    by auto
  have "release_queue_loop n h q = Inr h'"
    using m d nz h'(1) by (subst release_queue_loop.simps) simp
  moreover have "\<forall>x\<in>set (a # as). h_cells h' x = None"
    using h'(2,3) by auto
  ultimately show ?case
    using h'(3) by auto
qed

lemma send_queue_loop_ok:
  assumes "chain (h_cells h) p as" and "length as \<le> n"
    and "\<And>a s. a \<in> set as \<Longrightarrow> f a s = Inr (g a s, rc a s)"
  shows "send_queue_loop n h p f s ret =
    Inr (fold g as s, if as = [] then ret else rc (last as) (fold g (butlast as) s))"
  using assms
proof (induction as arbitrary: p n s ret)
  case Nil
  then show ?case by (auto simp: send_queue_loop.simps)
next
  case (Cons a as)
  then obtain m c where "n = Suc m" "length as \<le> m" "p = Some a" "h_cells h a = Some c"
      "chain (h_cells h) (c_next c) as"
    by (cases n) auto
  with Cons show ?case
    by (subst send_queue_loop.simps) (auto simp: heap_simps)
qed

section \<open>Properties\<close>

definition queue0 :: cqueue where
  "queue0 = \<lparr>q_len = 0, q_front = None, q_rear = None, q_locked = False\<rparr>"

lemma queue0_inv: "queue_inv (empty_heap 4, queue0)"
  by (auto simp: queue_inv_def queue_wf_def queue0_def empty_heap_def heap_ok_def intro!: exI [of _ "[]"])

text \<open>
  C34: the queue is first-in first-out.  Enqueuing a sequence on an empty well-formed queue
  (allocation and the length counter permitting) and dequeuing as often returns the sequence in
  order; no cell is leaked into the links and a further dequeue blocks.
\<close>

theorem queue_fifo:
  assumes "queue_inv s" and "queue_items s = []" and "length ds \<le> queue_slots s"
  shows "\<exists>s1 s2. fill (\<lambda>s d. enqueue (fst s) (snd s) d) s ds = Inr s1 \<and>
    drain (\<lambda>s. bindR (dequeue (fst s) (snd s)) (\<lambda>(h, q, d). Inr ((h, q), d))) (length ds) s1 =
      Inr (s2, ds) \<and> queue_inv s2 \<and> dequeue (fst s2) (snd s2) = Inl Blocked"
  using lq.fill_drain [OF assms] by (auto simp: res_simps)

theorem queue_fifo_witness:
  "queue_inv (empty_heap 4, queue0) \<and> queue_items (empty_heap 4, queue0) = [] \<and>
   (\<exists>s1 s2. fill (\<lambda>s d. enqueue (fst s) (snd s) d) (empty_heap 4, queue0) [Some 8, None, Some 9] = Inr s1 \<and>
     drain (\<lambda>s. bindR (dequeue (fst s) (snd s)) (\<lambda>(h, q, d). Inr ((h, q), d))) (length [Some 8, None, Some (9::nat)]) s1 =
      Inr (s2, [Some 8, None, Some 9]) \<and> queue_inv s2 \<and> dequeue (fst s2) (snd s2) = Inl Blocked)"
proof -
  have "queue_items (empty_heap 4, queue0) = []"
    and "length [Some 8, None, Some (9::nat)] \<le> queue_slots (empty_heap 4, queue0)"
    by (simp_all add: queue_items_def queue_slots_def queue0_def empty_heap_def)
  from queue_fifo [OF queue0_inv this] queue0_inv this show ?thesis by blast
qed

text \<open>
  C35: releasing a well-formed queue terminates: with as much fuel as there are items the loop
  of \<open>release_queue\<close> returns, having freed every item cell and nothing else; it never waits on
  the condition variable.
\<close>

theorem release_queue_terminates:
  assumes "queue_wf h q as"
  shows "\<exists>h'. release_queue (unat (q_len q)) h (Some q) = Inr h' \<and>
    (\<forall>a\<in>set as. h_cells h' a = None) \<and> (\<forall>b. b \<notin> set as \<longrightarrow> h_cells h' b = h_cells h b)"
  using release_queue_loop_ok [OF assms, of "unat (q_len q)"] assms
  by (simp add: release_queue_def queue_wf_def)

definition queue_heap1 :: "cell heap" where
  "queue_heap1 = \<lparr>h_cells = (\<lambda>_. None)(0 := Some \<lparr>c_data = Some 5, c_next = None\<rparr>), h_brk = 1, h_avail = 0\<rparr>"

definition queue1 :: cqueue where
  "queue1 = \<lparr>q_len = 1, q_front = Some 0, q_rear = Some 0, q_locked = False\<rparr>"

theorem release_queue_terminates_witness:
  "queue_wf queue_heap1 queue1 [0] \<and>
   (\<exists>h'. release_queue (unat (q_len queue1)) queue_heap1 (Some queue1) = Inr h' \<and>
     (\<forall>a\<in>set [0]. h_cells h' a = None) \<and> (\<forall>b. b \<notin> set [0] \<longrightarrow> h_cells h' b = h_cells queue_heap1 b))"
proof -
  have "queue_wf queue_heap1 queue1 [0]"
    by (simp add: queue_wf_def queue_heap1_def queue1_def heap_ok_def)
  from this release_queue_terminates [OF this] show ?thesis by blast
qed

end
