(* ===== verification/Sz_Crc32.thy ===== *)
theory Sz_Crc32
  imports Sz_Prelude
begin

text \<open>
  The table-driven CRC-32 of \<^verbatim>\<open>hashmap.c\<close> and its equivalence with the bit-by-bit
  definition: shift right, and add the reflected polynomial \<open>0xEDB88320\<close> whenever the bit
  shifted out is set.  All values are \<open>unsigned long\<close>, 64 bits wide, as in the source.
\<close>

section \<open>The table and the loop\<close>

definition crc32_tab :: "u64 list" where
  "crc32_tab = [
    0x00000000, 0x77073096, 0xee0e612c, 0x990951ba, 0x076dc419, 0x706af48f,
    0xe963a535, 0x9e6495a3, 0x0edb8832, 0x79dcb8a4, 0xe0d5e91e, 0x97d2d988,
    0x09b64c2b, 0x7eb17cbd, 0xe7b82d07, 0x90bf1d91, 0x1db71064, 0x6ab020f2,
    0xf3b97148, 0x84be41de, 0x1adad47d, 0x6ddde4eb, 0xf4d4b551, 0x83d385c7,
    0x136c9856, 0x646ba8c0, 0xfd62f97a, 0x8a65c9ec, 0x14015c4f, 0x63066cd9,
    0xfa0f3d63, 0x8d080df5, 0x3b6e20c8, 0x4c69105e, 0xd56041e4, 0xa2677172,
    0x3c03e4d1, 0x4b04d447, 0xd20d85fd, 0xa50ab56b, 0x35b5a8fa, 0x42b2986c,
    0xdbbbc9d6, 0xacbcf940, 0x32d86ce3, 0x45df5c75, 0xdcd60dcf, 0xabd13d59,
    0x26d930ac, 0x51de003a, 0xc8d75180, 0xbfd06116, 0x21b4f4b5, 0x56b3c423,
    0xcfba9599, 0xb8bda50f, 0x2802b89e, 0x5f058808, 0xc60cd9b2, 0xb10be924,
    0x2f6f7c87, 0x58684c11, 0xc1611dab, 0xb6662d3d, 0x76dc4190, 0x01db7106,
    0x98d220bc, 0xefd5102a, 0x71b18589, 0x06b6b51f, 0x9fbfe4a5, 0xe8b8d433,
    0x7807c9a2, 0x0f00f934, 0x9609a88e, 0xe10e9818, 0x7f6a0dbb, 0x086d3d2d,
    0x91646c97, 0xe6635c01, 0x6b6b51f4, 0x1c6c6162, 0x856530d8, 0xf262004e,
    0x6c0695ed, 0x1b01a57b, 0x8208f4c1, 0xf50fc457, 0x65b0d9c6, 0x12b7e950,
    0x8bbeb8ea, 0xfcb9887c, 0x62dd1ddf, 0x15da2d49, 0x8cd37cf3, 0xfbd44c65,
    0x4db26158, 0x3ab551ce, 0xa3bc0074, 0xd4bb30e2, 0x4adfa541, 0x3dd895d7,
    0xa4d1c46d, 0xd3d6f4fb, 0x4369e96a, 0x346ed9fc, 0xad678846, 0xda60b8d0,
    0x44042d73, 0x33031de5, 0xaa0a4c5f, 0xdd0d7cc9, 0x5005713c, 0x270241aa,
    0xbe0b1010, 0xc90c2086, 0x5768b525, 0x206f85b3, 0xb966d409, 0xce61e49f,
    0x5edef90e, 0x29d9c998, 0xb0d09822, 0xc7d7a8b4, 0x59b33d17, 0x2eb40d81,
    0xb7bd5c3b, 0xc0ba6cad, 0xedb88320, 0x9abfb3b6, 0x03b6e20c, 0x74b1d29a,
    0xead54739, 0x9dd277af, 0x04db2615, 0x73dc1683, 0xe3630b12, 0x94643b84,
    0x0d6d6a3e, 0x7a6a5aa8, 0xe40ecf0b, 0x9309ff9d, 0x0a00ae27, 0x7d079eb1,
    0xf00f9344, 0x8708a3d2, 0x1e01f268, 0x6906c2fe, 0xf762575d, 0x806567cb,
    0x196c3671, 0x6e6b06e7, 0xfed41b76, 0x89d32be0, 0x10da7a5a, 0x67dd4acc,
    0xf9b9df6f, 0x8ebeeff9, 0x17b7be43, 0x60b08ed5, 0xd6d6a3e8, 0xa1d1937e,
    0x38d8c2c4, 0x4fdff252, 0xd1bb67f1, 0xa6bc5767, 0x3fb506dd, 0x48b2364b,
    0xd80d2bda, 0xaf0a1b4c, 0x36034af6, 0x41047a60, 0xdf60efc3, 0xa867df55,
    0x316e8eef, 0x4669be79, 0xcb61b38c, 0xbc66831a, 0x256fd2a0, 0x5268e236,
    0xcc0c7795, 0xbb0b4703, 0x220216b9, 0x5505262f, 0xc5ba3bbe, 0xb2bd0b28,
    0x2bb45a92, 0x5cb36a04, 0xc2d7ffa7, 0xb5d0cf31, 0x2cd99e8b, 0x5bdeae1d,
    0x9b64c2b0, 0xec63f226, 0x756aa39c, 0x026d930a, 0x9c0906a9, 0xeb0e363f,
    0x72076785, 0x05005713, 0x95bf4a82, 0xe2b87a14, 0x7bb12bae, 0x0cb61b38,
    0x92d28e9b, 0xe5d5be0d, 0x7cdcefb7, 0x0bdbdf21, 0x86d3d2d4, 0xf1d4e242,
    0x68ddb3f8, 0x1fda836e, 0x81be16cd, 0xf6b9265b, 0x6fb077e1, 0x18b74777,
    0x88085ae6, 0xff0f6a70, 0x66063bca, 0x11010b5c, 0x8f659eff, 0xf862ae69,
    0x616bffd3, 0x166ccf45, 0xa00ae278, 0xd70dd2ee, 0x4e048354, 0x3903b3c2,
    0xa7672661, 0xd06016f7, 0x4969474d, 0x3e6e77db, 0xaed16a4a, 0xd9d65adc,
    0x40df0b66, 0x37d83bf0, 0xa9bcae53, 0xdebb9ec5, 0x47b2cf7f, 0x30b5ffe9,
    0xbdbdf21c, 0xcabac28a, 0x53b39330, 0x24b4a3a6, 0xbad03605, 0xcdd70693,
    0x54de5729, 0x23d967bf, 0xb3667a2e, 0xc4614ab8, 0x5d681b02, 0x2a6f2b94,
    0xb40bbe37, 0xc30c8ea1, 0x5a05df1b, 0x2d02ef8d
    ]"

definition crc32_step :: "u8 \<Rightarrow> u64 \<Rightarrow> u64" where
  "crc32_step b crc32val =
     crc32_tab ! unat ((crc32val XOR ucast b) AND 0xff) XOR drop_bit 8 crc32val"

definition crc32 :: "block \<Rightarrow> nat \<Rightarrow> cerr + u64" where
  "crc32 s len = bindR (rd_block s 0 len) (\<lambda>bs. Inr (fold crc32_step bs 0))"

section \<open>The reference: one bit at a time\<close>

definition crc_bit :: "u64 \<Rightarrow> u64" where
  "crc_bit c = (if bit c 0 then drop_bit 1 c XOR 0xEDB88320 else drop_bit 1 c)"

definition crc_byte :: "u8 \<Rightarrow> u64 \<Rightarrow> u64" where
  "crc_byte b c = (crc_bit ^^ 8) (c XOR ucast b)"

lemma crc_bit_xor: "crc_bit (a XOR b) = crc_bit a XOR crc_bit b"
  by (auto simp: crc_bit_def bit_simps drop_bit_xor ac_simps xor.left_commute)

lemma crc_bits_xor: "(crc_bit ^^ n) (a XOR b) = (crc_bit ^^ n) a XOR (crc_bit ^^ n) b"
  by (induction n) (auto simp: crc_bit_xor)

text \<open>While the low bits are clear the steps only shift.\<close>

lemma crc_bits_shift: "take_bit n c = 0 \<Longrightarrow> (crc_bit ^^ n) c = drop_bit n c"
proof (induction n)
  case (Suc n)
  then have low: "\<not> bit c j" if "j < Suc n" for j
    using that by (metis bit_0_eq bit_take_bit_iff bot_apply bot_bool_def)
  then have "take_bit n c = 0"
    by (auto intro!: bit_eqI simp: bit_take_bit_iff)
  then have "(crc_bit ^^ n) c = drop_bit n c"
    by (rule Suc.IH)
  moreover have "\<not> bit (drop_bit n c) 0"
    using low [of n] by (simp add: bit_drop_bit_eq)
  ultimately have "crc_bit ((crc_bit ^^ n) c) = drop_bit 1 (drop_bit n c)"
    by (simp only: crc_bit_def if_False)
  then show ?case
    by simp
qed simp

lemma length_crc32_tab: "length crc32_tab = 256"
  by (simp add: crc32_tab_def)

text \<open>
  Every entry of the table is eight reference steps from its index: the walk compares the
  entries with the indices counted up as words.
\<close>

definition crc8 :: "u64 \<Rightarrow> u64" where
  "crc8 c = (crc_bit ^^ 8) c"

fun tab_ok :: "u64 \<Rightarrow> u64 list \<Rightarrow> bool" where
  "tab_ok i [] = True"
| "tab_ok i (x # xs) = (crc8 i = x \<and> tab_ok (i + 1) xs)"

lemma crc8_steps:
  "crc8 c = crc_bit (crc_bit (crc_bit (crc_bit (crc_bit (crc_bit (crc_bit (crc_bit c)))))))"
  by (simp add: crc8_def numeral_eq_Suc)

lemma crc_bit_numerals:
  "crc_bit 0 = 0" "crc_bit 1 = 0xEDB88320"
  "crc_bit (numeral n) =
     (if bit (numeral n :: u64) 0 then drop_bit 1 (numeral n) XOR 0xEDB88320
      else drop_bit 1 (numeral n))"
  by (simp_all add: crc_bit_def)

lemma tab_ok_split: "tab_ok i (take n xs) \<Longrightarrow> tab_ok (i + of_nat n) (drop n xs) \<Longrightarrow> tab_ok i xs"
  by (induction xs arbitrary: i n) (auto simp: take_Cons drop_Cons ac_simps split: nat.splits)

lemma crc32_tab_ok1: "tab_ok 0 (take 64 crc32_tab)"
  by (simp add: crc8_steps crc_bit_numerals crc32_tab_def)

lemma crc32_tab_ok2: "tab_ok 64 (take 64 (drop 64 crc32_tab))"
  by (simp add: crc8_steps crc_bit_numerals crc32_tab_def)

lemma crc32_tab_ok3: "tab_ok 128 (take 64 (drop 128 crc32_tab))"
  by (simp add: crc8_steps crc_bit_numerals crc32_tab_def)

lemma crc32_tab_ok4: "tab_ok 192 (drop 192 crc32_tab)"
  by (simp add: crc8_steps crc_bit_numerals crc32_tab_def)

lemma crc32_tab_ok: "tab_ok 0 crc32_tab"
proof -
  have "tab_ok 128 (drop 128 crc32_tab)"
    using tab_ok_split [of 128 64 "drop 128 crc32_tab"] crc32_tab_ok3 crc32_tab_ok4 by simp
  then have "tab_ok 64 (drop 64 crc32_tab)"
    using tab_ok_split [of 64 64 "drop 64 crc32_tab"] crc32_tab_ok2 by simp
  then show ?thesis
    using tab_ok_split [of 0 64 crc32_tab] crc32_tab_ok1 by simp
qed

lemma tab_ok_nth: "tab_ok i xs \<Longrightarrow> j < length xs \<Longrightarrow> xs ! j = crc8 (i + of_nat j)"
proof (induction xs arbitrary: i j)
  case (Cons x xs)
  then show ?case by (cases j) (auto simp: algebra_simps)
qed simp

lemma crc32_tab_nth: "j < 256 \<Longrightarrow> crc32_tab ! j = crc8 (of_nat j)"
  using tab_ok_nth [OF crc32_tab_ok, of j] by (simp add: length_crc32_tab)

section \<open>Equivalence\<close>

lemma low_byte_less: "unat (x AND 0xff :: u64) < 256"
proof -
  have "x AND 0xff \<le> (0xff :: u64)"
    by (rule word_and_le1)
  then show ?thesis
    by (simp add: word_le_nat_alt)
qed

text \<open>Eight steps split a word into the table entry of its low byte and the rest, shifted.\<close>

lemma crc8_split: "crc8 x = crc32_tab ! unat (x AND 0xff) XOR drop_bit 8 x"
proof -
  have m: "(0xff :: u64) = mask 8"
    by (simp add: mask_eq_exp_minus_1)
  have "x = (x AND 0xff) XOR push_bit 8 (drop_bit 8 x)"
    unfolding m by (auto intro!: bit_word_eqI simp: bit_simps)
  then have "crc8 x = crc8 (x AND 0xff) XOR (crc_bit ^^ 8) (push_bit 8 (drop_bit 8 x))"
    unfolding crc8_def using crc_bits_xor by metis
  moreover have "(crc_bit ^^ 8) (push_bit 8 (drop_bit 8 x)) = drop_bit 8 (push_bit 8 (drop_bit 8 x))"
    by (rule crc_bits_shift) (auto intro!: bit_word_eqI simp: bit_simps)
  moreover have "drop_bit 8 (push_bit 8 (drop_bit 8 x)) = drop_bit 8 x"
  proof (rule bit_word_eqI)
    fix n
    show "bit (drop_bit 8 (push_bit 8 (drop_bit 8 x))) n = bit (drop_bit 8 x) n"
      using bit_imp_le_length [of x "8 + n"] by (auto simp: bit_simps)
  qed
  moreover have "crc8 (x AND 0xff) = crc32_tab ! unat (x AND 0xff)"
    using crc32_tab_nth [OF low_byte_less] by simp
  ultimately show ?thesis by simp
qed

lemma crc32_step_eq: "crc32_step b c = crc_byte b c"
proof -
  have "drop_bit 8 (c XOR ucast b) = drop_bit 8 c"
    by (auto intro!: bit_word_eqI simp: bit_simps dest!: bit_imp_le_length [of b])
  then show ?thesis
    by (simp add: crc32_step_def crc_byte_def crc8_split flip: crc8_def)
qed

lemma crc32_fold: "len \<le> length s \<Longrightarrow> crc32 s len = Inr (fold crc_byte (take len s) 0)"
proof -
  assume "len \<le> length s"
  moreover have "crc32_step = crc_byte"
    by (simp add: fun_eq_iff crc32_step_eq)
  ultimately show ?thesis
    by (simp add: crc32_def rd_block_def)
qed

text \<open>The checksum fits in 32 bits although it is computed in 64.\<close>

definition fits32 :: "u64 \<Rightarrow> bool" where
  "fits32 c \<longleftrightarrow> take_bit 32 c = c"

lemma fits32_bits: "fits32 c \<longleftrightarrow> (\<forall>n. bit c n \<longrightarrow> n < 32)"
  using bit_imp_le_length [of c] by (auto simp: fits32_def bit_eq_iff bit_take_bit_iff)

lemma fits32_xor: "fits32 a \<Longrightarrow> fits32 b \<Longrightarrow> fits32 (a XOR b)"
  by (simp add: fits32_def take_bit_xor)

lemma fits32_drop: "fits32 a \<Longrightarrow> fits32 (drop_bit n a)"
  by (fastforce simp: fits32_bits bit_drop_bit_eq)

lemma fits32_crc_bit: "fits32 c \<Longrightarrow> fits32 (crc_bit c)"
proof -
  have "fits32 0xEDB88320"
    by (simp add: fits32_def)
  then show "fits32 c \<Longrightarrow> fits32 (crc_bit c)"
    by (simp add: crc_bit_def fits32_xor fits32_drop)
qed

lemma fits32_crc_byte: "fits32 c \<Longrightarrow> fits32 (crc_byte b c)"
proof -
  have "fits32 (ucast b)"
    unfolding fits32_def by (auto intro!: bit_word_eqI simp: bit_simps dest!: bit_imp_le_length [of b])
  moreover have "fits32 c \<Longrightarrow> fits32 ((crc_bit ^^ n) c)" for n c
    by (induction n) (auto simp: fits32_crc_bit)
  ultimately show "fits32 c \<Longrightarrow> fits32 (crc_byte b c)"
    by (simp add: crc_byte_def fits32_xor)
qed

lemma fits32_fold: "fits32 c \<Longrightarrow> fits32 (fold crc_byte bs c)"
  by (induction bs arbitrary: c) (auto simp: fits32_crc_byte)

lemma fits32_less: "fits32 c \<Longrightarrow> unat c < 2 ^ 32"
  unfolding fits32_def by (metis unsigned_take_bit_eq take_bit_nat_less_exp)

section \<open>Properties\<close>

text \<open>
  C31: the table-driven \<open>crc32\<close> computes the bit-by-bit CRC with the reflected polynomial
  0xEDB88320 and initial value 0 of the first \<open>len\<close> bytes, and the result fits in 32 bits
  although all arithmetic is done in 64.
\<close>

theorem crc32_bitwise:
  assumes "len \<le> length s"
  shows "\<exists>c. crc32 s len = Inr c \<and> c = fold (\<lambda>b c. (crc_bit ^^ 8) (c XOR ucast b)) (take len s) 0 \<and>
    unat c < 2 ^ 32"
proof -
  have "crc_byte = (\<lambda>b c. (crc_bit ^^ 8) (c XOR ucast b))"
    by (simp add: fun_eq_iff crc_byte_def)
  moreover have "fits32 (fold crc_byte (take len s) 0)"
    by (rule fits32_fold) (simp add: fits32_def)
  ultimately show ?thesis
    using crc32_fold [OF assms] fits32_less by auto
qed

theorem crc32_bitwise_witness:
  "(2::nat) \<le> length [97, 98, 0 :: u8] \<and>
   (\<exists>c. crc32 [97, 98, 0] 2 = Inr c \<and>
     c = fold (\<lambda>b c. (crc_bit ^^ 8) (c XOR ucast b)) (take 2 [97, 98, 0 :: u8]) 0 \<and> unat c < 2 ^ 32)"
  using crc32_bitwise [of 2 "[97, 98, 0]"] by auto

end
