(* ===== verification/Sz_Hashmap.thy ===== *)
theory Sz_Hashmap
  imports Sz_Crc32 Sz_Heap
begin

text \<open>
  The open-addressing hash table of \<^verbatim>\<open>hashmap.c\<close>: the hash function at its machine widths,
  the probe sequences, insertion with rehashing, lookup, deletion and iteration.  Keys are
  C strings, represented by their characters; values are pointers.  The mutex is the one of
  the calling thread: \<open>hm_locked\<close> says that this thread holds it, and the default mutex the
  code creates is not recursive, so locking it again is a deadlock.
\<close>

section \<open>Data\<close>

type_synonym key = "u8 list"

record hashmap_entry =
  he_key :: "key option"
  he_val :: ptr
  he_in_use :: bool

record hashmap =
  hm_table_size :: u64
  hm_size :: u64
  hm_entries :: "hashmap_entry list"
  hm_locked :: bool

definition INITIAL_SIZE :: u64 where "INITIAL_SIZE = 256"

definition MAX_CHAIN_LENGTH :: nat where "MAX_CHAIN_LENGTH = 8"

abbreviation HASHMAP_OK :: int where "HASHMAP_OK \<equiv> 0"
abbreviation HASHMAP_ERR :: int where "HASHMAP_ERR \<equiv> -1"

text \<open>A slot as \<open>calloc\<close> leaves it.\<close>

definition empty_entry :: hashmap_entry where
  "empty_entry = \<lparr>he_key = None, he_val = None, he_in_use = False\<rparr>"

section \<open>Hashing\<close>

text \<open>
  \<open>hashmap_hash_int\<close>: the checksum of the key, the mix and the multiplication in 64-bit
  arithmetic, then the remainder, truncated to \<open>unsigned int\<close>.
\<close>

definition mix :: "u64 \<Rightarrow> u64" where
  "mix key0 =
     (let key = key0 + push_bit 12 key0;
          key = key XOR drop_bit 22 key;
          key = key + push_bit 4 key;
          key = key XOR drop_bit 9 key;
          key = key + push_bit 10 key;
          key = key XOR drop_bit 2 key;
          key = key + push_bit 7 key;
          key = key XOR drop_bit 12 key
      in drop_bit 3 key * 2654435761)"

definition hashmap_hash_int :: "hashmap \<Rightarrow> key \<Rightarrow> cerr + u32" where
  "hashmap_hash_int m keystr =
     bindR (crc32 keystr (length keystr)) (\<lambda>key.
     bindR (guardR (hm_table_size m \<noteq> 0) DivByZero) (\<lambda>_.
     Inr (ucast (mix key mod hm_table_size m))))"

text \<open>\<open>strcmp\<close> on a stored key pointer.\<close>

definition key_eq :: "hashmap_entry \<Rightarrow> key \<Rightarrow> cerr + bool" where
  "key_eq e key = (case he_key e of None \<Rightarrow> Inl NullDeref | Some k \<Rightarrow> Inr (k = key))"

text \<open>
  The probe of \<open>hashmap_hash\<close>: the first slot within the chain that is free or already holds
  the key; \<open>None\<close> is \<open>HASHMAP_FULL\<close>.
\<close>

fun hashmap_hash_probe :: "nat \<Rightarrow> hashmap \<Rightarrow> key \<Rightarrow> nat \<Rightarrow> cerr + nat option" where
  "hashmap_hash_probe 0 m key cur = Inr None"
| "hashmap_hash_probe (Suc i) m key cur =
     bindR (rd (hm_entries m) cur) (\<lambda>e.
     if \<not> he_in_use e then Inr (Some cur)
     else bindR (key_eq e key) (\<lambda>b.
          if b then Inr (Some cur)
          else hashmap_hash_probe i m key ((cur + 1) mod unat (hm_table_size m))))"

definition hashmap_hash :: "hashmap \<Rightarrow> key \<Rightarrow> cerr + nat option" where
  "hashmap_hash m key =
     (if hm_size m \<ge> hm_table_size m div 2 then Inr None
      else bindR (hashmap_hash_int m key) (\<lambda>h.
           hashmap_hash_probe MAX_CHAIN_LENGTH m key (unat h)))"

text \<open>The probe of \<open>hashmap_get\<close>, \<open>hashmap_get_entry\<close> and \<open>hashmap_del\<close>.\<close>

fun hashmap_find_probe :: "nat \<Rightarrow> hashmap \<Rightarrow> key \<Rightarrow> nat \<Rightarrow> cerr + nat option" where
  "hashmap_find_probe 0 m key cur = Inr None"
| "hashmap_find_probe (Suc i) m key cur =
     bindR (rd (hm_entries m) cur) (\<lambda>e.
     bindR (if he_in_use e then key_eq e key else Inr False) (\<lambda>b.
     if b then Inr (Some cur)
     else hashmap_find_probe i m key ((cur + 1) mod unat (hm_table_size m))))"

definition hashmap_get_entry :: "hashmap \<Rightarrow> key \<Rightarrow> cerr + nat option" where
  "hashmap_get_entry m key =
     bindR (hashmap_hash_int m key) (\<lambda>h. hashmap_find_probe MAX_CHAIN_LENGTH m key (unat h))"

section \<open>Operations\<close>

definition hm_lock :: "hashmap \<Rightarrow> cerr + hashmap" where
  "hm_lock m = (if hm_locked m then Inl Deadlock else Inr (m\<lparr>hm_locked := True\<rparr>))"

definition hm_unlock :: "hashmap \<Rightarrow> hashmap" where
  "hm_unlock m = m\<lparr>hm_locked := False\<rparr>"

text \<open>
  \<open>hashmap_create\<close>: when the second allocation fails the code passes the map to
  \<open>hashmap_release\<close>, which reads its uninitialised size.
\<close>

definition hashmap_create :: "bool \<Rightarrow> bool \<Rightarrow> cerr + hashmap option" where
  "hashmap_create malloc_ok calloc_ok =
     (if \<not> malloc_ok then Inr None
      else if \<not> calloc_ok then Inl UninitRead
      else Inr (Some \<lparr>hm_table_size = INITIAL_SIZE, hm_size = 0,
                      hm_entries = replicate (unat INITIAL_SIZE) empty_entry, hm_locked = False\<rparr>))"

text \<open>The rehash loop over the old slots; \<open>put\<close> is the recursive call of \<open>hashmap_put\<close>.\<close>

fun hashmap_rehash_loop ::
    "(hashmap \<Rightarrow> key \<Rightarrow> ptr \<Rightarrow> cerr + (hashmap \<times> int)) \<Rightarrow> hashmap_entry list \<Rightarrow> hashmap \<Rightarrow>
     cerr + (hashmap \<times> int)" where
  "hashmap_rehash_loop put [] m = Inr (m, HASHMAP_OK)"
| "hashmap_rehash_loop put (e # es) m =
     (if \<not> he_in_use e then hashmap_rehash_loop put es m
      else (case he_key e of None \<Rightarrow> Inl NullDeref
        | Some k \<Rightarrow> bindR (put m k (he_val e)) (\<lambda>(m1, status).
            if status \<noteq> HASHMAP_OK then Inr (m1, status)
            else hashmap_rehash_loop put es m1)))"

definition hashmap_rehash ::
    "(hashmap \<Rightarrow> key \<Rightarrow> ptr \<Rightarrow> cerr + (hashmap \<times> int)) \<Rightarrow> bool \<Rightarrow> hashmap \<Rightarrow> cerr + (hashmap \<times> int)" where
  "hashmap_rehash put calloc_ok m =
     (if \<not> calloc_ok then Inr (m, HASHMAP_ERR)
      else hashmap_rehash_loop put (take (unat (hm_table_size m)) (hm_entries m))
             (m\<lparr>hm_entries := replicate (unat (2 * hm_table_size m)) empty_entry,
                hm_table_size := 2 * hm_table_size m, hm_size := 0\<rparr>))"

text \<open>
  The loop \<open>while (index == HASHMAP_FULL)\<close> and the store behind it, run with the mutex held.
\<close>

fun hashmap_put_loop ::
    "nat \<Rightarrow> (hashmap \<Rightarrow> key \<Rightarrow> ptr \<Rightarrow> cerr + (hashmap \<times> int)) \<Rightarrow> bool \<Rightarrow> hashmap \<Rightarrow> key \<Rightarrow> ptr \<Rightarrow>
     cerr + (hashmap \<times> int)" where
  "hashmap_put_loop 0 put calloc_ok m key val = Inl Diverges"
| "hashmap_put_loop (Suc n) put calloc_ok m key val =
     bindR (hashmap_hash m key) (\<lambda>index.
     case index of
       None \<Rightarrow> bindR (hashmap_rehash put calloc_ok m) (\<lambda>(m1, status).
                 if status = HASHMAP_ERR then Inr (hm_unlock m1, HASHMAP_ERR)
                 else hashmap_put_loop n put calloc_ok m1 key val)
     | Some i \<Rightarrow>
         bindR (rd (hm_entries m) i) (\<lambda>e.
         bindR (wr (hm_entries m) i (e\<lparr>he_val := val, he_key := Some key, he_in_use := True\<rparr>)) (\<lambda>es.
         Inr (hm_unlock (m\<lparr>hm_entries := es,
                hm_size := (if he_in_use e then hm_size m else hm_size m + 1)\<rparr>), HASHMAP_OK))))"

text \<open>\<open>hashmap_put\<close>; the fuel bounds the nesting of \<open>hashmap_put\<close> inside \<open>hashmap_rehash\<close>.\<close>

fun hashmap_put :: "nat \<Rightarrow> bool \<Rightarrow> hashmap \<Rightarrow> key \<Rightarrow> ptr \<Rightarrow> cerr + (hashmap \<times> int)" where
  "hashmap_put 0 calloc_ok m key val = Inl Diverges"
| "hashmap_put (Suc n) calloc_ok m key val =
     bindR (hm_lock m) (\<lambda>m1.
     hashmap_put_loop (Suc n) (\<lambda>m k v. hashmap_put n calloc_ok m k v) calloc_ok m1 key val)"

definition hashmap_get :: "hashmap \<Rightarrow> key \<Rightarrow> cerr + (hashmap \<times> ptr)" where
  "hashmap_get m key =
     bindR (hm_lock m) (\<lambda>m1.
     bindR (hashmap_get_entry m1 key) (\<lambda>cur.
     case cur of
       None \<Rightarrow> Inr (hm_unlock m1, None)
     | Some i \<Rightarrow> bindR (rd (hm_entries m1) i) (\<lambda>e. Inr (hm_unlock m1, he_val e))))"

definition hashmap_del :: "hashmap \<Rightarrow> key \<Rightarrow> cerr + (hashmap \<times> int)" where
  "hashmap_del m key =
     bindR (hm_lock m) (\<lambda>m1.
     bindR (hashmap_get_entry m1 key) (\<lambda>cur.
     case cur of
       None \<Rightarrow> Inr (hm_unlock m1, HASHMAP_ERR)
     | Some i \<Rightarrow>
         bindR (rd (hm_entries m1) i) (\<lambda>e.
         bindR (wr (hm_entries m1) i (e\<lparr>he_in_use := False\<rparr>)) (\<lambda>es.
         Inr (hm_unlock (m1\<lparr>hm_entries := es, hm_size := hm_size m1 - 1\<rparr>), HASHMAP_OK)))))"

text \<open>Iteration: the callback gets a copy of the entry and may change a state of its own.\<close>

fun hashmap_iterate_loop ::
    "(hashmap_entry \<Rightarrow> 's \<Rightarrow> cerr + ('s \<times> int)) \<Rightarrow> hashmap_entry list \<Rightarrow> 's \<Rightarrow> cerr + ('s \<times> int)" where
  "hashmap_iterate_loop f [] s = Inr (s, HASHMAP_OK)"
| "hashmap_iterate_loop f (e # es) s =
     (if he_in_use e
      then bindR (f e s) (\<lambda>(s1, status).
           if status \<noteq> HASHMAP_OK then Inr (s1, status) else hashmap_iterate_loop f es s1)
      else hashmap_iterate_loop f es s)"

definition hashmap_iterate2 ::
    "hashmap \<Rightarrow> ('a \<Rightarrow> hashmap_entry \<Rightarrow> 's \<Rightarrow> cerr + ('s \<times> int)) \<Rightarrow> 'a \<Rightarrow> 's \<Rightarrow> cerr + ('s \<times> int)" where
  "hashmap_iterate2 m f arg1 s =
     (if hm_size m \<le> 0 then Inr (s, HASHMAP_ERR)
      else bindR (rd_block (hm_entries m) 0 (unat (hm_table_size m))) (\<lambda>es.
           hashmap_iterate_loop (f arg1) es s))"

definition hashmap_iterate3 ::
    "hashmap \<Rightarrow> ('a \<Rightarrow> 'b \<Rightarrow> hashmap_entry \<Rightarrow> 's \<Rightarrow> cerr + ('s \<times> int)) \<Rightarrow> 'a \<Rightarrow> 'b \<Rightarrow> 's \<Rightarrow>
     cerr + ('s \<times> int)" where
  "hashmap_iterate3 m f arg1 arg2 s =
     (if hm_size m \<le> 0 then Inr (s, HASHMAP_ERR)
      else bindR (rd_block (hm_entries m) 0 (unat (hm_table_size m))) (\<lambda>es.
           hashmap_iterate_loop (f arg1 arg2) es s))"

text \<open>
  The clean-up callback: the state collects the non-NULL keys and values given to \<open>free\<close>.
\<close>

definition destroy :: "unit \<Rightarrow> hashmap_entry \<Rightarrow> key list \<times> nat list \<Rightarrow> cerr + ((key list \<times> nat list) \<times> int)" where
  "destroy t1 kv s =
     Inr (((case he_key kv of Some k \<Rightarrow> fst s @ [k] | None \<Rightarrow> fst s),
           (case he_val kv of Some v \<Rightarrow> snd s @ [v] | None \<Rightarrow> snd s)), HASHMAP_OK)"

text \<open>
  Releasing a map frees the array of its entries and then the map: the second component of the result, what
  is left of it, is \<open>None\<close>.
\<close>

definition hashmap_release :: "hashmap \<Rightarrow> cerr + ((key list \<times> nat list) \<times> hashmap option)" where
  "hashmap_release m = bindR (hashmap_iterate2 m destroy () ([], [])) (\<lambda>(s, _). Inr (s, None))"

definition hashmap_release_map ::
    "hashmap \<Rightarrow> (unit \<Rightarrow> hashmap_entry \<Rightarrow> 's \<Rightarrow> cerr + ('s \<times> int)) \<Rightarrow> 's \<Rightarrow> cerr + ('s \<times> hashmap option)" where
  "hashmap_release_map m f s = bindR (hashmap_iterate2 m f () s) (\<lambda>(s1, _). Inr (s1, None))"

section \<open>Invariant and abstraction\<close>

definition hm_wf :: "hashmap \<Rightarrow> bool" where
  "hm_wf m \<longleftrightarrow> 2 \<le> unat (hm_table_size m) \<and> unat (hm_table_size m) \<le> 2 ^ 31 \<and>
     length (hm_entries m) = unat (hm_table_size m) \<and>
     (\<forall>e\<in>set (hm_entries m). he_in_use e \<longrightarrow> he_key e \<noteq> None) \<and>
     unat (hm_size m) = length (filter he_in_use (hm_entries m))"

definition hm_inv :: "hashmap \<Rightarrow> bool" where
  "hm_inv m \<longleftrightarrow> hm_wf m \<and> \<not> hm_locked m"

definition bucket :: "u64 \<Rightarrow> key \<Rightarrow> nat" where
  "bucket ts key = unat (mix (fold crc32_step key 0) mod ts)"

text \<open>The slots a probe visits, in order.\<close>

fun positions :: "nat \<Rightarrow> nat \<Rightarrow> nat \<Rightarrow> nat list" where
  "positions 0 ts c = []"
| "positions (Suc n) ts c = c # positions n ts ((c + 1) mod ts)"

definition probe_path :: "u64 \<Rightarrow> key \<Rightarrow> nat list" where
  "probe_path ts key = positions MAX_CHAIN_LENGTH (unat ts) (bucket ts key)"

definition slot_match :: "hashmap_entry list \<Rightarrow> key \<Rightarrow> nat \<Rightarrow> bool" where
  "slot_match es key p \<longleftrightarrow> he_in_use (es ! p) \<and> he_key (es ! p) = Some key"

definition slot_usable :: "hashmap_entry list \<Rightarrow> key \<Rightarrow> nat \<Rightarrow> bool" where
  "slot_usable es key p \<longleftrightarrow> \<not> he_in_use (es ! p) \<or> he_key (es ! p) = Some key"

definition hm_find :: "hashmap \<Rightarrow> key \<Rightarrow> nat option" where
  "hm_find m key = List.find (slot_match (hm_entries m) key) (probe_path (hm_table_size m) key)"

definition hm_place :: "hashmap \<Rightarrow> key \<Rightarrow> nat option" where
  "hm_place m key = List.find (slot_usable (hm_entries m) key) (probe_path (hm_table_size m) key)"

text \<open>What the table maps a key to: the value in the first matching slot of its probe path.\<close>

definition hm_lookup :: "hashmap \<Rightarrow> key \<Rightarrow> ptr" where
  "hm_lookup m key = (case hm_find m key of None \<Rightarrow> None | Some i \<Rightarrow> he_val (hm_entries m ! i))"

lemma positions_less: "c < ts \<Longrightarrow> p \<in> set (positions n ts c) \<Longrightarrow> p < ts"
proof (induction n arbitrary: c)
  case (Suc n)
  have "(c + 1) mod ts < ts"
    using Suc.prems(1) by (intro mod_less_divisor) simp
  from Suc.IH [OF this] Suc.prems show ?case by auto
qed simp

lemma bucket_less: "0 < unat ts \<Longrightarrow> bucket ts key < unat ts"
  by (simp add: bucket_def unat_word_mod)

lemma probe_path_less: "0 < unat ts \<Longrightarrow> p \<in> set (probe_path ts key) \<Longrightarrow> p < unat ts"
  unfolding probe_path_def by (rule positions_less [OF bucket_less])

lemma hash_int_bucket:
  assumes "hm_wf m"
  shows "\<exists>h. hashmap_hash_int m key = Inr h \<and> unat h = bucket (hm_table_size m) key"
proof -
  let ?x = "mix (fold crc32_step key 0) mod hm_table_size m"
  have "unat ?x < 2 ^ 32"
    using assms bucket_less [of "hm_table_size m" key] by (auto simp: hm_wf_def bucket_def)
  then have "unat (ucast ?x :: u32) = unat ?x"
    by (simp add: unsigned_ucast_eq take_bit_nat_eq_self)
  moreover have "hm_table_size m \<noteq> 0"
    using assms by (auto simp: hm_wf_def)
  ultimately show ?thesis
    by (simp add: hashmap_hash_int_def crc32_def rd_block_def bucket_def)
qed

lemma find_probe_positions:
  assumes "hm_wf m" and "c < unat (hm_table_size m)"
  shows "hashmap_find_probe n m key c =
    Inr (List.find (slot_match (hm_entries m) key) (positions n (unat (hm_table_size m)) c))"
  using assms
proof (induction n arbitrary: c)
  case (Suc n)
  have "hm_entries m ! c \<in> set (hm_entries m)"
    using Suc.prems by (simp add: hm_wf_def)
  then have "he_in_use (hm_entries m ! c) \<longrightarrow> he_key (hm_entries m ! c) \<noteq> None"
    using Suc.prems(1) by (simp add: hm_wf_def)
  moreover have "(c + 1) mod unat (hm_table_size m) < unat (hm_table_size m)"
    using Suc.prems by (intro mod_less_divisor) (simp add: hm_wf_def)
  ultimately show ?case
    using Suc.prems Suc.IH [OF Suc.prems(1)]
    by (auto simp: hm_wf_def key_eq_def slot_match_def)
qed simp

lemma hash_probe_positions:
  assumes "hm_wf m" and "c < unat (hm_table_size m)"
  shows "hashmap_hash_probe n m key c =
    Inr (List.find (slot_usable (hm_entries m) key) (positions n (unat (hm_table_size m)) c))"
  using assms
proof (induction n arbitrary: c)
  case (Suc n)
  have "hm_entries m ! c \<in> set (hm_entries m)"
    using Suc.prems by (simp add: hm_wf_def)
  then have "he_in_use (hm_entries m ! c) \<longrightarrow> he_key (hm_entries m ! c) \<noteq> None"
    using Suc.prems(1) by (simp add: hm_wf_def)
  moreover have "(c + 1) mod unat (hm_table_size m) < unat (hm_table_size m)"
    using Suc.prems by (intro mod_less_divisor) (simp add: hm_wf_def)
  ultimately show ?case
    using Suc.prems Suc.IH [OF Suc.prems(1)]
    by (auto simp: hm_wf_def key_eq_def slot_usable_def)
qed simp

lemma get_entry_find: "hm_wf m \<Longrightarrow> hashmap_get_entry m key = Inr (hm_find m key)"
  using hash_int_bucket [of m key] bucket_less [of "hm_table_size m" key]
  by (auto simp: hashmap_get_entry_def hm_find_def probe_path_def find_probe_positions hm_wf_def)

lemma hash_place:
  assumes "hm_wf m" and "hm_size m < hm_table_size m div 2"
  shows "hashmap_hash m key = Inr (hm_place m key)"
  using assms hash_int_bucket [of m key] bucket_less [of "hm_table_size m" key]
  by (auto simp: hashmap_hash_def hm_place_def probe_path_def hash_probe_positions hm_wf_def not_le)

lemma hash_half_full: "\<not> hm_size m < hm_table_size m div 2 \<Longrightarrow> hashmap_hash m key = Inr None"
  by (simp add: hashmap_hash_def not_less)

lemma hm_locked_irrelevant [simp]:
  "hm_wf (m\<lparr>hm_locked := b\<rparr>) = hm_wf m"
  "hm_find (m\<lparr>hm_locked := b\<rparr>) = hm_find m"
  "hm_place (m\<lparr>hm_locked := b\<rparr>) = hm_place m"
  "hm_lookup (m\<lparr>hm_locked := b\<rparr>) = hm_lookup m"
  by (auto simp: hm_wf_def hm_find_def hm_place_def hm_lookup_def fun_eq_iff split: option.splits)

lemma find_Some_in: "List.find P xs = Some x \<Longrightarrow> x \<in> set xs \<and> P x"
  by (induction xs) (auto split: if_splits)

lemma hm_find_less: "hm_wf m \<Longrightarrow> hm_find m key = Some i \<Longrightarrow> i < length (hm_entries m)"
  by (auto simp: hm_find_def hm_wf_def dest!: find_Some_in intro: probe_path_less)

lemma hm_place_less: "hm_wf m \<Longrightarrow> hm_place m key = Some i \<Longrightarrow> i < length (hm_entries m)"
  by (auto simp: hm_place_def hm_wf_def dest!: find_Some_in intro: probe_path_less)

section \<open>Lookup\<close>

lemma hashmap_get_lookup:
  assumes "hm_inv m"
  shows "hashmap_get m key = Inr (m, hm_lookup m key)"
proof -
  have wf: "hm_wf m" and "m\<lparr>hm_locked := False\<rparr> = m"
    using assms by (auto simp: hm_inv_def)
  then show ?thesis
    using assms hm_find_less [OF wf]
    by (auto simp: hashmap_get_def hm_lock_def hm_unlock_def hm_inv_def get_entry_find hm_lookup_def
        split: option.splits)
qed

section \<open>Insertion\<close>

definition hm_stored :: "hashmap \<Rightarrow> nat \<Rightarrow> key \<Rightarrow> ptr \<Rightarrow> hashmap" where
  "hm_stored m i key val = m\<lparr>
     hm_entries := (hm_entries m)[i := \<lparr>he_key = Some key, he_val = val, he_in_use = True\<rparr>],
     hm_size := (if he_in_use (hm_entries m ! i) then hm_size m else hm_size m + 1),
     hm_locked := False\<rparr>"

lemma entry_overwrite:
  "e\<lparr>he_val := v, he_key := k, he_in_use := True\<rparr> = \<lparr>he_key = k, he_val = v, he_in_use = True\<rparr>"
  by (cases e) simp

lemma hashmap_put_stored:
  assumes "hm_inv m" and "hm_size m < hm_table_size m div 2" and "hm_place m key = Some i"
  shows "hashmap_put (Suc n) calloc_ok m key val = Inr (hm_stored m i key val, HASHMAP_OK)"
proof -
  have wf: "hm_wf (m\<lparr>hm_locked := True\<rparr>)"
    using assms(1) by (simp add: hm_inv_def)
  have i: "i < length (hm_entries m)"
    using hm_place_less [of m key i] assms by (simp add: hm_inv_def)
  have "hashmap_hash (m\<lparr>hm_locked := True\<rparr>) key = Inr (Some i)"
    using hash_place [OF wf, of key] assms(2,3) by simp
  then show ?thesis
    using assms(1) i by (simp add: hm_inv_def hm_lock_def hm_unlock_def hm_stored_def entry_overwrite)
qed

lemma find_first_upd:
  assumes "List.find P xs = Some i" and "\<And>x. Q x \<longleftrightarrow> x = i \<or> (x \<noteq> i \<and> R x)" and "\<And>x. R x \<Longrightarrow> P x"
  shows "List.find Q xs = Some i"
  using assms by (induction xs) (auto split: if_splits)

lemma hm_lookup_stored:
  assumes "hm_wf m" and "hm_place m key = Some i"
  shows "hm_lookup (hm_stored m i key val) k = (if k = key then val else hm_lookup m k)"
proof -
  let ?es = "(hm_entries m)[i := \<lparr>he_key = Some key, he_val = val, he_in_use = True\<rparr>]"
  have i: "i < length (hm_entries m)" and usable: "slot_usable (hm_entries m) key i"
    using assms hm_place_less by (auto simp: hm_place_def dest: find_Some_in)
  show ?thesis
  proof (cases "k = key")
    case True
    have "slot_match ?es key p \<longleftrightarrow> p = i \<or> (p \<noteq> i \<and> slot_match (hm_entries m) key p)" for p
      using i by (auto simp: slot_match_def nth_list_update)
    then have "hm_find (hm_stored m i key val) key = Some i"
      using find_first_upd [OF assms(2) [unfolded hm_place_def],
          of "slot_match ?es key" "slot_match (hm_entries m) key"]
      by (auto simp: hm_find_def hm_stored_def slot_match_def slot_usable_def)
    with True i show ?thesis
      by (simp add: hm_lookup_def hm_stored_def)
  next
    case False
    have "slot_match ?es k = slot_match (hm_entries m) k"
      using i usable False by (auto simp: slot_match_def slot_usable_def nth_list_update fun_eq_iff)
    then have f: "hm_find (hm_stored m i key val) k = hm_find m k"
      by (simp add: hm_find_def hm_stored_def)
    have "hm_find m k \<noteq> Some i"
      using usable False by (auto simp: hm_find_def slot_match_def slot_usable_def dest!: find_Some_in)
    with False f show ?thesis
      by (auto simp: hm_lookup_def hm_stored_def split: option.splits)
  qed
qed

lemma filter_upd_length:
  assumes "i < length xs"
  shows "length (filter P (xs[i := x])) + (if P (xs ! i) then 1 else 0) =
    length (filter P xs) + (if P x then 1 else 0)"
proof -
  have "filter P xs = filter P (take i xs @ xs ! i # drop (Suc i) xs)"
    using assms by (simp only: id_take_nth_drop [symmetric])
  then have "length (filter P xs) = length (filter P (take i xs)) + (if P (xs ! i) then 1 else 0) +
      length (filter P (drop (Suc i) xs))"
    by simp
  then show ?thesis
    using assms by (simp add: upd_conv_take_nth_drop)
qed

lemma hm_inv_stored:
  assumes "hm_inv m" and "hm_size m < hm_table_size m div 2" and "i < length (hm_entries m)"
  shows "hm_inv (hm_stored m i key val)"
proof -
  have "unat (hm_size m) < unat (hm_table_size m)"
    using assms(2) by (simp add: word_less_nat_alt unat_div_distrib)
  then have "unat (hm_size m + 1) = unat (hm_size m) + 1"
    by (rule unat_succ_below)
  moreover note filter_upd_length [OF assms(3), of he_in_use "\<lparr>he_key = Some key, he_val = val, he_in_use = True\<rparr>"]
  ultimately show ?thesis
    using assms(1)
    by (auto simp: hm_inv_def hm_wf_def hm_stored_def split: if_splits dest!: set_update_memI subsetD [OF set_update_subset_insert])
qed

text \<open>
  A table in which every entry is where an insertion of its key would go.  Insertions keep it so; a
  deletion need not.  In such a table every entry is the one a lookup of its key finds.
\<close>

definition hm_tight :: "hashmap \<Rightarrow> bool" where
  "hm_tight m \<longleftrightarrow> (\<forall>p k. p < length (hm_entries m) \<longrightarrow> slot_match (hm_entries m) k p \<longrightarrow> hm_place m k = Some p)"

lemma find_weaker: "List.find P xs = Some i \<Longrightarrow> Q i \<Longrightarrow> (\<And>x. Q x \<Longrightarrow> P x) \<Longrightarrow> List.find Q xs = Some i"
  by (induction xs) (auto split: if_splits)

lemma hm_tight_lookup:
  assumes "hm_tight m" and "p < length (hm_entries m)" and "slot_match (hm_entries m) k p"
  shows "hm_lookup m k = he_val (hm_entries m ! p)"
proof -
  have "hm_place m k = Some p"
    using assms by (auto simp: hm_tight_def)
  then have "hm_find m k = Some p"
    unfolding hm_place_def hm_find_def
    by (rule find_weaker) (use assms(3) in \<open>auto simp: slot_match_def slot_usable_def\<close>)
  then show ?thesis
    by (simp add: hm_lookup_def)
qed

lemma hm_tight_stored:
  assumes "hm_wf m" and "hm_tight m" and "hm_place m key = Some i"
  shows "hm_tight (hm_stored m i key val)"
  unfolding hm_tight_def
proof (intro allI impI)
  let ?es = "(hm_entries m)[i := \<lparr>he_key = Some key, he_val = val, he_in_use = True\<rparr>]"
  have i: "i < length (hm_entries m)"
    by (rule hm_place_less [OF assms(1,3)])
  fix p k
  assume "p < length (hm_entries (hm_stored m i key val))" and "slot_match (hm_entries (hm_stored m i key val)) k p"
  then have p: "p < length (hm_entries m)" and match: "slot_match ?es k p"
    by (simp_all add: hm_stored_def)
  have "List.find (slot_usable ?es k) (probe_path (hm_table_size m) k) = Some p"
  proof (cases "p = i")
    case True
    then have k: "k = key"
      using match i by (simp add: slot_match_def)
    have "slot_usable ?es key x \<longleftrightarrow> x = i \<or> (x \<noteq> i \<and> slot_usable (hm_entries m) key x)" for x
      using i by (auto simp: slot_usable_def nth_list_update)
    then show ?thesis
      using find_first_upd [OF assms(3) [unfolded hm_place_def]] k True by blast
  next
    case False
    then have "slot_match (hm_entries m) k p"
      using match by (simp add: slot_match_def)
    then have place: "hm_place m k = Some p"
      using assms(2) p by (auto simp: hm_tight_def)
    then have "k \<noteq> key"
      using assms(3) False by auto
    then show ?thesis
      using i False match
      by (intro find_weaker [OF place [unfolded hm_place_def]]) (auto simp: slot_usable_def slot_match_def nth_list_update split: if_splits)
  qed
  then show "hm_place (hm_stored m i key val) k = Some p"
    by (simp add: hm_place_def hm_stored_def)
qed

subsection \<open>A full table\<close>

text \<open>
  Rehashing calls \<open>hashmap_put\<close> for every occupied slot while the caller still holds the
  mutex, so the first occupied slot ends in a deadlock.
\<close>

lemma rehash_loop_deadlock:
  assumes "\<And>k v. put m k v = Inl Deadlock" and "\<exists>e\<in>set es. he_in_use e"
    and "\<forall>e\<in>set es. he_in_use e \<longrightarrow> he_key e \<noteq> None"
  shows "hashmap_rehash_loop put es m = Inl Deadlock"
  using assms(2,3) by (induction es) (auto simp: assms(1))

lemma bucket_in_path: "bucket ts key \<in> set (probe_path ts key)"
  by (simp add: probe_path_def MAX_CHAIN_LENGTH_def numeral_eq_Suc)

lemma full_table_occupied:
  assumes "hm_wf m" and "\<not> (hm_size m < hm_table_size m div 2 \<and> hm_place m key \<noteq> None)"
  shows "\<exists>e\<in>set (hm_entries m). he_in_use e"
proof (cases "hm_size m < hm_table_size m div 2")
  case True
  let ?b = "bucket (hm_table_size m) key"
  have b: "?b < length (hm_entries m)"
    using assms(1) bucket_less [of "hm_table_size m" key] by (simp add: hm_wf_def)
  have "hm_place m key = None"
    using True assms(2) by simp
  then have "\<not> slot_usable (hm_entries m) key ?b"
    using bucket_in_path [of "hm_table_size m" key] by (auto simp: hm_place_def find_None_iff)
  then show ?thesis
    using nth_mem [OF b] by (auto simp: slot_usable_def)
next
  case False
  then have "unat (hm_table_size m) div 2 \<le> length (filter he_in_use (hm_entries m))"
    using assms(1) by (simp add: word_less_nat_alt unat_div_distrib hm_wf_def)
  moreover have "0 < unat (hm_table_size m) div 2"
    using assms(1) by (simp add: hm_wf_def div_greater_zero_iff)
  ultimately have "0 < length (filter he_in_use (hm_entries m))"
    by linarith
  then show ?thesis
    by (auto simp: filter_empty_conv)
qed

lemma hashmap_put_full:
  assumes "hm_inv m" and "\<not> (hm_size m < hm_table_size m div 2 \<and> hm_place m key \<noteq> None)"
  shows "hashmap_put (Suc (Suc n)) calloc_ok m key val =
    (if calloc_ok then Inl Deadlock else Inr (m, HASHMAP_ERR))"
proof -
  let ?m = "m\<lparr>hm_locked := True\<rparr>"
  have wf: "hm_wf m" and nl: "\<not> hm_locked m" and m: "m\<lparr>hm_locked := False\<rparr> = m"
    using assms(1) by (auto simp: hm_inv_def)
  have "hashmap_hash ?m key = Inr None"
    using hash_place [of ?m key] hash_half_full [of ?m key] wf assms(2) by fastforce
  moreover have "hashmap_rehash (\<lambda>m k v. hashmap_put (Suc n) calloc_ok m k v) calloc_ok ?m =
      (if calloc_ok then Inl Deadlock else Inr (?m, HASHMAP_ERR))"
  proof -
    have "\<forall>e\<in>set (hm_entries m). he_in_use e \<longrightarrow> he_key e \<noteq> None"
        "length (hm_entries m) = unat (hm_table_size m)"
      using wf by (auto simp: hm_wf_def)
    then show ?thesis
      using full_table_occupied [OF wf assms(2)]
      by (auto simp: hashmap_rehash_def hm_lock_def intro!: rehash_loop_deadlock)
  qed
  ultimately show ?thesis
    using nl m
    by (subst hashmap_put.simps(2)) (simp add: hm_lock_def hm_unlock_def del: hashmap_put.simps)
qed

section \<open>Deletion\<close>

definition hm_cleared :: "hashmap \<Rightarrow> nat \<Rightarrow> hashmap" where
  "hm_cleared m i = m\<lparr>hm_entries := (hm_entries m)[i := (hm_entries m ! i)\<lparr>he_in_use := False\<rparr>],
     hm_size := hm_size m - 1, hm_locked := False\<rparr>"

lemma hashmap_del_find:
  assumes "hm_inv m"
  shows "hashmap_del m key =
    (case hm_find m key of None \<Rightarrow> Inr (m, HASHMAP_ERR) | Some i \<Rightarrow> Inr (hm_cleared m i, HASHMAP_OK))"
proof -
  have wf: "hm_wf m" and "m\<lparr>hm_locked := False\<rparr> = m"
    using assms by (auto simp: hm_inv_def)
  then show ?thesis
    using assms hm_find_less [OF wf]
    by (auto simp: hashmap_del_def hm_lock_def hm_unlock_def hm_inv_def get_entry_find hm_cleared_def
        split: option.splits)
qed

lemma hm_inv_cleared:
  assumes "hm_inv m" and "hm_find m key = Some i"
  shows "hm_inv (hm_cleared m i)"
proof -
  have i: "i < length (hm_entries m)" and u: "he_in_use (hm_entries m ! i)"
    using assms hm_find_less by (auto simp: hm_inv_def hm_find_def slot_match_def dest: find_Some_in)
  have wf: "hm_wf m"
    using assms by (simp add: hm_inv_def)
  note len = filter_upd_length [OF i, of he_in_use "(hm_entries m ! i)\<lparr>he_in_use := False\<rparr>"]
  have "length (filter he_in_use ((hm_entries m)[i := (hm_entries m ! i)\<lparr>he_in_use := False\<rparr>])) + 1 =
      length (filter he_in_use (hm_entries m))"
    using len u by simp
  moreover have "unat (hm_size m) = length (filter he_in_use (hm_entries m))"
    using wf by (simp add: hm_wf_def)
  ultimately have "unat (hm_size m) \<noteq> 0"
    by linarith
  then have "unat (hm_size m - 1) = unat (hm_size m) - 1"
    by (intro unat_minus_one) auto
  moreover have "he_in_use e \<longrightarrow> he_key e \<noteq> None" if "e \<in> set (hm_entries (hm_cleared m i))" for e
    using that wf
      subsetD [OF set_update_subset_insert, of e "hm_entries m" i "(hm_entries m ! i)\<lparr>he_in_use := False\<rparr>"]
    by (auto simp: hm_wf_def hm_cleared_def)
  ultimately show ?thesis
    using wf len u by (auto simp: hm_inv_def hm_wf_def hm_cleared_def)
qed

lemma hm_lookup_cleared:
  assumes "hm_wf m" and "hm_find m key = Some i"
  shows "k \<noteq> key \<Longrightarrow> hm_lookup (hm_cleared m i) k = hm_lookup m k"
    and "(\<forall>p. p \<noteq> i \<longrightarrow> p < length (hm_entries m) \<longrightarrow> \<not> slot_match (hm_entries m) key p) \<Longrightarrow>
      hm_lookup (hm_cleared m i) key = None"
proof -
  let ?es = "(hm_entries m)[i := (hm_entries m ! i)\<lparr>he_in_use := False\<rparr>]"
  have i: "i < length (hm_entries m)" and ki: "he_key (hm_entries m ! i) = Some key"
    using assms hm_find_less by (auto simp: hm_find_def slot_match_def dest: find_Some_in)
  { assume "k \<noteq> key"
    then have "slot_match ?es k = slot_match (hm_entries m) k"
      using i ki by (auto simp: slot_match_def nth_list_update fun_eq_iff)
    moreover have "hm_find m k \<noteq> Some i"
      using ki \<open>k \<noteq> key\<close> by (auto simp: hm_find_def slot_match_def dest!: find_Some_in)
    ultimately show "hm_lookup (hm_cleared m i) k = hm_lookup m k"
      by (auto simp: hm_lookup_def hm_cleared_def hm_find_def split: option.splits) }
  { assume u: "\<forall>p. p \<noteq> i \<longrightarrow> p < length (hm_entries m) \<longrightarrow> \<not> slot_match (hm_entries m) key p"
    have "\<not> slot_match ?es key p" if "p \<in> set (probe_path (hm_table_size m) key)" for p
      using u i probe_path_less [OF _ that] assms(1)
      by (auto simp: slot_match_def nth_list_update hm_wf_def)
    then have "hm_find (hm_cleared m i) key = None"
      by (simp add: hm_find_def hm_cleared_def find_None_iff)
    then show "hm_lookup (hm_cleared m i) key = None"
      by (simp add: hm_lookup_def) }
qed

section \<open>Iteration\<close>

text \<open>
  The entries an iteration reaches when the callback's status depends on the entry only: all
  occupied slots, in slot order, up to and including the first with a status other than OK.
\<close>

fun upto_failure :: "('a \<Rightarrow> int) \<Rightarrow> 'a list \<Rightarrow> 'a list" where
  "upto_failure st [] = []"
| "upto_failure st (e # es) = (if st e \<noteq> 0 then [e] else e # upto_failure st es)"

lemma iterate_loop_upto:
  assumes "\<And>e s. e \<in> set es \<Longrightarrow> f e s = Inr (g e s, st e)"
  shows "hashmap_iterate_loop f es s =
    Inr (fold g (upto_failure st (filter he_in_use es)) s,
         (let vs = upto_failure st (filter he_in_use es) in if vs = [] then 0 else st (last vs)))"
  using assms
proof (induction es arbitrary: s)
  case (Cons e es)
  then show ?case
    by (auto simp: Let_def)
qed (simp add: Let_def)

lemma iterate2_upto:
  assumes "hm_wf m" and "hm_size m \<noteq> 0"
    and "\<And>e s. e \<in> set (hm_entries m) \<Longrightarrow> f x e s = Inr (g e s, st e)"
  shows "hashmap_iterate2 m f x s =
    Inr (fold g (upto_failure st (filter he_in_use (hm_entries m))) s,
         (let vs = upto_failure st (filter he_in_use (hm_entries m)) in if vs = [] then 0 else st (last vs)))"
  using assms iterate_loop_upto [of "hm_entries m" "f x" g st s]
  by (auto simp: hashmap_iterate2_def hm_wf_def rd_block_def)

section \<open>The interface: a store of pointers by name\<close>

text \<open>
  What the broker relies on for its tables of topics and clients: a lookup does not change
  the table, and a successful insertion changes the binding of its key and of no other.
\<close>

locale named_store =
  fixes inv :: "'m \<Rightarrow> bool"
    and room :: "'m \<Rightarrow> 'k \<Rightarrow> bool"
    and lookup :: "'m \<Rightarrow> 'k \<Rightarrow> ptr"
    and get :: "'m \<Rightarrow> 'k \<Rightarrow> cerr + ('m \<times> ptr)"
    and put :: "'m \<Rightarrow> 'k \<Rightarrow> ptr \<Rightarrow> cerr + ('m \<times> int)"
  assumes get_ok: "inv m \<Longrightarrow> get m k = Inr (m, lookup m k)"
    and put_ok: "inv m \<Longrightarrow> room m k \<Longrightarrow>
      \<exists>m'. put m k v = Inr (m', 0) \<and> inv m' \<and> lookup m' = (lookup m)(k := v)"
begin

lemma put_get:
  assumes "inv m" and "room m k"
  obtains m' where "put m k v = Inr (m', 0)" "inv m'" "get m' k = Inr (m', v)"
    "\<And>k'. k' \<noteq> k \<Longrightarrow> get m' k' = Inr (m', lookup m k')" "lookup m' = (lookup m)(k := v)"
  using put_ok [OF assms, of v] get_ok by fastforce

text \<open>The look-up-or-create step of the handlers: afterwards the key is bound.\<close>

lemma get_or_put:
  assumes "inv m" and "lookup m k = None \<Longrightarrow> room m k" and "v \<noteq> None"
  shows "\<exists>m' p. bindR (get m k) (\<lambda>(m1, raw). case raw of Some t \<Rightarrow> Inr (m1, Some t)
      | None \<Rightarrow> bindR (put m1 k v) (\<lambda>(m2, _). Inr (m2, v))) = Inr (m', p) \<and> inv m' \<and> p \<noteq> None \<and>
    lookup m' k = p \<and> (\<forall>k'. k' \<noteq> k \<longrightarrow> lookup m' k' = lookup m k') \<and>
    (p = v \<or> m' = m)"
proof (cases "lookup m k")
  case None
  with assms obtain m' where "put m k v = Inr (m', 0)" "inv m'" "lookup m' = (lookup m)(k := v)"
    using put_ok by blast
  with None assms show ?thesis
    by (auto simp: get_ok)
next
  case (Some t)
  with assms show ?thesis
    by (auto simp: get_ok)
qed

end

definition hm_room :: "hashmap \<Rightarrow> key \<Rightarrow> bool" where
  "hm_room m key \<longleftrightarrow> hm_size m < hm_table_size m div 2 \<and> hm_place m key \<noteq> None"

lemma hashmap_put_room:
  assumes "hm_inv m" and "hm_room m key"
  shows "\<exists>m'. hashmap_put (Suc n) calloc_ok m key val = Inr (m', HASHMAP_OK) \<and> hm_inv m' \<and>
    hm_lookup m' = (hm_lookup m)(key := val) \<and> hm_table_size m' = hm_table_size m \<and> (hm_tight m \<longrightarrow> hm_tight m')"
proof -
  obtain i where i: "hm_size m < hm_table_size m div 2" "hm_place m key = Some i"
    using assms(2) by (auto simp: hm_room_def)
  have wf: "hm_wf m" and "i < length (hm_entries m)"
    using assms(1) hm_place_less i by (auto simp: hm_inv_def)
  then show ?thesis
    using hashmap_put_stored [OF assms(1) i, of n calloc_ok val] hm_inv_stored [OF assms(1) i(1)]
      hm_lookup_stored [OF wf i(2), of val] hm_tight_stored [OF wf _ i(2), of val]
    by (auto simp: fun_eq_iff hm_stored_def)
qed

interpretation hm: named_store hm_inv hm_room hm_lookup hashmap_get "hashmap_put 2 True"
proof
  show "hm_inv m \<Longrightarrow> hashmap_get m k = Inr (m, hm_lookup m k)" for m k
    by (rule hashmap_get_lookup)
  show "hm_inv m \<Longrightarrow> hm_room m k \<Longrightarrow>
      \<exists>m'. hashmap_put 2 True m k v = Inr (m', 0) \<and> hm_inv m' \<and> hm_lookup m' = (hm_lookup m)(k := v)"
    for m k v
    using hashmap_put_room [of m k 1 True v] by (auto simp: numeral_2_eq_2)
qed

lemma hashmap_put_stuck: "hm_inv m \<Longrightarrow> \<not> hm_room m key \<Longrightarrow> hashmap_put 2 True m key val = Inl Deadlock"
  using hashmap_put_full [of m key 0 True val] by (simp add: hm_room_def numeral_2_eq_2 del: hashmap_put.simps)

section \<open>Properties\<close>

text \<open>The table \<open>hashmap_create\<close> returns.\<close>

definition hm0 :: hashmap where
  "hm0 = \<lparr>hm_table_size = 256, hm_size = 0, hm_entries = replicate 256 empty_entry, hm_locked = False\<rparr>"

lemma hashmap_create_hm0: "hashmap_create True True = Inr (Some hm0)"
  by (simp add: hashmap_create_def INITIAL_SIZE_def hm0_def)

lemma hm0_tight: "hm_tight hm0"
  by (simp add: hm_tight_def slot_match_def hm0_def empty_entry_def)

lemma hm0_inv: "hm_inv hm0"
  by (simp add: hm_inv_def hm_wf_def hm0_def empty_entry_def)

lemma bucket_c: "bucket 256 [99] = 64"
  by (simp add: bucket_def mix_def crc32_step_def crc32_tab_def Let_def)

lemma bucket_k: "bucket 256 [107] = 64"
  by (simp add: bucket_def mix_def crc32_step_def crc32_tab_def Let_def)

lemma path_c: "probe_path 256 [99] = [64, 65, 66, 67, 68, 69, 70, 71]"
  unfolding probe_path_def bucket_c MAX_CHAIN_LENGTH_def by code_simp

lemma path_k: "probe_path 256 [107] = [64, 65, 66, 67, 68, 69, 70, 71]"
  unfolding probe_path_def bucket_k MAX_CHAIN_LENGTH_def by code_simp

lemma hm0_room_c: "hm_room hm0 [99]"
  by (simp add: hm_room_def hm_place_def hm0_def path_c slot_usable_def empty_entry_def word_less_nat_alt)

text \<open>
  C27: on a well-formed table with room (less than half full, and a usable slot within the
  eight probed) \<open>hashmap_put\<close> returns HASHMAP_OK and keeps the invariant; \<open>hashmap_get\<close>
  afterwards returns the new value for the key and the old result for every other key.
\<close>

theorem hashmap_put_get:
  assumes "hm_inv m" and "hm_room m key"
  shows "\<exists>m'. hashmap_put 2 True m key val = Inr (m', HASHMAP_OK) \<and> hm_inv m' \<and>
    hashmap_get m' key = Inr (m', val) \<and>
    (\<forall>k v. k \<noteq> key \<longrightarrow> hashmap_get m k = Inr (m, v) \<longrightarrow> hashmap_get m' k = Inr (m', v))"
proof -
  obtain m' where m': "hashmap_put 2 True m key val = Inr (m', 0)" "hm_inv m'"
      "hashmap_get m' key = Inr (m', val)"
      "\<And>k. k \<noteq> key \<Longrightarrow> hashmap_get m' k = Inr (m', hm_lookup m k)"
    using hm.put_get [OF assms, of val] by blast
  then show ?thesis
    using hm.get_ok [OF assms(1)] by auto
qed

theorem hashmap_put_get_witness:
  "hm_inv hm0 \<and> hm_room hm0 [99] \<and>
   (\<exists>m'. hashmap_put 2 True hm0 [99] (Some 7) = Inr (m', HASHMAP_OK) \<and> hm_inv m' \<and>
     hashmap_get m' [99] = Inr (m', Some 7) \<and>
     (\<forall>k v. k \<noteq> [99] \<longrightarrow> hashmap_get hm0 k = Inr (hm0, v) \<longrightarrow> hashmap_get m' k = Inr (m', v)))"
  using hashmap_put_get [OF hm0_inv hm0_room_c, of "Some 7"] hm0_inv hm0_room_c by blast

text \<open>
  C28: growing the table deadlocks.  When a well-formed table is half full, or all eight probed
  slots hold other keys, \<open>hashmap_put\<close> calls \<open>hashmap_rehash\<close>, which calls \<open>hashmap_put\<close> while
  the mutex is held: with any depth of nesting of at least two the call ends in a deadlock when
  the allocation succeeds, and returns HASHMAP_ERR with the table unchanged when it fails.
\<close>

theorem hashmap_put_full_deadlock:
  assumes "hm_inv m" and "\<not> hm_room m key" and "2 \<le> n"
  shows "hashmap_put n calloc_ok m key val =
    (if calloc_ok then Inl Deadlock else Inr (m, HASHMAP_ERR))"
proof -
  obtain n' where "n = Suc (Suc n')"
    using assms(3) by (metis add_2_eq_Suc le_Suc_ex)
  then show ?thesis
    using hashmap_put_full assms(1,2) by (simp add: hm_room_def del: hashmap_put.simps)
qed

definition hm_tiny :: hashmap where
  "hm_tiny = \<lparr>hm_table_size = 2, hm_size = 1,
     hm_entries = [\<lparr>he_key = Some [99], he_val = Some 1, he_in_use = True\<rparr>, empty_entry],
     hm_locked = False\<rparr>"

theorem hashmap_put_full_deadlock_witness:
  "hm_inv hm_tiny \<and> \<not> hm_room hm_tiny [100] \<and> (2::nat) \<le> 5 \<and>
   hashmap_put 5 True hm_tiny [100] (Some 2) = (if True then Inl Deadlock else Inr (hm_tiny, HASHMAP_ERR))"
proof -
  have "hm_inv hm_tiny" and "\<not> hm_room hm_tiny [100]" and "(2::nat) \<le> 5"
    by (simp_all add: hm_inv_def hm_wf_def hm_tiny_def hm_room_def empty_entry_def)
  from this hashmap_put_full_deadlock [OF this, of True "Some 2"] show ?thesis by blast
qed

text \<open>
  C29: deleting.  On a well-formed table \<open>hashmap_del\<close> returns HASHMAP_ERR and changes nothing
  when the probe does not find the key; otherwise it returns HASHMAP_OK, keeps the invariant,
  decrements the size, leaves every other key's lookup alone, and the key is gone provided no
  second slot holds it.
\<close>

theorem hashmap_del_correct:
  assumes "hm_inv m"
  shows "case hm_find m key of
      None \<Rightarrow> hashmap_del m key = Inr (m, HASHMAP_ERR)
    | Some i \<Rightarrow> \<exists>m'. hashmap_del m key = Inr (m', HASHMAP_OK) \<and> hm_inv m' \<and>
        hm_size m' = hm_size m - 1 \<and>
        (\<forall>k v. k \<noteq> key \<longrightarrow> hashmap_get m k = Inr (m, v) \<longrightarrow> hashmap_get m' k = Inr (m', v)) \<and>
        ((\<forall>p. p \<noteq> i \<longrightarrow> p < length (hm_entries m) \<longrightarrow> \<not> slot_match (hm_entries m) key p) \<longrightarrow>
           hashmap_get m' key = Inr (m', None))"
proof (cases "hm_find m key")
  case None
  then show ?thesis
    by (simp add: hashmap_del_find [OF assms])
next
  case (Some i)
  have wf: "hm_wf m"
    using assms by (simp add: hm_inv_def)
  note inv = hm_inv_cleared [OF assms Some]
  note lk = hm_lookup_cleared [OF wf Some]
  have "hm_size (hm_cleared m i) = hm_size m - 1"
    by (simp add: hm_cleared_def)
  then show ?thesis
    using Some lk inv
    by (simp add: hashmap_del_find [OF assms] hashmap_get_lookup [OF assms] hashmap_get_lookup [OF inv])
qed

theorem hashmap_del_correct_witness:
  "hm_inv hm_tiny \<and> (case hm_find hm_tiny [99] of
      None \<Rightarrow> hashmap_del hm_tiny [99] = Inr (hm_tiny, HASHMAP_ERR)
    | Some i \<Rightarrow> \<exists>m'. hashmap_del hm_tiny [99] = Inr (m', HASHMAP_OK) \<and> hm_inv m' \<and>
        hm_size m' = hm_size hm_tiny - 1 \<and>
        (\<forall>k v. k \<noteq> [99] \<longrightarrow> hashmap_get hm_tiny k = Inr (hm_tiny, v) \<longrightarrow> hashmap_get m' k = Inr (m', v)) \<and>
        ((\<forall>p. p \<noteq> i \<longrightarrow> p < length (hm_entries hm_tiny) \<longrightarrow> \<not> slot_match (hm_entries hm_tiny) [99] p) \<longrightarrow>
           hashmap_get m' [99] = Inr (m', None)))"
proof -
  have "hm_inv hm_tiny"
    by (simp add: hm_inv_def hm_wf_def hm_tiny_def empty_entry_def)
  from this hashmap_del_correct [OF this, of "[99]"] show ?thesis by blast
qed

text \<open>The five tables of the sequence put c, put k, del c, put k, del k on a new table.\<close>

definition hm_c :: hashmap where "hm_c = hm_stored hm0 64 [99] (Some 1)"
definition hm_ck :: hashmap where "hm_ck = hm_stored hm_c 65 [107] (Some 2)"
definition hm_k :: hashmap where "hm_k = hm_cleared hm_ck 64"
definition hm_kk :: hashmap where "hm_kk = hm_stored hm_k 64 [107] (Some 3)"
definition hm_stale :: hashmap where "hm_stale = hm_cleared hm_kk 64"

lemmas hm_seq_defs = hm_stale_def hm_kk_def hm_k_def hm_ck_def hm_c_def hm_stored_def hm_cleared_def
  hm0_def empty_entry_def

lemma hm_seq_size:
  "hm_size hm_c = 1" "hm_size hm_ck = 2" "hm_size hm_k = 1"
  "hm_table_size hm_c = 256" "hm_table_size hm_ck = 256" "hm_table_size hm_k = 256"
  "hm_table_size hm_kk = 256" "hm_table_size hm_stale = 256" "hm_table_size hm0 = 256" "hm_size hm0 = 0"
  by (simp_all add: hm_seq_defs)

lemma hm_seq_length:
  "length (hm_entries hm0) = 256" "length (hm_entries hm_c) = 256" "length (hm_entries hm_k) = 256"
  by (simp_all add: hm_seq_defs)

lemma hm_seq_slots:
  "hm_place hm0 [99] = Some 64" "hm_place hm_c [107] = Some 65" "hm_find hm_ck [99] = Some 64"
  "hm_place hm_k [107] = Some 64" "hm_find hm_kk [107] = Some 64" "hm_find hm_stale [107] = Some 65"
  by (simp_all add: hm_place_def hm_find_def hm_seq_size path_c path_k slot_usable_def slot_match_def
      hm_seq_defs nth_list_update)

lemma hm_seq_inv:
  "hm_inv hm_c" "hm_inv hm_ck" "hm_inv hm_k" "hm_inv hm_kk" "hm_inv hm_stale"
proof -
  have half: "hm_size m < hm_table_size m div 2" if "m \<in> {hm0, hm_c, hm_k}" for m
    using that by (auto simp: hm_seq_size word_less_nat_alt)
  show c: "hm_inv hm_c"
    using hm_inv_stored [OF hm0_inv half] by (simp add: hm_c_def hm_seq_length)
  show ck: "hm_inv hm_ck"
    using hm_inv_stored [OF c half] by (simp add: hm_ck_def hm_seq_length)
  show k: "hm_inv hm_k"
    unfolding hm_k_def by (rule hm_inv_cleared [OF ck hm_seq_slots(3)])
  show kk: "hm_inv hm_kk"
    using hm_inv_stored [OF k half] by (simp add: hm_kk_def hm_seq_length)
  show "hm_inv hm_stale"
    unfolding hm_stale_def by (rule hm_inv_cleared [OF kk hm_seq_slots(5)])
qed

text \<open>
  C30: a deleted key can come back.  The keys "c" and "k" share a bucket; after inserting "c",
  inserting "k" with value 2, deleting "c", updating "k" to value 3 and deleting "k", a lookup
  of "k" returns the old value 2: the update went to the slot "c" had freed, and the deletion
  cleared only that slot.
\<close>

theorem hashmap_del_resurrects:
  "\<exists>m0 m1 m2 m3 m4 m5. hashmap_create True True = Inr (Some m0) \<and>
     hashmap_put 2 True m0 [99] (Some 1) = Inr (m1, HASHMAP_OK) \<and>
     hashmap_put 2 True m1 [107] (Some 2) = Inr (m2, HASHMAP_OK) \<and>
     hashmap_del m2 [99] = Inr (m3, HASHMAP_OK) \<and>
     hashmap_put 2 True m3 [107] (Some 3) = Inr (m4, HASHMAP_OK) \<and>
     hashmap_del m4 [107] = Inr (m5, HASHMAP_OK) \<and>
     hashmap_get m5 [107] = Inr (m5, Some 2)"
proof -
  have two: "hashmap_put 2 = hashmap_put (Suc 1)"
    by (simp only: numeral_2_eq_2 One_nat_def)
  have half: "hm_size m < hm_table_size m div 2" if "m \<in> {hm0, hm_c, hm_k}" for m
    using that by (auto simp: hm_seq_size word_less_nat_alt)
  have p: "hashmap_put 2 True hm0 [99] (Some 1) = Inr (hm_c, 0)"
    "hashmap_put 2 True hm_c [107] (Some 2) = Inr (hm_ck, 0)"
    "hashmap_put 2 True hm_k [107] (Some 3) = Inr (hm_kk, 0)"
    unfolding two hm_c_def hm_ck_def hm_kk_def
    using hashmap_put_stored [OF hm0_inv half hm_seq_slots(1)]
      hashmap_put_stored [OF hm_seq_inv(1) half hm_seq_slots(2)]
      hashmap_put_stored [OF hm_seq_inv(3) half hm_seq_slots(4)]
    by (simp_all add: hm_c_def)
  moreover have "hashmap_del hm_ck [99] = Inr (hm_k, 0)" "hashmap_del hm_kk [107] = Inr (hm_stale, 0)"
    using hashmap_del_find [OF hm_seq_inv(2), of "[99]"] hashmap_del_find [OF hm_seq_inv(4), of "[107]"]
    by (simp_all add: hm_seq_slots hm_k_def hm_stale_def)
  moreover have "hashmap_get hm_stale [107] = Inr (hm_stale, Some 2)"
    using hashmap_get_lookup [OF hm_seq_inv(5), of "[107]"]
    by (simp add: hm_lookup_def hm_seq_slots) (simp add: hm_seq_defs)
  ultimately show ?thesis
    using hashmap_create_hm0 by blast
qed

text \<open>
  iteration visits the occupied slots in slot order and stops behind the first one for
  which the callback returns something other than HASHMAP_OK, returning that status; on an
  empty table the callback is not called and the result is HASHMAP_ERR.
\<close>

theorem hashmap_iterate2_order:
  assumes "hm_wf m" and "\<And>e s. e \<in> set (hm_entries m) \<Longrightarrow> f x e s = Inr (g e s, st e)"
  defines "visited \<equiv> upto_failure st (filter he_in_use (hm_entries m))"
  shows "hashmap_iterate2 m f x s =
    (if hm_size m = 0 then Inr (s, HASHMAP_ERR) else Inr (fold g visited s, st (last visited)))"
proof (cases "hm_size m = 0")
  case True
  then show ?thesis
    by (simp add: hashmap_iterate2_def)
next
  case False
  then have "filter he_in_use (hm_entries m) \<noteq> []"
    using assms(1) by (metis hm_wf_def length_0_conv unat_eq_zero)
  then have "visited \<noteq> []"
    unfolding visited_def by (cases "filter he_in_use (hm_entries m)") auto
  with False show ?thesis
    using iterate2_upto [of m f x g st s] assms by (simp add: Let_def)
qed

theorem hashmap_iterate2_order_witness:
  "hm_wf hm_tiny \<and> hashmap_iterate2 hm_tiny (\<lambda>x e s. Inr (e # s, if he_val e = x then 5 else 0)) (Some 1) [] =
    (if hm_size hm_tiny = 0 then Inr ([], HASHMAP_ERR)
     else Inr (fold (#) (upto_failure (\<lambda>e. if he_val e = Some 1 then 5 else 0) (filter he_in_use (hm_entries hm_tiny))) [],
       (\<lambda>e. if he_val e = Some 1 then 5 else 0)
          (last (upto_failure (\<lambda>e. if he_val e = Some 1 then 5 else 0) (filter he_in_use (hm_entries hm_tiny))))))"
proof -
  have wf: "hm_wf hm_tiny"
    by (simp add: hm_wf_def hm_tiny_def empty_entry_def)
  show ?thesis
    using wf hashmap_iterate2_order [OF wf, of "\<lambda>x e s. Inr (e # s, if he_val e = x then 5 else 0)" "Some 1"
        "(#)" "\<lambda>e. if he_val e = Some 1 then 5 else 0" "[]"] by blast
qed

end
