(* ===== verification/Sz_Ringbuf.thy ===== *)
theory Sz_Ringbuf
  imports Sz_Prelude
begin

text \<open>
  The ring buffer of \<^verbatim>\<open>ringbuf.c\<close>: a byte block, the two cursors, the capacity and the
  full flag, with the cursors at their machine width.  \<open>ring_contents\<close> abstracts it to the
  bytes it holds, oldest first; the interface \<open>bounded_fifo\<close> states what the network layer
  relies on, and the interpretation at the end discharges it for the model.
\<close>

section \<open>The structure and its operations\<close>

record ringbuf =
  rb_buffer :: block
  rb_head :: size_t
  rb_tail :: size_t
  rb_max :: size_t
  rb_full :: bool

definition ringbuf_reset :: "ringbuf \<Rightarrow> ringbuf" where
  "ringbuf_reset r = r\<lparr>rb_head := 0, rb_tail := 0, rb_full := False\<rparr>"

definition ringbuf_full :: "ringbuf \<Rightarrow> bool" where
  "ringbuf_full r = rb_full r"

definition ringbuf_empty :: "ringbuf \<Rightarrow> bool" where
  "ringbuf_empty r = (\<not> rb_full r \<and> rb_head r = rb_tail r)"

definition ringbuf_capacity :: "ringbuf \<Rightarrow> size_t" where
  "ringbuf_capacity r = rb_max r"

definition ringbuf_size :: "ringbuf \<Rightarrow> size_t" where
  "ringbuf_size r =
     (if \<not> rb_full r
      then (if rb_tail r \<le> rb_head r then rb_head r - rb_tail r
            else rb_max r + rb_head r - rb_tail r)
      else rb_max r)"

text \<open>
  \<open>ringbuf_init\<close>: the buffer pointer may be NULL (\<open>None\<close>), and the environment decides
  whether \<open>malloc\<close> succeeds (\<open>malloc_ok\<close>).
\<close>

definition ringbuf_init :: "bool \<Rightarrow> block option \<Rightarrow> size_t \<Rightarrow> cerr + ringbuf" where
  "ringbuf_init malloc_ok buffer sz =
     bindR (guardR (buffer \<noteq> None \<and> sz \<noteq> 0) AssertFailed) (\<lambda>_.
     bindR (guardR malloc_ok AssertFailed) (\<lambda>_.
     let rbuf = ringbuf_reset
           \<lparr>rb_buffer = the buffer, rb_head = 0, rb_tail = 0, rb_max = sz, rb_full = False\<rparr>
     in bindR (guardR (ringbuf_empty rbuf) AssertFailed) (\<lambda>_. Inr rbuf)))"

definition advance_pointer :: "ringbuf \<Rightarrow> cerr + ringbuf" where
  "advance_pointer r =
     bindR (guardR (rb_max r \<noteq> 0) DivByZero) (\<lambda>_.
     let r1 = (if rb_full r then r\<lparr>rb_tail := (rb_tail r + 1) mod rb_max r\<rparr> else r);
         r2 = r1\<lparr>rb_head := (rb_head r1 + 1) mod rb_max r1\<rparr>
     in Inr (r2\<lparr>rb_full := (rb_head r2 = rb_tail r2)\<rparr>))"

definition retreat_pointer :: "ringbuf \<Rightarrow> cerr + ringbuf" where
  "retreat_pointer r =
     bindR (guardR (rb_max r \<noteq> 0) DivByZero) (\<lambda>_.
     Inr (r\<lparr>rb_full := False, rb_tail := (rb_tail r + 1) mod rb_max r\<rparr>))"

definition ringbuf_push :: "ringbuf \<Rightarrow> u8 \<Rightarrow> cerr + (ringbuf \<times> int)" where
  "ringbuf_push r d =
     (if \<not> ringbuf_full r
      then bindR (wr (rb_buffer r) (unat (rb_head r)) d) (\<lambda>buf.
           bindR (advance_pointer (r\<lparr>rb_buffer := buf\<rparr>)) (\<lambda>r'. Inr (r', 0)))
      else Inr (r, -1))"

text \<open>The loop of \<open>ringbuf_bulk_push\<close> from index \<open>i\<close> on; \<open>rc\<close> is the variable \<open>r\<close>.\<close>

function ringbuf_bulk_push_from ::
    "ringbuf \<Rightarrow> block \<Rightarrow> nat \<Rightarrow> nat \<Rightarrow> int \<Rightarrow> cerr + (ringbuf \<times> int)" where
  "ringbuf_bulk_push_from r data n i rc =
     (if i < n
      then bindR (rd data i) (\<lambda>d.
           bindR (ringbuf_push r d) (\<lambda>(r', rc').
           if rc' = -1 then Inr (r', rc')
           else ringbuf_bulk_push_from r' data n (Suc i) rc'))
      else Inr (r, rc))"
  by pat_completeness auto
termination
  by (relation "measure (\<lambda>(r, data, n, i, rc). n - i)") auto

declare ringbuf_bulk_push_from.simps [simp del]

definition ringbuf_bulk_push :: "ringbuf \<Rightarrow> block \<Rightarrow> nat \<Rightarrow> cerr + (ringbuf \<times> int)" where
  "ringbuf_bulk_push r data n = ringbuf_bulk_push_from r data n 0 0"

text \<open>
  \<open>ringbuf_pop\<close> writes through its out-parameter only when there is a byte: \<open>None\<close> is a
  call that leaves \<open>*data\<close> untouched.
\<close>

definition ringbuf_pop :: "ringbuf \<Rightarrow> cerr + (ringbuf \<times> u8 option \<times> int)" where
  "ringbuf_pop r =
     (if \<not> ringbuf_empty r
      then bindR (rd (rb_buffer r) (unat (rb_tail r))) (\<lambda>d.
           bindR (retreat_pointer r) (\<lambda>r'. Inr (r', Some d, 0)))
      else Inr (r, None, -1))"

section \<open>Invariant and abstraction\<close>

definition ring_inv :: "ringbuf \<Rightarrow> bool" where
  "ring_inv r \<longleftrightarrow>
     unat (rb_head r) < unat (rb_max r) \<and> unat (rb_tail r) < unat (rb_max r) \<and>
     unat (rb_max r) \<le> length (rb_buffer r) \<and>
     (rb_full r \<longrightarrow> rb_head r = rb_tail r)"

definition ring_len :: "ringbuf \<Rightarrow> nat" where
  "ring_len r = unat (ringbuf_size r)"

definition ring_contents :: "ringbuf \<Rightarrow> u8 list" where
  "ring_contents r =
     map (\<lambda>i. rb_buffer r ! ((unat (rb_tail r) + i) mod unat (rb_max r))) [0..<ring_len r]"

lemma length_ring_contents [simp]: "length (ring_contents r) = ring_len r"
  by (simp add: ring_contents_def)

text \<open>The size arithmetic never wraps: it is the distance of the cursors on the ring.\<close>

lemma ring_len_eq:
  assumes "ring_inv r"
  shows "ring_len r =
    (if rb_full r then unat (rb_max r)
     else if unat (rb_tail r) \<le> unat (rb_head r) then unat (rb_head r) - unat (rb_tail r)
     else unat (rb_max r) + unat (rb_head r) - unat (rb_tail r))"
proof -
  let ?h = "rb_head r" and ?t = "rb_tail r" and ?m = "rb_max r"
  have "unat (?m + ?h - ?t) = unat ?m + unat ?h - unat ?t" if lt: "unat ?h < unat ?t"
  proof -
    have d: "unat (?t - ?h) = unat ?t - unat ?h"
      using lt by (simp add: unat_sub word_le_nat_alt)
    have "unat (?m - (?t - ?h)) = unat ?m - unat (?t - ?h)"
      using assms d by (intro unat_sub) (auto simp: word_le_nat_alt ring_inv_def)
    moreover have "?m + ?h - ?t = ?m - (?t - ?h)"
      by simp
    ultimately show ?thesis
      using assms d lt by (simp only: ring_inv_def)
  qed
  then show ?thesis
    by (auto simp: ring_len_def ringbuf_size_def word_le_nat_alt unat_sub not_le)
qed

lemma ring_len_bound: "ring_inv r \<Longrightarrow> ring_len r \<le> unat (rb_max r)"
  by (auto simp: ring_len_eq ring_inv_def)

lemma ring_len_less_iff: "ring_inv r \<Longrightarrow> ring_len r < unat (rb_max r) \<longleftrightarrow> \<not> rb_full r"
  by (auto simp: ring_len_eq ring_inv_def)

lemma ring_empty_iff: "ring_inv r \<Longrightarrow> ringbuf_empty r \<longleftrightarrow> ring_len r = 0"
  by (auto simp: ringbuf_empty_def ring_len_eq ring_inv_def word_unat_eq_iff)

text \<open>The slot behind the last byte is the head cursor, and no stored byte sits there.\<close>

lemma ring_head_slot:
  "ring_inv r \<Longrightarrow> (unat (rb_tail r) + ring_len r) mod unat (rb_max r) = unat (rb_head r)"
  by (auto simp: ring_len_eq ring_inv_def mod_add_cases)

lemma ring_slot_neq_head:
  assumes "ring_inv r" and "\<not> rb_full r" and "i < ring_len r"
  shows "(unat (rb_tail r) + i) mod unat (rb_max r) \<noteq> unat (rb_head r)"
  using assms by (auto simp: ring_len_eq ring_inv_def mod_add_cases split: if_splits)

text \<open>One step of a cursor stays on the ring.\<close>

lemma ring_cursor_step:
  assumes "unat (c :: size_t) < unat (m :: size_t)"
  shows "unat ((c + 1) mod m) = (if unat c + 1 = unat m then 0 else unat c + 1)"
  using assms by (simp add: unat_word_mod unat_succ_below mod_succ_cases)

lemma ring_max_nonzero: "ring_inv r \<Longrightarrow> rb_max r \<noteq> 0"
  by (auto simp: ring_inv_def)

lemmas ring_step_simps =
  ringbuf_full_def advance_pointer_def retreat_pointer_def Let_def ring_max_nonzero
  ring_cursor_step

subsection \<open>Push\<close>

lemma ringbuf_push_full: "rb_full r \<Longrightarrow> ringbuf_push r d = Inr (r, -1)"
  by (simp add: ringbuf_push_def ringbuf_full_def)

definition ring_pushed :: "ringbuf \<Rightarrow> u8 \<Rightarrow> ringbuf" where
  "ring_pushed r d = r\<lparr>rb_buffer := (rb_buffer r)[unat (rb_head r) := d],
     rb_head := (rb_head r + 1) mod rb_max r,
     rb_full := ((rb_head r + 1) mod rb_max r = rb_tail r)\<rparr>"

lemma ring_pushed_sel [simp]:
  "rb_head (ring_pushed r d) = (rb_head r + 1) mod rb_max r"
  "rb_tail (ring_pushed r d) = rb_tail r"
  "rb_max (ring_pushed r d) = rb_max r"
  "rb_full (ring_pushed r d) = ((rb_head r + 1) mod rb_max r = rb_tail r)"
  "rb_buffer (ring_pushed r d) = (rb_buffer r)[unat (rb_head r) := d]"
  by (simp_all add: ring_pushed_def)

lemma ringbuf_push_not_full:
  assumes "ring_inv r" and "\<not> rb_full r"
  shows "ringbuf_push r d = Inr (ring_pushed r d, 0)"
  using assms
  by (auto simp: ringbuf_push_def ring_step_simps ring_pushed_def ring_inv_def
      intro: order.strict_trans2)

lemma ring_inv_pushed: "ring_inv r \<Longrightarrow> ring_inv (ring_pushed r d)"
  by (auto simp: ring_inv_def ring_cursor_step)

lemma ring_len_pushed:
  assumes "ring_inv r" and "\<not> rb_full r"
  shows "ring_len (ring_pushed r d) = Suc (ring_len r)"
proof -
  have nz: "unat (rb_head r) < unat (rb_max r)" "unat (rb_tail r) < unat (rb_max r)"
    using assms by (auto simp: ring_inv_def)
  have "(rb_head r + 1) mod rb_max r = rb_tail r \<longleftrightarrow>
      (if unat (rb_head r) + 1 = unat (rb_max r) then 0 else unat (rb_head r) + 1) = unat (rb_tail r)"
    using nz by (simp add: word_unat_eq_iff ring_cursor_step)
  then show ?thesis
    using assms nz
    by (auto simp: ring_len_eq ring_len_eq [OF ring_inv_pushed] ring_cursor_step
        word_unat_eq_iff split: if_splits)
qed

lemma ring_contents_pushed:
  assumes "ring_inv r" and "\<not> rb_full r"
  shows "ring_contents (ring_pushed r d) = ring_contents r @ [d]"
proof -
  let ?slot = "\<lambda>i. (unat (rb_tail r) + i) mod unat (rb_max r)"
  have head: "unat (rb_head r) < length (rb_buffer r)"
    using assms by (auto simp: ring_inv_def)
  have "(rb_buffer r)[unat (rb_head r) := d] ! ?slot i = rb_buffer r ! ?slot i"
    if "i < ring_len r" for i
    using ring_slot_neq_head [OF assms that] by (simp add: nth_list_update)
  moreover have "(rb_buffer r)[unat (rb_head r) := d] ! ?slot (ring_len r) = d"
    using ring_head_slot [OF assms(1)] head by simp
  ultimately show ?thesis
    by (simp add: ring_contents_def ring_len_pushed [OF assms])
qed

subsection \<open>Pop\<close>

definition ring_popped :: "ringbuf \<Rightarrow> ringbuf" where
  "ring_popped r = r\<lparr>rb_full := False, rb_tail := (rb_tail r + 1) mod rb_max r\<rparr>"

lemma ring_popped_sel [simp]:
  "rb_head (ring_popped r) = rb_head r"
  "rb_tail (ring_popped r) = (rb_tail r + 1) mod rb_max r"
  "rb_max (ring_popped r) = rb_max r"
  "rb_full (ring_popped r) = False"
  "rb_buffer (ring_popped r) = rb_buffer r"
  by (simp_all add: ring_popped_def)

lemma ringbuf_pop_empty: "ringbuf_empty r \<Longrightarrow> ringbuf_pop r = Inr (r, None, -1)"
  by (simp add: ringbuf_pop_def)

lemma ringbuf_pop_nonempty:
  assumes "ring_inv r" and "\<not> ringbuf_empty r"
  shows "ringbuf_pop r = Inr (ring_popped r, Some (hd (ring_contents r)), 0)"
proof -
  have "ring_len r > 0"
    using assms by (simp add: ring_empty_iff)
  then have "hd (ring_contents r) = rb_buffer r ! unat (rb_tail r)"
    using assms by (simp add: ring_contents_def hd_map upt_rec [of 0] ring_inv_def)
  then show ?thesis
    using assms
    by (auto simp: ringbuf_pop_def ring_step_simps ring_popped_def ring_inv_def rd_def)
qed

lemma ring_inv_popped: "ring_inv r \<Longrightarrow> ring_inv (ring_popped r)"
  by (auto simp: ring_inv_def ring_cursor_step)

lemma ring_len_popped:
  assumes "ring_inv r" and "\<not> ringbuf_empty r"
  shows "ring_len (ring_popped r) = ring_len r - 1"
  using assms
  by (auto simp: ring_len_eq ring_len_eq [OF ring_inv_popped] ring_cursor_step ring_inv_def
      ringbuf_empty_def word_unat_eq_iff split: if_splits)

lemma ring_contents_popped:
  assumes "ring_inv r" and "\<not> ringbuf_empty r"
  shows "ring_contents (ring_popped r) = tl (ring_contents r)"
proof (rule nth_equalityI)
  show "length (ring_contents (ring_popped r)) = length (tl (ring_contents r))"
    by (simp add: ring_len_popped [OF assms])
next
  fix i assume i: "i < length (ring_contents (ring_popped r))"
  let ?t = "unat (rb_tail r)" and ?m = "unat (rb_max r)"
  have bnd: "?t < ?m"
    using assms by (simp add: ring_inv_def)
  have "Suc i < ring_len r"
    using i by (simp add: ring_len_popped [OF assms])
  moreover have "(unat (rb_tail (ring_popped r)) + i) mod ?m = (?t + Suc i) mod ?m"
    using bnd by (simp add: unat_word_mod unat_succ_below mod_add_left_eq)
  ultimately show "ring_contents (ring_popped r) ! i = tl (ring_contents r) ! i"
    using i by (simp add: ring_contents_def nth_tl)
qed

section \<open>The interface: a bounded first-in first-out buffer\<close>

text \<open>
  What a reader of the network layer needs of a byte buffer: with room, a push appends;
  without, it reports \<open>-1\<close> and changes nothing; a pop removes the oldest byte, or reports
  \<open>-1\<close> and leaves the out-parameter alone.
\<close>

fun pops :: "('r \<Rightarrow> cerr + ('r \<times> 'a option \<times> int)) \<Rightarrow> nat \<Rightarrow> 'r \<Rightarrow> cerr + ('r \<times> 'a option list)" where
  "pops pop 0 r = Inr (r, [])"
| "pops pop (Suc n) r =
     bindR (pop r) (\<lambda>(r1, d, _). bindR (pops pop n r1) (\<lambda>(r2, ds). Inr (r2, d # ds)))"

locale bounded_fifo =
  fixes inv :: "'r \<Rightarrow> bool"
    and contents :: "'r \<Rightarrow> 'a list"
    and cap :: "'r \<Rightarrow> nat"
    and push :: "'r \<Rightarrow> 'a \<Rightarrow> cerr + ('r \<times> int)"
    and pop :: "'r \<Rightarrow> cerr + ('r \<times> 'a option \<times> int)"
  assumes bounded: "inv r \<Longrightarrow> length (contents r) \<le> cap r"
    and push_room: "inv r \<Longrightarrow> length (contents r) < cap r \<Longrightarrow>
      \<exists>r'. push r d = Inr (r', 0) \<and> inv r' \<and> contents r' = contents r @ [d] \<and> cap r' = cap r"
    and push_full: "inv r \<Longrightarrow> length (contents r) = cap r \<Longrightarrow> push r d = Inr (r, -1)"
    and pop_some: "inv r \<Longrightarrow> contents r = x # xs \<Longrightarrow>
      \<exists>r'. pop r = Inr (r', Some x, 0) \<and> inv r' \<and> contents r' = xs \<and> cap r' = cap r"
    and pop_none: "inv r \<Longrightarrow> contents r = [] \<Longrightarrow> pop r = Inr (r, None, -1)"
begin

lemma push_cases:
  assumes "inv r"
  obtains (room) r' where "push r d = Inr (r', 0)" "inv r'" "contents r' = contents r @ [d]"
      "cap r' = cap r" "length (contents r) < cap r"
    | (full) "push r d = Inr (r, -1)" "length (contents r) = cap r"
  using assms bounded push_room push_full by (metis le_neq_implies_less)

lemma pops_contents:
  assumes "inv r" and "n \<le> length (contents r)"
  shows "\<exists>r'. pops pop n r = Inr (r', map Some (take n (contents r))) \<and> inv r' \<and>
      contents r' = drop n (contents r) \<and> cap r' = cap r"
  using assms
proof (induction n arbitrary: r)
  case 0
  then show ?case by simp
next
  case (Suc n)
  then obtain x xs where c: "contents r = x # xs"
    by (cases "contents r") auto
  with Suc.prems pop_some [of r x xs] obtain r1 where r1: "pop r = Inr (r1, Some x, 0)"
      "inv r1" "contents r1 = xs" "cap r1 = cap r"
    by blast
  moreover have "n \<le> length (contents r1)"
    using Suc.prems c r1 by simp
  ultimately show ?case
    using Suc.IH [of r1] c by auto
qed

lemma pops_empty:
  assumes "inv r" and "contents r = []"
  shows "pops pop n r = Inr (r, replicate n None)"
  using assms by (induction n) (auto simp: pop_none)

end

interpretation ring: bounded_fifo ring_inv ring_contents "\<lambda>r. unat (rb_max r)" ringbuf_push ringbuf_pop
proof
  fix r :: ringbuf and d x :: u8 and xs :: "u8 list"
  assume inv: "ring_inv r"
  then show "length (ring_contents r) \<le> unat (rb_max r)"
    by (simp add: ring_len_bound)
  show "\<exists>r'. ringbuf_push r d = Inr (r', 0) \<and> ring_inv r' \<and>
      ring_contents r' = ring_contents r @ [d] \<and> unat (rb_max r') = unat (rb_max r)"
    if "length (ring_contents r) < unat (rb_max r)"
    using inv that
    by (simp add: ring_len_less_iff ringbuf_push_not_full ring_inv_pushed ring_contents_pushed)
  show "ringbuf_push r d = Inr (r, -1)" if "length (ring_contents r) = unat (rb_max r)"
    using inv that ring_len_less_iff [OF inv] by (simp add: ringbuf_push_full)
  show "\<exists>r'. ringbuf_pop r = Inr (r', Some x, 0) \<and> ring_inv r' \<and> ring_contents r' = xs \<and>
      unat (rb_max r') = unat (rb_max r)" if "ring_contents r = x # xs"
  proof -
    have "\<not> ringbuf_empty r"
      using inv that by (auto simp: ring_empty_iff simp flip: length_ring_contents)
    then show ?thesis
      using inv that by (simp add: ringbuf_pop_nonempty ring_inv_popped ring_contents_popped)
  qed
  show "ringbuf_pop r = Inr (r, None, -1)" if "ring_contents r = []"
    using inv that
    by (intro ringbuf_pop_empty) (auto simp: ring_empty_iff simp flip: length_ring_contents)
qed

subsection \<open>Bulk push\<close>

definition ring_room :: "ringbuf \<Rightarrow> nat" where
  "ring_room r = unat (rb_max r) - ring_len r"

lemma bulk_push_from_contents:
  assumes "ring_inv r" and "i \<le> n" and "n \<le> length data" and "rc = 0"
  shows "\<exists>r'. ringbuf_bulk_push_from r data n i rc =
       Inr (r', if n - i \<le> ring_room r then 0 else -1) \<and> ring_inv r' \<and> rb_max r' = rb_max r \<and>
     ring_contents r' = ring_contents r @ take (min (n - i) (ring_room r)) (drop i data)"
  using assms
proof (induction r data n i rc rule: ringbuf_bulk_push_from.induct)
  case (1 r data n i rc)
  note simps = ringbuf_bulk_push_from.simps [of r data n i 0]
  show ?case
  proof (cases "i < n")
    case False
    with "1.prems" show ?thesis by (auto simp: ringbuf_bulk_push_from.simps [of r data n n 0])
  next
    case True
    with "1.prems" have d: "rd data i = Inr (data ! i)" and dr: "drop i data = data ! i # drop (Suc i) data"
      by (auto simp: Cons_nth_drop_Suc)
    show ?thesis
    proof (cases "rb_full r")
      case True
      then have "ring_len r = unat (rb_max r)"
        using "1.prems"(1) by (simp add: ring_len_eq)
      with True \<open>i < n\<close> d "1.prems" show ?thesis
        by (simp add: simps ringbuf_push_full ring_room_def)
    next
      case False
      let ?r = "ring_pushed r (data ! i)"
      have push: "ringbuf_push r (data ! i) = Inr (?r, 0)" and inv: "ring_inv ?r"
        using False "1.prems"(1) by (auto intro: ringbuf_push_not_full ring_inv_pushed)
      have len: "ring_len ?r = Suc (ring_len r)" and lt: "ring_len r < unat (rb_max r)"
        using False "1.prems"(1) by (auto simp: ring_len_pushed ring_len_less_iff)
      have "\<exists>r'. ringbuf_bulk_push_from ?r data n (Suc i) 0 =
            Inr (r', if n - Suc i \<le> ring_room ?r then 0 else -1) \<and>
          ring_inv r' \<and> rb_max r' = rb_max ?r \<and> ring_contents r' = ring_contents ?r @
            take (min (n - Suc i) (ring_room ?r)) (drop (Suc i) data)"
        using "1.IH" [OF \<open>i < n\<close> d push refl] inv \<open>i < n\<close> "1.prems"(3) by auto
      then show ?thesis
        using \<open>i < n\<close> lt len ring_contents_pushed [OF "1.prems"(1) False, of "data ! i"]
        by (auto simp: simps d push dr "1.prems"(4) ring_room_def min_def take_Cons' Suc_diff_Suc)
    qed
  qed
qed

lemma bulk_push_contents:
  assumes "ring_inv r" and "n \<le> length data"
  shows "\<exists>r'. ringbuf_bulk_push r data n = Inr (r', if n \<le> ring_room r then 0 else -1) \<and>
     ring_inv r' \<and> rb_max r' = rb_max r \<and>
     ring_contents r' = ring_contents r @ take (min n (ring_room r)) data"
  using bulk_push_from_contents [of r 0 n data 0] assms by (simp add: ringbuf_bulk_push_def)

section \<open>Properties\<close>

lemma ringbuf_init_ok:
  assumes "n \<noteq> 0" and "unat n \<le> length buf"
  shows "\<exists>r. ringbuf_init True (Some buf) n = Inr r \<and> ring_inv r \<and> ring_contents r = [] \<and>
    rb_max r = n"
  using assms
  by (auto simp: ringbuf_init_def ringbuf_reset_def ringbuf_empty_def ring_inv_def
      ring_contents_def ring_len_def ringbuf_size_def unat_gt_0)

text \<open>
  C32: a push on a well-formed ring never fails: with room it appends the byte behind the
  stored ones and returns 0, on a full ring it returns -1 and leaves the ring as it was;
  the invariant and the capacity are kept.
\<close>

theorem ringbuf_push_refines:
  assumes "ring_inv r"
  shows "\<exists>r' rc. ringbuf_push r d = Inr (r', rc) \<and> ring_inv r' \<and>
    ringbuf_capacity r' = ringbuf_capacity r \<and>
    (if unat (ringbuf_size r) < unat (ringbuf_capacity r)
     then rc = 0 \<and> ring_contents r' = ring_contents r @ [d]
     else rc = -1 \<and> r' = r)"
proof (cases "rb_full r")
  case True
  with assms show ?thesis
    using ring_len_less_iff [OF assms]
    by (simp add: ringbuf_push_full ring_len_def ringbuf_capacity_def)
next
  case False
  with assms show ?thesis
    using ring_len_less_iff [OF assms]
    by (simp add: ringbuf_push_not_full ring_inv_pushed ring_contents_pushed ring_len_def
        ringbuf_capacity_def)
qed

definition ring3 :: ringbuf where
  "ring3 = \<lparr>rb_buffer = [7, 8, 9], rb_head = 1, rb_tail = 2, rb_max = 3, rb_full = False\<rparr>"

lemma ring3_inv: "ring_inv ring3"
  by (simp add: ring_inv_def ring3_def)

theorem ringbuf_push_refines_witness:
  "ring_inv ring3 \<and> (\<exists>r' rc. ringbuf_push ring3 5 = Inr (r', rc) \<and> ring_inv r' \<and>
     ringbuf_capacity r' = ringbuf_capacity ring3 \<and>
     (if unat (ringbuf_size ring3) < unat (ringbuf_capacity ring3)
      then rc = 0 \<and> ring_contents r' = ring_contents ring3 @ [5]
      else rc = -1 \<and> r' = ring3))"
  using ringbuf_push_refines [OF ring3_inv, of 5] ring3_inv by blast

text \<open>
  C33: bytes come back in order.  Bulk-pushing \<open>n\<close> bytes that fit returns 0, and popping
  everything afterwards yields the bytes that were there before followed by the \<open>n\<close> new
  ones, and leaves the ring empty.
\<close>

theorem ringbuf_bulk_push_pop_roundtrip:
  assumes "ring_inv r" and "n \<le> length data"
    and "unat (ringbuf_size r) + n \<le> unat (ringbuf_capacity r)"
  shows "\<exists>r1 r2. ringbuf_bulk_push r data n = Inr (r1, 0) \<and>
    pops ringbuf_pop (unat (ringbuf_size r) + n) r1 =
      Inr (r2, map Some (ring_contents r @ take n data)) \<and>
    ringbuf_empty r2"
proof -
  have room: "n \<le> ring_room r"
    using assms(3) by (simp add: ring_room_def ring_len_def ringbuf_capacity_def)
  obtain r1 where r1: "ringbuf_bulk_push r data n = Inr (r1, 0)" "ring_inv r1"
      "ring_contents r1 = ring_contents r @ take n data"
    using bulk_push_contents [OF assms(1,2)] room by (auto simp: min_def)
  then have len: "length (ring_contents r1) = unat (ringbuf_size r) + n"
    using assms(2) by (simp add: ring_len_def)
  from ring.pops_contents [OF r1(2), of "unat (ringbuf_size r) + n"] len obtain r2 where
      r2: "pops ringbuf_pop (unat (ringbuf_size r) + n) r1 = Inr (r2, map Some (ring_contents r1))"
        "ring_inv r2" "ring_contents r2 = []"
    by auto
  then have "ringbuf_empty r2"
    by (auto simp: ring_empty_iff simp flip: length_ring_contents)
  with r1 r2 show ?thesis by auto
qed

theorem ringbuf_bulk_push_pop_roundtrip_witness:
  "ring_inv ring3 \<and> (1::nat) \<le> length [4::u8, 6] \<and>
   unat (ringbuf_size ring3) + 1 \<le> unat (ringbuf_capacity ring3) \<and>
   (\<exists>r1 r2. ringbuf_bulk_push ring3 [4, 6] 1 = Inr (r1, 0) \<and>
     pops ringbuf_pop (unat (ringbuf_size ring3) + 1) r1 =
       Inr (r2, map Some (ring_contents ring3 @ take 1 [4, 6])) \<and> ringbuf_empty r2)"
proof -
  have "(1::nat) \<le> length [4::u8, 6]"
    and "unat (ringbuf_size ring3) + 1 \<le> unat (ringbuf_capacity ring3)"
    by (simp_all add: ring3_def ringbuf_size_def ringbuf_capacity_def word_le_nat_alt)
  with ringbuf_bulk_push_pop_roundtrip [OF ring3_inv this] ring3_inv show ?thesis by blast
qed

text \<open>
  A bulk push that does not fit keeps the prefix that fits, drops the rest and reports
  -1; nothing stored before is lost and the call never fails.
\<close>

theorem ringbuf_bulk_push_prefix:
  assumes "ring_inv r" and "n \<le> length data"
  shows "\<exists>r' rc. ringbuf_bulk_push r data n = Inr (r', rc) \<and> ring_inv r' \<and>
    rc = (if unat (ringbuf_size r) + n \<le> unat (ringbuf_capacity r) then 0 else -1) \<and>
    ring_contents r' = take (unat (ringbuf_capacity r)) (ring_contents r @ take n data)"
proof -
  have "ring_contents r @ take (min n (ring_room r)) data =
      take (unat (rb_max r)) (ring_contents r @ take n data)"
    using ring_len_bound [OF assms(1)] by (simp add: ring_room_def min.commute)
  moreover have "n \<le> ring_room r \<longleftrightarrow> unat (ringbuf_size r) + n \<le> unat (rb_max r)"
    using ring_len_bound [OF assms(1)] by (auto simp: ring_room_def ring_len_def)
  ultimately show ?thesis
    using bulk_push_contents [OF assms] by (auto simp: ringbuf_capacity_def)
qed

theorem ringbuf_bulk_push_prefix_witness:
  "ring_inv ring3 \<and> (3::nat) \<le> length [4::u8, 6, 2] \<and>
   (\<exists>r' rc. ringbuf_bulk_push ring3 [4, 6, 2] 3 = Inr (r', rc) \<and> ring_inv r' \<and>
     rc = (if unat (ringbuf_size ring3) + 3 \<le> unat (ringbuf_capacity ring3) then 0 else -1) \<and>
     ring_contents r' = take (unat (ringbuf_capacity ring3)) (ring_contents ring3 @ take 3 [4, 6, 2]))"
  using ringbuf_bulk_push_prefix [OF ring3_inv, of 3 "[4, 6, 2]"] ring3_inv by simp

end
