(* ===== verification/Sz_Network.thy ===== *)
theory Sz_Network
  imports Sz_Ringbuf
begin

text \<open>
  The byte-order functions and the socket loops of \<^verbatim>\<open>network.c\<close>.  A socket is represented
  by what the kernel will do on it: for sending, a script of outcomes of \<open>send\<close>; for receiving,
  the chunks that have arrived, with would-block, error and end-of-stream events between
  them.  \<open>send\<close> and \<open>recv\<close> then follow their documentation: they transfer at most what was
  asked for, in order.
\<close>

section \<open>Byte order\<close>

datatype endian = LittleEndian | BigEndian

text \<open>Loads and stores of multi-byte objects on a host of either kind.\<close>

definition load16 :: "endian \<Rightarrow> u8 \<Rightarrow> u8 \<Rightarrow> u16" where
  "load16 e a b = (case e of
     LittleEndian \<Rightarrow> ucast a OR push_bit 8 (ucast b)
   | BigEndian \<Rightarrow> push_bit 8 (ucast a) OR ucast b)"

definition store16 :: "endian \<Rightarrow> u16 \<Rightarrow> u8 list" where
  "store16 e w = (case e of
     LittleEndian \<Rightarrow> [ucast w, ucast (drop_bit 8 w)]
   | BigEndian \<Rightarrow> [ucast (drop_bit 8 w), ucast w])"

definition load32 :: "endian \<Rightarrow> u8 \<Rightarrow> u8 \<Rightarrow> u8 \<Rightarrow> u8 \<Rightarrow> u32" where
  "load32 e a b c d = (case e of
     LittleEndian \<Rightarrow> ucast a OR push_bit 8 (ucast b) OR push_bit 16 (ucast c) OR push_bit 24 (ucast d)
   | BigEndian \<Rightarrow> push_bit 24 (ucast a) OR push_bit 16 (ucast b) OR push_bit 8 (ucast c) OR ucast d)"

definition store32 :: "endian \<Rightarrow> u32 \<Rightarrow> u8 list" where
  "store32 e w = (case e of
     LittleEndian \<Rightarrow> [ucast w, ucast (drop_bit 8 w), ucast (drop_bit 16 w), ucast (drop_bit 24 w)]
   | BigEndian \<Rightarrow> [ucast (drop_bit 24 w), ucast (drop_bit 16 w), ucast (drop_bit 8 w), ucast w])"

text \<open>
  \<open>htons\<close> and \<open>htonl\<close> give the word whose representation in host memory is big-endian;
  \<open>ntohs\<close> and \<open>ntohl\<close> read a word of host memory as big-endian.
\<close>

definition htons :: "endian \<Rightarrow> u16 \<Rightarrow> u16" where
  "htons e w = load16 e (store16 BigEndian w ! 0) (store16 BigEndian w ! 1)"

definition ntohs :: "endian \<Rightarrow> u16 \<Rightarrow> u16" where
  "ntohs e w = load16 BigEndian (store16 e w ! 0) (store16 e w ! 1)"

definition htonl :: "endian \<Rightarrow> u32 \<Rightarrow> u32" where
  "htonl e w = load32 e (store32 BigEndian w ! 0) (store32 BigEndian w ! 1)
     (store32 BigEndian w ! 2) (store32 BigEndian w ! 3)"

definition ntohl :: "endian \<Rightarrow> u32 \<Rightarrow> u32" where
  "ntohl e w = load32 BigEndian (store32 e w ! 0) (store32 e w ! 1) (store32 e w ! 2) (store32 e w ! 3)"

text \<open>\<open>htonll\<close> and \<open>ntohll\<close> of \<^verbatim>\<open>network.c\<close>.\<close>

definition htonll :: "u64 \<Rightarrow> u8 list" where
  "htonll num =
     [ucast (drop_bit 56 num AND 0xFF), ucast (drop_bit 48 num AND 0xFF),
      ucast (drop_bit 40 num AND 0xFF), ucast (drop_bit 32 num AND 0xFF),
      ucast (drop_bit 24 num AND 0xFF), ucast (drop_bit 16 num AND 0xFF),
      ucast (drop_bit 8 num AND 0xFF), ucast (drop_bit 0 num AND 0xFF)]"

fun ntohll :: "u8 list \<Rightarrow> cerr + u64" where
  "ntohll (b0 # b1 # b2 # b3 # b4 # b5 # b6 # b7 # rest) =
     Inr (push_bit 56 (ucast b0) OR push_bit 48 (ucast b1) OR push_bit 40 (ucast b2) OR
          push_bit 32 (ucast b3) OR push_bit 24 (ucast b4) OR push_bit 16 (ucast b5) OR
          push_bit 8 (ucast b6) OR push_bit 0 (ucast b7))"
| "ntohll _ = Inl OutOfBounds"

subsection \<open>Stores and loads are inverse\<close>

lemma bit8_ge: "8 \<le> n \<Longrightarrow> \<not> bit (a :: u8) n"
  using bit_imp_le_length [of a n] by auto

lemma ucast8_eqI: "(\<And>n. n < 8 \<Longrightarrow> bit (v :: u8) n = bit a n) \<Longrightarrow> v = a"
  by (rule bit_word_eqI) simp

lemma load_store16: "load16 e (store16 e w ! 0) (store16 e w ! 1) = w"
proof (rule bit_word_eqI)
  fix n assume "n < LENGTH(16)"
  then show "bit (load16 e (store16 e w ! 0) (store16 e w ! 1)) n = bit w n"
    by (cases e) (auto simp: load16_def store16_def bit_simps)
qed

lemma store_load16: "store16 e (load16 e a b) = [a, b]"
  by (cases e) (auto simp: load16_def store16_def bit_simps bit8_ge intro!: ucast8_eqI)

lemma load_store32:
  "load32 e (store32 e w ! 0) (store32 e w ! 1) (store32 e w ! 2) (store32 e w ! 3) = w"
proof (rule bit_word_eqI)
  fix n assume n: "n < LENGTH(32)"
  have "n < 8 \<or> 8 \<le> n \<and> n < 16 \<or> 16 \<le> n \<and> n < 24 \<or> 24 \<le> n"
    by linarith
  then show "bit (load32 e (store32 e w ! 0) (store32 e w ! 1) (store32 e w ! 2) (store32 e w ! 3)) n = bit w n"
    using n by (cases e) (elim disjE; force simp: load32_def store32_def bit_simps)+
qed

lemma store_load32: "store32 e (load32 e a b c d) = [a, b, c, d]"
  by (cases e) (auto simp: load32_def store32_def bit_simps bit8_ge intro!: ucast8_eqI)

lemma ntohs_load16: "ntohs e (load16 e a b) = load16 BigEndian a b"
  by (simp add: ntohs_def store_load16)

lemma store16_htons: "store16 e (htons e w) = store16 BigEndian w"
proof -
  have "store16 BigEndian w = [store16 BigEndian w ! 0, store16 BigEndian w ! 1]"
    by (simp add: store16_def)
  then show ?thesis
    by (simp add: htons_def store_load16)
qed

lemma ntohl_load32: "ntohl e (load32 e a b c d) = load32 BigEndian a b c d"
  by (simp add: ntohl_def store_load32)

lemma store32_htonl: "store32 e (htonl e w) = store32 BigEndian w"
proof -
  have "store32 BigEndian w = [store32 BigEndian w ! 0, store32 BigEndian w ! 1,
      store32 BigEndian w ! 2, store32 BigEndian w ! 3]"
    by (simp add: store32_def)
  then show ?thesis
    by (simp add: htonl_def store_load32)
qed

lemma byte_of: "ucast (drop_bit k (num :: u64) AND 0xFF) = (ucast (drop_bit k num) :: u8)"
proof -
  have m: "(0xFF :: u64) = mask 8"
    by (simp add: mask_eq_exp_minus_1)
  show ?thesis
    unfolding m by (rule ucast8_eqI) (simp add: bit_simps)
qed

lemma bit_byte_lane:
  "n < 64 \<Longrightarrow> bit (push_bit k (ucast (ucast (drop_bit k (num :: u64)) :: u8)) :: u64) n \<longleftrightarrow> k \<le> n \<and> n < k + 8 \<and> bit num n"
  by (auto simp: bit_simps)

lemma ntohll_htonll: "ntohll (htonll num @ rest) = Inr num"
proof -
  have "push_bit 56 (ucast (ucast (drop_bit 56 num) :: u8)) OR push_bit 48 (ucast (ucast (drop_bit 48 num) :: u8)) OR
      push_bit 40 (ucast (ucast (drop_bit 40 num) :: u8)) OR push_bit 32 (ucast (ucast (drop_bit 32 num) :: u8)) OR
      push_bit 24 (ucast (ucast (drop_bit 24 num) :: u8)) OR push_bit 16 (ucast (ucast (drop_bit 16 num) :: u8)) OR
      push_bit 8 (ucast (ucast (drop_bit 8 num) :: u8)) OR push_bit 0 (ucast (ucast (drop_bit 0 num) :: u8)) = num"
    (is "?w = num")
  proof (rule bit_word_eqI)
    fix n assume n: "n < LENGTH(64)"
    then have "n < 64"
      by simp
    then have "bit ?w n \<longleftrightarrow> bit num n \<and>
        (56 \<le> n \<or> 48 \<le> n \<and> n < 56 \<or> 40 \<le> n \<and> n < 48 \<or> 32 \<le> n \<and> n < 40 \<or>
         24 \<le> n \<and> n < 32 \<or> 16 \<le> n \<and> n < 24 \<or> 8 \<le> n \<and> n < 16 \<or> n < 8)"
      unfolding bit_or_iff bit_byte_lane [OF \<open>n < 64\<close>] by (simp only: le0 simp_thms) linarith
    then show "bit ?w n = bit num n"
      by linarith
  qed
  then show ?thesis
    using byte_of [of 0 num] by (simp add: htonll_def byte_of)
qed

lemma htonll_ntohll:
  assumes "ntohll bs = Inr num"
  shows "htonll num = take 8 bs"
proof -
  obtain b0 b1 b2 b3 b4 b5 b6 b7 rest where bs: "bs = b0 # b1 # b2 # b3 # b4 # b5 # b6 # b7 # rest"
    using assms by (cases bs rule: ntohll.cases) auto
  have num: "num = push_bit 56 (ucast b0) OR push_bit 48 (ucast b1) OR push_bit 40 (ucast b2) OR
      push_bit 32 (ucast b3) OR push_bit 24 (ucast b4) OR push_bit 16 (ucast b5) OR
      push_bit 8 (ucast b6) OR push_bit 0 (ucast b7)"
    using assms bs by simp
  have "ucast (drop_bit 56 num) = b0" "ucast (drop_bit 48 num) = b1" "ucast (drop_bit 40 num) = b2"
      "ucast (drop_bit 32 num) = b3" "ucast (drop_bit 24 num) = b4" "ucast (drop_bit 16 num) = b5"
      "ucast (drop_bit 8 num) = b6" "ucast (drop_bit 0 num) = b7"
    unfolding num by (rule ucast8_eqI, simp add: bit_simps bit8_ge)+
  then show ?thesis
    using bs byte_of [of 0 num] by (simp add: htonll_def byte_of)
qed

section \<open>Sending\<close>

text \<open>
  One call of \<open>send\<close>: the kernel takes at most \<open>k\<close> bytes (\<open>Accept k\<close>), would block, or fails.
  With no outcome left the socket buffer is full and the call would block.
\<close>

datatype send_ev = Accept nat | SendAgain | SendErr

abbreviation INT_MAX :: nat where "INT_MAX \<equiv> 2147483647"

text \<open>The loop of \<open>sendall\<close>; the result holds \<open>total\<close> and the last \<open>n\<close>.\<close>

fun sendall_loop :: "send_ev list \<Rightarrow> block \<Rightarrow> nat \<Rightarrow> nat \<Rightarrow> int \<Rightarrow> cerr + (send_ev list \<times> nat \<times> int)" where
  "sendall_loop [] buf len tot n = Inr ([], tot, if tot < len then -1 else n)"
| "sendall_loop (ev # evs) buf len tot n =
     (if tot < len
      then (case ev of
          SendAgain \<Rightarrow> Inr (evs, tot, -1)
        | SendErr \<Rightarrow> Inr (evs, tot, -1)
        | Accept k \<Rightarrow>
            (let n' = min k (len - tot) in
             bindR (rd_block buf tot (len - tot)) (\<lambda>_.
             bindR (guardR (tot + n' \<le> INT_MAX) SignedOverflow) (\<lambda>_.
             sendall_loop evs buf len (tot + n') (int n')))))
      else Inr (ev # evs, tot, n))"

text \<open>\<open>sendall\<close>: the new script, the bytes put on the wire, \<open>*sent\<close> and the return code.\<close>

definition sendall :: "send_ev list \<Rightarrow> block \<Rightarrow> nat \<Rightarrow> cerr + (send_ev list \<times> block \<times> nat \<times> int)" where
  "sendall evs buf len =
     bindR (sendall_loop evs buf len 0 0) (\<lambda>(evs', tot, n).
     Inr (evs', take tot buf, tot, if n = -1 then -1 else 0))"

lemma sendall_loop_ok:
  assumes "len \<le> length buf" and "len \<le> INT_MAX" and "tot \<le> len" and "n \<noteq> -1"
  shows "\<exists>evs' t n'. sendall_loop evs buf len tot n = Inr (evs', t, n') \<and> tot \<le> t \<and> t \<le> len \<and>
    (n' = -1 \<longleftrightarrow> t < len)"
  using assms
proof (induction evs arbitrary: tot n)
  case (Cons ev evs)
  show ?case
  proof (cases ev)
    case (Accept k)
    have "tot + min k (len - tot) \<le> len"
      using Cons.prems by simp
    with Cons.IH [of "tot + min k (len - tot)" "int (min k (len - tot))"] Cons.prems Accept
    show ?thesis
      by (cases "tot < len") (auto simp: Let_def rd_block_def)
  qed (use Cons.prems in auto)
qed auto

lemma sendall_ok:
  assumes "len \<le> length buf" and "len \<le> INT_MAX"
  obtains evs' t rc where "sendall evs buf len = Inr (evs', take t buf, t, rc)" "t \<le> len"
    "rc = (if t < len then -1 else 0)"
  using sendall_loop_ok [of len buf 0 0 evs] assms by (fastforce simp: sendall_def)

text \<open>A kernel that always takes at least one byte and never fails lets every send complete.\<close>

lemma sendall_loop_complete:
  assumes "len \<le> length buf" and "len \<le> INT_MAX" and "tot \<le> len"
    and "len - tot \<le> length evs" and "\<forall>ev\<in>set evs. \<exists>k. ev = Accept (Suc k)" and "n \<noteq> -1"
  shows "\<exists>evs' n'. sendall_loop evs buf len tot n = Inr (evs', len, n') \<and> n' \<noteq> -1"
  using assms
proof (induction evs arbitrary: tot n)
  case (Cons ev evs)
  then obtain k where k: "ev = Accept (Suc k)"
    by auto
  show ?case
  proof (cases "tot < len")
    case True
    let ?n = "min (Suc k) (len - tot)"
    have "tot + ?n \<le> len" and "len - (tot + ?n) \<le> length evs"
      using True Cons.prems by (auto simp: min_def)
    with Cons.IH [of "tot + ?n" "int ?n"] Cons.prems
    have "\<exists>evs' n'. sendall_loop evs buf len (tot + ?n) (int ?n) = Inr (evs', len, n') \<and> n' \<noteq> -1"
      by auto
    with True k \<open>tot + ?n \<le> len\<close> Cons.prems(1,2) show ?thesis
      by (simp add: Let_def rd_block_def)
  next
    case False
    with Cons.prems show ?thesis
      by auto
  qed
qed auto

section \<open>Receiving\<close>

text \<open>
  The input side of a non-blocking socket: chunks that have arrived, and between them points
  where a call would block, fails, or sees the end of the stream.  End of stream is final; with
  no event left a call would block.
\<close>

datatype recv_ev = Chunk block | RecvAgain | RecvErr | RecvEof

datatype recv_res = Got block | Again | Failed

fun recv :: "recv_ev list \<Rightarrow> nat \<Rightarrow> recv_res \<times> recv_ev list" where
  "recv [] len = (Again, [])"
| "recv (Chunk bs # es) len =
     (if length bs \<le> len then (Got bs, es) else (Got (take len bs), Chunk (drop len bs) # es))"
| "recv (RecvAgain # es) len = (Again, es)"
| "recv (RecvErr # es) len = (Failed, es)"
| "recv (RecvEof # es) len = (Got [], RecvEof # es)"

text \<open>The bytes still to be received.\<close>

fun stream :: "recv_ev list \<Rightarrow> block" where
  "stream [] = []"
| "stream (Chunk bs # es) = bs @ stream es"
| "stream (ev # es) = stream es"

lemma recv_stream:
  assumes "recv es len = (Got bs, es')"
  shows "stream es = bs @ stream es'" and "length bs \<le> len"
  using assms by (cases "(es, len)" rule: recv.cases; auto split: if_splits)+

lemma recv_no_data: "recv es len = (Again, es') \<or> recv es len = (Failed, es') \<Longrightarrow> stream es' = stream es"
  by (cases "(es, len)" rule: recv.cases) (auto split: if_splits)

text \<open>
  The loop of \<open>recvbytes\<close>; the status of the bulk push is ignored, as in the source.
\<close>

function recvbytes_loop :: "recv_ev list \<Rightarrow> ringbuf \<Rightarrow> nat \<Rightarrow> nat \<Rightarrow> cerr + (recv_ev list \<times> ringbuf \<times> int)" where
  "recvbytes_loop es r bufsize tot =
     (if tot < bufsize
      then (case recv es (bufsize - tot) of
          (Again, es1) \<Rightarrow> Inr (es1, r, int tot)
        | (Failed, es1) \<Rightarrow> Inr (es1, r, -1)
        | (Got bs, es1) \<Rightarrow>
            if bs = [] then Inr (es1, r, 0)
            else bindR (ringbuf_bulk_push r bs (length bs)) (\<lambda>(r1, _).
                 bindR (guardR (tot + length bs \<le> INT_MAX) SignedOverflow) (\<lambda>_.
                 recvbytes_loop es1 r1 bufsize (tot + length bs))))
      else Inr (es, r, int tot))"
  by pat_completeness auto
termination
  by (relation "measure (\<lambda>(es, r, bufsize, tot). bufsize - tot)")
    (auto intro: diff_less_mono2 simp: length_greater_0_conv)

declare recvbytes_loop.simps [simp del]

definition recvbytes :: "recv_ev list \<Rightarrow> ringbuf \<Rightarrow> nat \<Rightarrow> cerr + (recv_ev list \<times> ringbuf \<times> int)" where
  "recvbytes es r bufsize = recvbytes_loop es r bufsize 0"

text \<open>
  The loop of \<open>recvall\<close>, which reads until the socket would block.
\<close>

function recvall_loop :: "recv_ev list \<Rightarrow> ringbuf \<Rightarrow> nat \<Rightarrow> nat \<Rightarrow> cerr + (recv_ev list \<times> ringbuf \<times> int)" where
  "recvall_loop es r bufsize tot =
     (case recv es (bufsize - 1) of
        (Again, es1) \<Rightarrow> Inr (es1, r, int tot)
      | (Failed, es1) \<Rightarrow> Inr (es1, r, -1)
      | (Got bs, es1) \<Rightarrow>
          if bs = [] then Inr (es1, r, 0)
          else bindR (ringbuf_bulk_push r bs (length bs)) (\<lambda>(r1, _).
               bindR (guardR (tot + length bs \<le> INT_MAX) SignedOverflow) (\<lambda>_.
               recvall_loop es1 r1 bufsize (tot + length bs))))"
  by pat_completeness auto
termination
  by (relation "measure (\<lambda>(es, r, bufsize, tot). length (stream es))")
    (auto dest!: recv_stream(1) [OF sym])

declare recvall_loop.simps [simp del]

definition recvall :: "recv_ev list \<Rightarrow> ringbuf \<Rightarrow> int \<Rightarrow> cerr + (recv_ev list \<times> ringbuf \<times> int)" where
  "recvall es r len = recvall_loop es r (if len > 0 then nat len + 1 else 256) 0"

text \<open>Pushing in pieces is pushing the concatenation, cut at the capacity.\<close>

lemma take_append_take: "take n (take n xs @ ys) = take n (xs @ ys)"
  by (cases "n \<le> length xs") simp_all

lemma bulk_push_whole:
  assumes "ring_inv r"
  obtains r' rc where "ringbuf_bulk_push r bs (length bs) = Inr (r', rc)" "ring_inv r'"
    "rb_max r' = rb_max r" "ring_contents r' = take (unat (rb_max r)) (ring_contents r @ bs)"
proof -
  have "ring_contents r @ take (min (length bs) (ring_room r)) bs =
      take (unat (rb_max r)) (ring_contents r @ bs)"
    using ring_len_bound [OF assms] by (simp add: ring_room_def min_def)
  then show thesis
    using bulk_push_contents [OF assms, of "length bs" bs] that by auto
qed

lemma recvbytes_loop_ok:
  assumes "ring_inv r" and "bufsize \<le> INT_MAX" and "tot \<le> bufsize"
  shows "\<exists>es' r' rc got. recvbytes_loop es r bufsize tot = Inr (es', r', rc) \<and> ring_inv r' \<and>
    rb_max r' = rb_max r \<and> stream es = got @ stream es' \<and> tot + length got \<le> bufsize \<and>
    ring_contents r' = take (unat (rb_max r)) (ring_contents r @ got) \<and>
    (rc = -1 \<or> rc = 0 \<or> rc = int (tot + length got))"
  using assms
proof (induction es r bufsize tot rule: recvbytes_loop.induct)
  case (1 es r bufsize tot)
  have self: "take (unat (rb_max r)) (ring_contents r) = ring_contents r"
    using ring_len_bound [OF "1.prems"(1)] by simp
  note unf = recvbytes_loop.simps [of es r bufsize tot]
  show ?case
  proof (cases "tot < bufsize")
    case False
    then have "recvbytes_loop es r bufsize tot = Inr (es, r, int tot)"
      by (simp add: unf)
    with "1.prems" self show ?thesis
      by (intro exI [of _ es] exI [of _ r] exI [of _ "int tot"] exI [of _ "[]"]) simp
  next
    case True
    obtain res es1 where rv: "recv es (bufsize - tot) = (res, es1)"
      by fastforce
    show ?thesis
    proof (cases res)
      case (Got bs)
      note st = recv_stream [OF rv [unfolded Got]]
      show ?thesis
      proof (cases "bs = []")
        case True
        with st rv Got \<open>tot < bufsize\<close> "1.prems" self show ?thesis
          by (auto simp: unf)
      next
        case False
        obtain r1 rc1 where r1: "ringbuf_bulk_push r bs (length bs) = Inr (r1, rc1)" "ring_inv r1"
            "rb_max r1 = rb_max r" "ring_contents r1 = take (unat (rb_max r)) (ring_contents r @ bs)"
          by (rule bulk_push_whole [OF "1.prems"(1)])
        have tot: "tot + length bs \<le> bufsize"
          using st(2) \<open>tot < bufsize\<close> by simp
        then have g: "guardR (tot + length bs \<le> INT_MAX) SignedOverflow = Inr ()"
          using "1.prems"(2) by simp
        from "1.IH" [OF \<open>tot < bufsize\<close> rv [unfolded Got, symmetric] refl False r1(1) refl g r1(2) "1.prems"(2) tot]
        obtain es' r' rc got where IH: "recvbytes_loop es1 r1 bufsize (tot + length bs) = Inr (es', r', rc)"
            "ring_inv r'" "rb_max r' = rb_max r1" "stream es1 = got @ stream es'"
            "tot + length bs + length got \<le> bufsize"
            "ring_contents r' = take (unat (rb_max r1)) (ring_contents r1 @ got)"
            "rc = -1 \<or> rc = 0 \<or> rc = int (tot + length bs + length got)"
          by auto
        have "recvbytes_loop es r bufsize tot = Inr (es', r', rc)"
          using \<open>tot < bufsize\<close> rv Got False r1(1) g IH(1) by (simp add: unf)
        moreover have "ring_contents r' = take (unat (rb_max r)) (ring_contents r @ bs @ got)"
          using IH(6) r1(3,4) take_append_take [of "unat (rb_max r)" "ring_contents r @ bs" got] by simp
        ultimately show ?thesis
          using IH r1 st(1) by (intro exI [of _ es'] exI [of _ r'] exI [of _ rc] exI [of _ "bs @ got"]) auto
      qed
    next
      case Again
      with rv True "1.prems" self recv_no_data [of es "bufsize - tot" es1] show ?thesis
        by (auto simp: unf)
    next
      case Failed
      with rv True "1.prems" self recv_no_data [of es "bufsize - tot" es1] show ?thesis
        by (auto simp: unf)
    qed
  qed
qed

text \<open>When the whole request has arrived in one chunk, one call delivers it.\<close>

lemma recvbytes_chunk:
  assumes "ring_inv r" and "0 < n" and "n \<le> length bs" and "n \<le> ring_room r" and "n \<le> INT_MAX"
  obtains r' where "recvbytes (Chunk bs # es) r n =
      Inr (if length bs = n then es else Chunk (drop n bs) # es, r', int n)"
    "ring_inv r'" "rb_max r' = rb_max r" "ring_contents r' = ring_contents r @ take n bs"
proof -
  obtain r' where r': "ringbuf_bulk_push r (take n bs) n = Inr (r', 0)" "ring_inv r'"
      "rb_max r' = rb_max r" "ring_contents r' = ring_contents r @ take n bs"
    using bulk_push_contents [OF assms(1), of n "take n bs"] assms(3,4)
    by (auto simp: min_absorb1 min_absorb2)
  have "recvbytes_loop es' r' n n = Inr (es', r', int n)" for es'
    by (simp add: recvbytes_loop.simps)
  moreover have "bs \<noteq> []" "take n bs \<noteq> []"
    using assms(2,3) by auto
  ultimately have "recvbytes (Chunk bs # es) r n =
      Inr (if length bs = n then es else Chunk (drop n bs) # es, r', int n)"
    unfolding recvbytes_def
    using assms r'(1) by (subst recvbytes_loop.simps) (auto simp: min_absorb2)
  with r' show thesis
    by (intro that)
qed

section \<open>Sockets\<close>

text \<open>
  The set-up functions over the outcomes of the system calls they make.  A descriptor is an
  \<open>int\<close>, a failed call returns \<open>-1\<close>; the functions return the list of open descriptors next to
  their result, so that a leaked or prematurely closed socket shows.
\<close>

definition O_NONBLOCK :: u32 where
  "O_NONBLOCK = 0x800"

text \<open>
  \<open>getfl\<close> is the outcome of \<open>fcntl(fd, F_GETFL, 0)\<close> (\<open>None\<close> for a failure) and \<open>setfl\<close> tells
  whether \<open>F_SETFL\<close> accepts the flags; the second component are the flags in force at the end.
\<close>

definition set_nonblocking :: "u32 option \<Rightarrow> (u32 \<Rightarrow> bool) \<Rightarrow> int \<times> u32 option" where
  "set_nonblocking getfl setfl =
     (case getfl of
        None \<Rightarrow> (-1, None)
      | Some flags \<Rightarrow> if setfl (flags OR O_NONBLOCK) then (0, Some (flags OR O_NONBLOCK)) else (-1, Some flags))"

text \<open>One entry of the list \<open>getaddrinfo\<close> returns: the outcomes of \<open>socket\<close> and of \<open>bind\<close> on it.\<close>

record addr_outcome =
  ao_socket :: int
  ao_bind :: bool

text \<open>The loop over the addresses: the open descriptors, and \<open>Some sfd\<close> when \<open>rp \<noteq> NULL\<close> at the end.\<close>

fun bind_loop :: "addr_outcome list \<Rightarrow> int list \<Rightarrow> int list \<times> int option" where
  "bind_loop [] fds = (fds, None)"
| "bind_loop (rp # rps) fds =
     (let sfd = ao_socket rp in
      if sfd = -1 then bind_loop rps fds
      else if ao_bind rp then (sfd # fds, Some sfd)
      else bind_loop rps (remove1 sfd (sfd # fds)))"

text \<open>\<open>getaddrinfo\<close> fails (\<open>None\<close>) or returns a list.\<close>

definition create_and_bind :: "addr_outcome list option \<Rightarrow> int list \<Rightarrow> int list \<times> int" where
  "create_and_bind res fds =
     (case res of
        None \<Rightarrow> (fds, -1)
      | Some rps \<Rightarrow> (case bind_loop rps fds of (fds', None) \<Rightarrow> (fds', -1) | (fds', Some sfd) \<Rightarrow> (fds', sfd)))"

text \<open>\<open>abort()\<close> on every failure.\<close>

definition make_listen ::
  "addr_outcome list option \<Rightarrow> u32 option \<Rightarrow> (u32 \<Rightarrow> bool) \<Rightarrow> bool \<Rightarrow> int list \<Rightarrow> cerr + (int list \<times> int \<times> u32 option)" where
  "make_listen res getfl setfl listens fds =
     (let (fds1, sfd) = create_and_bind res fds in
      bindR (guardR (sfd \<noteq> -1) AssertFailed) (\<lambda>_.
      let (rc, flags) = set_nonblocking getfl setfl in
      bindR (guardR (rc \<noteq> -1) AssertFailed) (\<lambda>_.
      bindR (guardR listens AssertFailed) (\<lambda>_.
      Inr (fds1, sfd, flags)))))"

text \<open>
  \<open>sock\<close> is the outcome of \<open>socket\<close>, \<open>host\<close> whether \<open>gethostbyname\<close> finds the host, \<open>conn\<close>
  whether \<open>connect\<close> succeeds (it fails on a negative descriptor).
\<close>

definition make_connection :: "int \<Rightarrow> bool \<Rightarrow> bool \<Rightarrow> int list \<Rightarrow> cerr + (int list \<times> int)" where
  "make_connection sock host conn fds =
     (let fds1 = (if sock < 0 then fds else sock # fds) in
      bindR (guardR host ExitFailure) (\<lambda>_.
      if sock < 0 \<or> \<not> conn then Inr (fds1, -1) else Inr (fds1, sock)))"

text \<open>
  \<open>acc\<close> is the outcome of \<open>accept\<close>, \<open>ntop\<close> whether \<open>inet_ntop\<close> succeeds; the result of
  \<open>set_nonblocking\<close> is ignored, as in the source.
\<close>

definition accept_connection ::
  "int \<Rightarrow> u32 option \<Rightarrow> (u32 \<Rightarrow> bool) \<Rightarrow> bool \<Rightarrow> int list \<Rightarrow> int list \<times> int \<times> u32 option" where
  "accept_connection acc getfl setfl ntop fds =
     (if acc < 0 then (fds, -1, None)
      else let fds1 = acc # fds; (rc, flags) = set_nonblocking getfl setfl in
        if \<not> ntop then (remove1 acc fds1, -1, None) else (fds1, acc, flags))"

lemma bind_loop_fds:
  assumes "\<forall>rp\<in>set rps. -1 \<le> ao_socket rp"
  shows "case bind_loop rps fds of (fds', None) \<Rightarrow> fds' = fds
    | (fds', Some sfd) \<Rightarrow> fds' = sfd # fds \<and> 0 \<le> sfd \<and> (\<exists>rp\<in>set rps. ao_socket rp = sfd \<and> ao_bind rp)"
  using assms
proof (induction rps arbitrary: fds)
  case (Cons rp rps)
  then have "case bind_loop rps fds of (fds', None) \<Rightarrow> fds' = fds
    | (fds', Some sfd) \<Rightarrow> fds' = sfd # fds \<and> 0 \<le> sfd \<and> (\<exists>rp\<in>set rps. ao_socket rp = sfd \<and> ao_bind rp)"
    by simp
  moreover have "ao_socket rp = -1 \<or> 0 \<le> ao_socket rp"
    using Cons.prems by force
  ultimately show ?case
    by (auto simp: Let_def split: prod.splits option.splits)
qed simp

lemma nonblocking_flag: "bit (flags OR O_NONBLOCK) 11"
  by (simp add: O_NONBLOCK_def bit_simps)

section \<open>Epoll\<close>

text \<open>
  An epoll instance: for every registered descriptor the event mask and the data word.  The
  data is a union of the descriptor and a pointer.  A one-shot registration that has fired keeps
  its entry with an empty mask until \<open>EPOLL_CTL_MOD\<close> arms it again; closing a descriptor
  removes its entry.
\<close>

datatype 'd ep_data = EpFd int | EpPtr 'd

type_synonym 'd epoll = "int \<rightharpoonup> (u32 \<times> 'd ep_data)"

definition EPOLLIN :: u32 where "EPOLLIN = 0x001"
definition EPOLLOUT :: u32 where "EPOLLOUT = 0x004"
definition EPOLLERR :: u32 where "EPOLLERR = 0x008"
definition EPOLLHUP :: u32 where "EPOLLHUP = 0x010"
definition EPOLLONESHOT :: u32 where "EPOLLONESHOT = 0x40000000"
definition EPOLLET :: u32 where "EPOLLET = 0x80000000"

lemmas epoll_masks = EPOLLIN_def EPOLLOUT_def EPOLLERR_def EPOLLHUP_def EPOLLONESHOT_def EPOLLET_def

definition ep_union :: "int \<Rightarrow> 'd option \<Rightarrow> 'd ep_data" where
  "ep_union fd data = (case data of None \<Rightarrow> EpFd fd | Some p \<Rightarrow> EpPtr p)"

text \<open>\<open>EPOLL_CTL_ADD\<close> fails on a registered descriptor, \<open>MOD\<close> and \<open>DEL\<close> on one that is not;
  the three functions only report the failure.\<close>

definition add_epoll :: "'d epoll \<Rightarrow> int \<Rightarrow> 'd option \<Rightarrow> 'd epoll" where
  "add_epoll ep fd data =
     (if fd \<in> dom ep then ep
      else ep(fd \<mapsto> (EPOLLIN OR EPOLLET OR EPOLLONESHOT, ep_union fd data)))"

definition mod_epoll :: "'d epoll \<Rightarrow> int \<Rightarrow> u32 \<Rightarrow> 'd option \<Rightarrow> 'd epoll" where
  "mod_epoll ep fd evs data =
     (if fd \<in> dom ep then ep(fd \<mapsto> (evs OR EPOLLET OR EPOLLONESHOT, ep_union fd data)) else ep)"

definition del_epoll :: "'d epoll \<Rightarrow> int \<Rightarrow> 'd epoll" where
  "del_epoll ep fd = ep(fd := None)"

text \<open>
  \<open>armed ep fd ev\<close>: an event \<open>ev\<close> on \<open>fd\<close> would be reported.  \<open>ep_fire\<close> is the kernel's step
  when it reports an event: a one-shot registration is disarmed.
\<close>

definition armed :: "'d epoll \<Rightarrow> int \<Rightarrow> u32 \<Rightarrow> bool" where
  "armed ep fd ev = (case ep fd of None \<Rightarrow> False | Some (evs, _) \<Rightarrow> evs AND ev \<noteq> 0)"

definition ep_fire :: "'d epoll \<Rightarrow> int \<Rightarrow> 'd epoll" where
  "ep_fire ep fd = (case ep fd of
     None \<Rightarrow> ep
   | Some (evs, d) \<Rightarrow> if evs AND EPOLLONESHOT \<noteq> 0 then ep(fd \<mapsto> (0, d)) else ep)"

lemma armed_fire: "evs AND EPOLLONESHOT \<noteq> 0 \<Longrightarrow> ep fd = Some (evs, d) \<Longrightarrow> \<not> armed (ep_fire ep fd) fd ev"
  by (simp add: armed_def ep_fire_def)

lemma armed_fire_other [simp]: "fd' \<noteq> fd \<Longrightarrow> armed (ep_fire ep fd) fd' ev = armed ep fd' ev"
  by (auto simp: armed_def ep_fire_def split: option.splits)

lemma armed_mod_in [simp]: "armed (mod_epoll ep fd EPOLLIN d) fd EPOLLIN \<longleftrightarrow> fd \<in> dom ep"
  by (auto simp: armed_def mod_epoll_def epoll_masks domIff split: option.splits)

lemma armed_mod_out [simp]: "armed (mod_epoll ep fd EPOLLOUT d) fd EPOLLOUT \<longleftrightarrow> fd \<in> dom ep"
  by (auto simp: armed_def mod_epoll_def epoll_masks domIff split: option.splits)

lemma armed_mod_other [simp]: "fd' \<noteq> fd \<Longrightarrow> armed (mod_epoll ep fd evs d) fd' ev = armed ep fd' ev"
  by (auto simp: armed_def mod_epoll_def)

lemma dom_mod [simp]: "dom (mod_epoll ep fd evs d) = dom ep"
  by (auto simp: mod_epoll_def)

lemma dom_fire [simp]: "dom (ep_fire ep fd) = dom ep"
  by (auto simp: ep_fire_def domIff split: option.splits)

section \<open>Properties\<close>

text \<open>
  \<open>htonll\<close> and \<open>ntohll\<close> are inverse: reading back the eight bytes written for a number gives
  the number, whatever follows them, and writing the number read from a block gives back its
  first eight bytes.\<close>

theorem htonll_roundtrip:
  "ntohll (htonll num @ rest) = Inr num \<and> (ntohll bs = Inr m \<longrightarrow> htonll m = take 8 bs)"
  using ntohll_htonll htonll_ntohll by simp

lemma htonll_roundtrip_witness:
  "ntohll [0, 0, 0, 0, 0, 0, 1, 2, 9] = Inr 258 \<and> htonll 258 = [0, 0, 0, 0, 0, 0, 1, 2]"
  using htonll_roundtrip [of 258 "[9]" "[0, 0, 0, 0, 0, 0, 1, 2, 9]" 258] by simp

text \<open>
  C37: For a buffer of at least \<open>len\<close> bytes, at most \<open>INT_MAX\<close>, \<open>sendall\<close> returns, whatever the kernel does: it has put
  a prefix of the buffer on the wire, \<open>*sent\<close> is its length, the return code is \<open>0\<close> exactly when
  that is all \<open>len\<close> bytes and \<open>-1\<close> otherwise, and a kernel that accepts at least one byte per call
  lets it send everything.\<close>

theorem sendall_correct:
  assumes "len \<le> length buf" and "len \<le> INT_MAX"
  shows "\<exists>evs' sent rc. sendall evs buf len = Inr (evs', take sent buf, sent, rc) \<and> sent \<le> len \<and>
    rc = (if sent = len then 0 else -1) \<and>
    (len \<le> length evs \<and> (\<forall>ev\<in>set evs. \<exists>k. ev = Accept (Suc k)) \<longrightarrow> sent = len)"
proof (cases "len \<le> length evs \<and> (\<forall>ev\<in>set evs. \<exists>k. ev = Accept (Suc k))")
  case True
  with sendall_loop_complete [of len buf 0 evs 0] assms show ?thesis
    by (auto simp: sendall_def)
next
  case False
  obtain evs' t rc where "sendall evs buf len = Inr (evs', take t buf, t, rc)" "t \<le> len"
    "rc = (if t < len then -1 else 0)"
    by (rule sendall_ok [OF assms])
  with False show ?thesis
    by auto
qed

lemma sendall_correct_witness:
  "\<exists>evs' sent rc. sendall [Accept 2, SendAgain] [1, 2, 3] 3 = Inr (evs', take sent [1, 2, 3], sent, rc) \<and> sent \<le> 3 \<and>
    rc = (if sent = 3 then 0 else -1)"
  using sendall_correct [of 3 "[1, 2, 3]" "[Accept 2, SendAgain]"] by auto

text \<open>
  \<open>recvbytes\<close> returns on every input script without a memory error; what it takes from the
  socket is the next part of the byte stream, at most \<open>bufsize\<close> bytes of it, and the ring buffer
  then holds its old contents followed by these bytes in order, cut off at the capacity (bytes
  that do not fit are lost: the status of the bulk push is not looked at).\<close>

theorem recvbytes_in_order:
  assumes "ring_inv r" and "bufsize \<le> INT_MAX"
  shows "\<exists>es' r' rc got. recvbytes es r bufsize = Inr (es', r', rc) \<and> ring_inv r' \<and>
    stream es = got @ stream es' \<and> length got \<le> bufsize \<and>
    ring_contents r' = take (unat (rb_max r)) (ring_contents r @ got) \<and>
    (rc = -1 \<or> rc = 0 \<or> rc = int (length got))"
  using recvbytes_loop_ok [OF assms, of 0 es] unfolding recvbytes_def by fastforce

lemma recvbytes_in_order_witness:
  "\<exists>es' r' rc got. recvbytes [Chunk [1, 2], RecvAgain, Chunk [3]] ring3 5 = Inr (es', r', rc) \<and> ring_inv r' \<and>
    [1, 2, 3] = got @ stream es' \<and> length got \<le> 5 \<and>
    ring_contents r' = take (unat (rb_max ring3)) (ring_contents ring3 @ got) \<and>
    (rc = -1 \<or> rc = 0 \<or> rc = int (length got))"
  using recvbytes_in_order [OF ring3_inv, of 5 "[Chunk [1, 2], RecvAgain, Chunk [3]]"] by simp

text \<open>
  \<open>create_and_bind\<close> returns a descriptor only for an address on which \<open>bind\<close> succeeded, and
  then that socket is the only one it leaves open; when it fails it leaves no socket open.\<close>

theorem create_and_bind_no_leak:
  assumes "\<forall>rps rp. res = Some rps \<longrightarrow> rp \<in> set rps \<longrightarrow> -1 \<le> ao_socket rp"
  shows "create_and_bind res fds = (fds, -1) \<or>
    (\<exists>sfd rps. create_and_bind res fds = (sfd # fds, sfd) \<and> 0 \<le> sfd \<and> res = Some rps \<and>
      (\<exists>rp\<in>set rps. ao_socket rp = sfd \<and> ao_bind rp))"
proof (cases res)
  case (Some rps)
  with assms bind_loop_fds [of rps fds] show ?thesis
    by (auto simp: create_and_bind_def split: prod.splits option.splits)
qed (simp add: create_and_bind_def)

definition two_addrs :: "addr_outcome list" where
  "two_addrs = [\<lparr>ao_socket = 4, ao_bind = False\<rparr>, \<lparr>ao_socket = 5, ao_bind = True\<rparr>]"

lemma create_and_bind_no_leak_witness:
  "create_and_bind (Some two_addrs) [3] = (5 # [3], 5) \<and> create_and_bind (Some two_addrs) [3] \<noteq> ([3], -1)"
  using create_and_bind_no_leak [of "Some two_addrs" "[3]"] by (auto simp: two_addrs_def create_and_bind_def)

text \<open>
  One-shot registration: when a descriptor has been added and its event reported, no further
  event on it is reported until \<open>mod_epoll\<close> arms it again, and \<open>mod_epoll\<close> has no effect on a
  descriptor that is not registered, for example one that was closed.\<close>

theorem epoll_oneshot:
  assumes "fd \<notin> dom ep"
  shows "armed (add_epoll ep fd d) fd EPOLLIN \<and>
    (\<forall>ev. \<not> armed (ep_fire (add_epoll ep fd d) fd) fd ev) \<and>
    armed (mod_epoll (ep_fire (add_epoll ep fd d) fd) fd EPOLLIN d) fd EPOLLIN \<and>
    mod_epoll (del_epoll (add_epoll ep fd d) fd) fd EPOLLIN d = ep"
  using assms by (auto simp: armed_def add_epoll_def ep_fire_def del_epoll_def mod_epoll_def epoll_masks fun_eq_iff)

lemma epoll_oneshot_witness: "armed (add_epoll (\<lambda>_. None) 7 (Some ())) 7 EPOLLIN"
  using epoll_oneshot [of 7 "\<lambda>_. None" "Some ()"] by simp

end
