(* ===== verification/Sz_Protocol.thy ===== *)
theory Sz_Protocol
  imports Sz_Network Sz_Heap
begin

text \<open>
  The wire protocol of \<^verbatim>\<open>protocol.c\<close>: byte buffers with a cursor, the packets, their
  constructors, and packing and unpacking.  Reads and writes are checked against the block
  the buffer owns, so a cursor that leaves it shows as \<open>OutOfBounds\<close>; the buffer's own
  \<open>size\<close> field is never compared with the cursor, as in the source.

  Strings are NUL-terminated blocks.  The boolean arguments called \<open>m\<close> say whether the
  allocations of the function succeed.
\<close>

section \<open>Codes\<close>

definition CONNECT :: u8 where "CONNECT = 0x10"
definition CONNACK :: u8 where "CONNACK = 0x20"
definition PUBLISH :: u8 where "PUBLISH = 0x30"
definition PUBACK :: u8 where "PUBACK = 0x40"
definition PUBREC :: u8 where "PUBREC = 0x50"
definition SUBSCRIBE :: u8 where "SUBSCRIBE = 0x80"
definition SUBACK :: u8 where "SUBACK = 0x90"
definition UNSUBSCRIBE :: u8 where "UNSUBSCRIBE = 0xA0"
definition UNSUBACK :: u8 where "UNSUBACK = 0xB0"
definition PINGREQ :: u8 where "PINGREQ = 0xC0"
definition PINGRESP :: u8 where "PINGRESP = 0xD0"
definition DISCONNECT :: u8 where "DISCONNECT = 0xF0"

lemmas opcodes = CONNECT_def CONNACK_def PUBLISH_def PUBACK_def PUBREC_def SUBSCRIBE_def SUBACK_def
  UNSUBSCRIBE_def UNSUBACK_def PINGREQ_def PINGRESP_def DISCONNECT_def

abbreviation EOOM :: int where "EOOM \<equiv> 1"

definition HEADERLEN :: nat where "HEADERLEN = 1 + 4"

text \<open>The byte order of the host; no lemma depends on it.\<close>

definition HOST :: endian where "HOST = LittleEndian"

section \<open>Buffers\<close>

record buffer =
  b_size :: size_t
  b_pos :: size_t
  b_data :: block

text \<open>
  \<open>junk\<close> is what the memory returned by \<open>malloc\<close> happens to contain.  The source stores into
  \<open>b\<close> before it checks it.
\<close>

definition buffer_init :: "bool \<Rightarrow> bool \<Rightarrow> (nat \<Rightarrow> u8) \<Rightarrow> size_t \<Rightarrow> cerr + buffer" where
  "buffer_init mb md junk len =
     bindR (guardR mb NullDeref) (\<lambda>_.
     bindR (guardR md ExitFailure) (\<lambda>_.
     Inr \<lparr>b_size = len, b_pos = 0, b_data = map junk [0..<unat len]\<rparr>))"

definition buffer_destroy :: "buffer option \<Rightarrow> cerr + unit" where
  "buffer_destroy b = guardR (b \<noteq> None) AssertFailed"

abbreviation at :: "buffer \<Rightarrow> nat" where "at b \<equiv> unat (b_pos b)"

definition read_uint8 :: "buffer \<Rightarrow> cerr + (u8 \<times> buffer)" where
  "read_uint8 b =
     bindR (rd (b_data b) (at b)) (\<lambda>val. Inr (val, b\<lparr>b_pos := b_pos b + 1\<rparr>))"

definition read_uint16 :: "buffer \<Rightarrow> cerr + (u16 \<times> buffer)" where
  "read_uint16 b =
     bindR (rd_block (b_data b) (at b) 2) (\<lambda>bs.
     Inr (ntohs HOST (load16 HOST (bs ! 0) (bs ! 1)), b\<lparr>b_pos := b_pos b + 2\<rparr>))"

definition read_uint32 :: "buffer \<Rightarrow> cerr + (u32 \<times> buffer)" where
  "read_uint32 b =
     bindR (rd_block (b_data b) (at b) 4) (\<lambda>bs.
     Inr (ntohl HOST (load32 HOST (bs ! 0) (bs ! 1) (bs ! 2) (bs ! 3)), b\<lparr>b_pos := b_pos b + 4\<rparr>))"

definition read_uint64 :: "buffer \<Rightarrow> cerr + (u64 \<times> buffer)" where
  "read_uint64 b =
     bindR (ntohll (drop (at b) (b_data b))) (\<lambda>val. Inr (val, b\<lparr>b_pos := b_pos b + 8\<rparr>))"

definition read_string :: "buffer \<Rightarrow> nat \<Rightarrow> cerr + (block \<times> buffer)" where
  "read_string b len =
     bindR (rd_block (b_data b) (at b) len) (\<lambda>bs.
     Inr (bs @ [0], b\<lparr>b_pos := b_pos b + of_nat len\<rparr>))"

text \<open>A store of \<open>n\<close> bytes at the cursor, which then moves behind them.\<close>

definition write_bytes :: "buffer \<Rightarrow> block \<Rightarrow> cerr + buffer" where
  "write_bytes b bs =
     bindR (wr_block (b_data b) (at b) bs) (\<lambda>d.
     Inr (b\<lparr>b_data := d, b_pos := b_pos b + of_nat (length bs)\<rparr>))"

definition write_uint8 :: "buffer \<Rightarrow> u8 \<Rightarrow> cerr + buffer" where
  "write_uint8 b val = write_bytes b [val]"

definition write_uint16 :: "buffer \<Rightarrow> u16 \<Rightarrow> cerr + buffer" where
  "write_uint16 b val = write_bytes b (store16 HOST (htons HOST val))"

definition write_uint32 :: "buffer \<Rightarrow> u32 \<Rightarrow> cerr + buffer" where
  "write_uint32 b val = write_bytes b (store32 HOST (htonl HOST val))"

definition write_uint64 :: "buffer \<Rightarrow> u64 \<Rightarrow> cerr + buffer" where
  "write_uint64 b val = write_bytes b (htonll val)"

definition write_string :: "buffer \<Rightarrow> block \<Rightarrow> cerr + buffer" where
  "write_string b str =
     bindR (c_strlen str) (\<lambda>len. write_bytes b (take len str))"

definition advance_pos :: "buffer option \<Rightarrow> size_t \<Rightarrow> cerr + buffer" where
  "advance_pos bo offset =
     (case bo of None \<Rightarrow> Inl AssertFailed
      | Some b \<Rightarrow>
          bindR (guardR (b_pos b + offset \<le> b_size b) AssertFailed) (\<lambda>_.
          Inr (b\<lparr>b_pos := b_pos b + offset\<rparr>)))"

section \<open>Packets\<close>

record header =
  hd_opcode :: u8
  hd_size :: u32

record connect =
  cn_header :: header
  cn_idlen :: u16
  cn_id :: block
  cn_keepalive :: u16
  cn_clean_session :: u8

record subscribe =
  sb_header :: header
  sb_topic_len :: u16
  sb_qos :: u8
  sb_topic :: block

record unsubscribe =
  us_header :: header
  us_topic_len :: u16
  us_topic :: block

record publish =
  pb_header :: header
  pb_topic_len :: u16
  pb_message_len :: u32
  pb_qos :: u8
  pb_retain :: u8
  pb_dup :: u8
  pb_topic :: block
  pb_message :: block

record ack =
  ak_header :: header
  ak_id :: u16
  ak_rc :: u8

subsection \<open>Unpacking\<close>

text \<open>
  The result of an unpack function is the buffer with the cursor moved, the packet, and the
  return code; with \<open>-EOOM\<close> the packet's fields stay uninitialised (\<open>None\<close>).
\<close>

definition unpack_header :: "buffer \<Rightarrow> cerr + (header \<times> buffer)" where
  "unpack_header b =
     bindR (read_uint8 b) (\<lambda>(opc, b).
     bindR (read_uint32 b) (\<lambda>(sz, b).
     Inr (\<lparr>hd_opcode = opc, hd_size = sz\<rparr>, b)))"

definition unpack_connect :: "bool \<Rightarrow> buffer \<Rightarrow> cerr + (buffer \<times> connect option \<times> int)" where
  "unpack_connect m b =
     (if \<not> m then Inr (b, None, - EOOM)
      else
        bindR (unpack_header b) (\<lambda>(h, b).
        bindR (read_uint16 b) (\<lambda>(idlen, b).
        bindR (read_uint8 b) (\<lambda>(clean, b).
        bindR (read_uint16 b) (\<lambda>(ka, b).
        bindR (read_string b (unat idlen)) (\<lambda>(ident, b).
        Inr (b, Some \<lparr>cn_header = h, cn_idlen = idlen, cn_id = ident, cn_keepalive = ka,
          cn_clean_session = clean\<rparr>, 0)))))))"

definition unpack_subscribe :: "bool \<Rightarrow> buffer \<Rightarrow> cerr + (buffer \<times> subscribe option \<times> int)" where
  "unpack_subscribe m b =
     (if \<not> m then Inr (b, None, - EOOM)
      else
        bindR (unpack_header b) (\<lambda>(h, b).
        bindR (read_uint16 b) (\<lambda>(tlen, b).
        bindR (read_uint8 b) (\<lambda>(qos, b).
        bindR (read_string b (unat tlen)) (\<lambda>(topic, b).
        Inr (b, Some \<lparr>sb_header = h, sb_topic_len = tlen, sb_qos = qos, sb_topic = topic\<rparr>, 0))))))"

definition unpack_unsubscribe :: "bool \<Rightarrow> buffer \<Rightarrow> cerr + (buffer \<times> unsubscribe option \<times> int)" where
  "unpack_unsubscribe m b =
     (if \<not> m then Inr (b, None, - EOOM)
      else
        bindR (unpack_header b) (\<lambda>(h, b).
        bindR (read_uint16 b) (\<lambda>(tlen, b).
        bindR (read_string b (unat tlen)) (\<lambda>(topic, b).
        Inr (b, Some \<lparr>us_header = h, us_topic_len = tlen, us_topic = topic\<rparr>, 0)))))"

definition unpack_publish :: "bool \<Rightarrow> buffer \<Rightarrow> cerr + (buffer \<times> publish option \<times> int)" where
  "unpack_publish m b =
     (if \<not> m then Inr (b, None, - EOOM)
      else
        bindR (unpack_header b) (\<lambda>(h, b).
        bindR (read_uint16 b) (\<lambda>(tlen, b).
        bindR (read_uint32 b) (\<lambda>(mlen, b).
        bindR (read_uint8 b) (\<lambda>(qos, b).
        bindR (read_uint8 b) (\<lambda>(retain, b).
        bindR (read_uint8 b) (\<lambda>(dup, b).
        bindR (read_string b (unat tlen)) (\<lambda>(topic, b).
        bindR (read_string b (unat mlen)) (\<lambda>(message, b).
        Inr (b, Some \<lparr>pb_header = h, pb_topic_len = tlen, pb_message_len = mlen, pb_qos = qos,
          pb_retain = retain, pb_dup = dup, pb_topic = topic, pb_message = message\<rparr>, 0))))))))))"

definition unpack_ack :: "bool \<Rightarrow> buffer \<Rightarrow> cerr + (buffer \<times> ack option \<times> int)" where
  "unpack_ack m b =
     (if \<not> m then Inr (b, None, - EOOM)
      else
        bindR (unpack_header b) (\<lambda>(h, b).
        bindR (read_uint16 b) (\<lambda>(ident, b).
        bindR (read_uint8 b) (\<lambda>(rc, b).
        Inr (b, Some \<lparr>ak_header = h, ak_id = ident, ak_rc = rc\<rparr>, 0)))))"

subsection \<open>Constructors\<close>

text \<open>
  Lengths are computed as \<open>size_t\<close> and stored in the narrower fields, which truncates them.
\<close>

definition connect_pkt :: "bool \<Rightarrow> block option \<Rightarrow> u8 \<Rightarrow> u8 \<Rightarrow> cerr + connect" where
  "connect_pkt m ido keepalive clean_session =
     (case ido of None \<Rightarrow> Inl AssertFailed
      | Some ident \<Rightarrow>
          bindR (guardR m ExitFailure) (\<lambda>_.
          bindR (c_strlen ident) (\<lambda>n.
          Inr \<lparr>cn_header = \<lparr>hd_opcode = CONNECT, hd_size = of_nat (HEADERLEN + n + 2 * 2 + 2 * 1)\<rparr>,
            cn_idlen = of_nat n, cn_id = ident, cn_keepalive = ucast keepalive,
            cn_clean_session = clean_session\<rparr>)))"

definition subscribe_pkt :: "bool \<Rightarrow> block option \<Rightarrow> u8 \<Rightarrow> cerr + subscribe" where
  "subscribe_pkt m topico qos =
     (case topico of None \<Rightarrow> Inl AssertFailed
      | Some topic \<Rightarrow>
          bindR (guardR m ExitFailure) (\<lambda>_.
          bindR (c_strlen topic) (\<lambda>n.
          Inr \<lparr>sb_header = \<lparr>hd_opcode = SUBSCRIBE, hd_size = of_nat (HEADERLEN + n + 2 + 3 * 1)\<rparr>,
            sb_topic_len = of_nat n, sb_qos = qos, sb_topic = topic\<rparr>)))"

definition unsubscribe_pkt :: "bool \<Rightarrow> block option \<Rightarrow> cerr + unsubscribe" where
  "unsubscribe_pkt m topico =
     (case topico of None \<Rightarrow> Inl AssertFailed
      | Some topic \<Rightarrow>
          bindR (guardR m ExitFailure) (\<lambda>_.
          bindR (c_strlen topic) (\<lambda>n.
          Inr \<lparr>us_header = \<lparr>hd_opcode = UNSUBSCRIBE, hd_size = of_nat (HEADERLEN + n + 2 + 1)\<rparr>,
            us_topic_len = of_nat n, us_topic = topic\<rparr>)))"

definition publish_pkt ::
  "bool \<Rightarrow> block option \<Rightarrow> block option \<Rightarrow> u8 \<Rightarrow> u8 \<Rightarrow> u8 \<Rightarrow> cerr + publish" where
  "publish_pkt m topico messageo qos retain dup =
     (case (topico, messageo) of
        (Some topic, Some message) \<Rightarrow>
          bindR (guardR m ExitFailure) (\<lambda>_.
          bindR (c_strlen topic) (\<lambda>n.
          bindR (c_strlen message) (\<lambda>k.
          Inr \<lparr>pb_header = \<lparr>hd_opcode = PUBLISH, hd_size = of_nat (HEADERLEN + n + k + 2 + 4 + 5 * 1)\<rparr>,
            pb_topic_len = of_nat n, pb_message_len = of_nat k, pb_qos = qos, pb_retain = retain,
            pb_dup = dup, pb_topic = topic, pb_message = message\<rparr>)))
      | _ \<Rightarrow> Inl AssertFailed)"

definition ack_pkt :: "bool \<Rightarrow> u8 \<Rightarrow> u16 \<Rightarrow> u8 \<Rightarrow> cerr + ack" where
  "ack_pkt m opcode ident rc =
     bindR (guardR m ExitFailure) (\<lambda>_.
     Inr \<lparr>ak_header = \<lparr>hd_opcode = opcode, hd_size = of_nat (HEADERLEN + 2 + 1)\<rparr>, ak_id = ident, ak_rc = rc\<rparr>)"

subsection \<open>Packing\<close>

definition pack_header :: "header \<Rightarrow> buffer \<Rightarrow> cerr + buffer" where
  "pack_header h b =
     bindR (write_uint8 b (hd_opcode h)) (\<lambda>b. write_uint32 b (ucast (b_size b)))"

definition pack_connect :: "buffer \<Rightarrow> connect \<Rightarrow> cerr + buffer" where
  "pack_connect b pkt =
     bindR (pack_header (cn_header pkt) b) (\<lambda>b.
     bindR (c_strlen (cn_id pkt)) (\<lambda>n.
     bindR (write_uint16 b (of_nat n)) (\<lambda>b.
     bindR (write_string b (cn_id pkt)) (\<lambda>b.
     bindR (write_uint16 b (cn_keepalive pkt)) (\<lambda>b.
     write_uint8 b (cn_clean_session pkt))))))"

definition pack_subscribe :: "buffer \<Rightarrow> subscribe \<Rightarrow> cerr + buffer" where
  "pack_subscribe b pkt =
     bindR (pack_header (sb_header pkt) b) (\<lambda>b.
     bindR (c_strlen (sb_topic pkt)) (\<lambda>n.
     bindR (write_uint16 b (of_nat n)) (\<lambda>b.
     bindR (write_uint8 b (sb_qos pkt)) (\<lambda>b.
     write_string b (sb_topic pkt)))))"

definition pack_unsubscribe :: "buffer \<Rightarrow> unsubscribe \<Rightarrow> cerr + buffer" where
  "pack_unsubscribe b u =
     bindR (pack_header (us_header u) b) (\<lambda>b.
     bindR (write_uint16 b (us_topic_len u)) (\<lambda>b.
     write_string b (us_topic u)))"

definition pack_publish :: "buffer \<Rightarrow> publish \<Rightarrow> cerr + buffer" where
  "pack_publish b pkt =
     bindR (pack_header (pb_header pkt) b) (\<lambda>b.
     bindR (c_strlen (pb_topic pkt)) (\<lambda>n.
     bindR (write_uint16 b (of_nat n)) (\<lambda>b.
     bindR (c_strlen (pb_message pkt)) (\<lambda>k.
     bindR (write_uint32 b (of_nat k)) (\<lambda>b.
     bindR (write_uint8 b (pb_qos pkt)) (\<lambda>b.
     bindR (write_uint8 b (pb_retain pkt)) (\<lambda>b.
     bindR (write_uint8 b (pb_dup pkt)) (\<lambda>b.
     bindR (write_string b (pb_topic pkt)) (\<lambda>b.
     write_string b (pb_message pkt))))))))))"

definition pack_ack :: "buffer \<Rightarrow> ack \<Rightarrow> cerr + buffer" where
  "pack_ack b pkt =
     bindR (pack_header (ak_header pkt) b) (\<lambda>b.
     bindR (write_uint16 b (ak_id pkt)) (\<lambda>b.
     write_uint8 b (ak_rc pkt)))"

subsection \<open>Releasing\<close>

text \<open>
  A packet with its header and strings is one object of a packet heap.  The free functions take
  the address of a pointer, release the object and clear the pointer; a NULL pointer is left
  alone.  They reach the object through a pointer of its own type.
\<close>

datatype packet =
    PConnect connect | PSubscribe subscribe | PUnsubscribe unsubscribe | PPublish publish | PAck ack

definition free_packet :: "(packet \<Rightarrow> bool) \<Rightarrow> packet heap \<Rightarrow> ptr \<Rightarrow> cerr + (packet heap \<times> ptr)" where
  "free_packet kind h p =
     (if p = None then Inr (h, None)
      else bindR (h_load h p) (\<lambda>pkt.
        bindR (guardR (kind pkt) Dangling) (\<lambda>_.
        bindR (h_free h p) (\<lambda>h'. Inr (h', None)))))"

definition free_ack :: "packet heap \<Rightarrow> ptr \<Rightarrow> cerr + (packet heap \<times> ptr)" where
  "free_ack = free_packet (\<lambda>k. case k of PAck _ \<Rightarrow> True | _ \<Rightarrow> False)"

definition free_connect :: "packet heap \<Rightarrow> ptr \<Rightarrow> cerr + (packet heap \<times> ptr)" where
  "free_connect = free_packet (\<lambda>k. case k of PConnect _ \<Rightarrow> True | _ \<Rightarrow> False)"

definition free_publish :: "packet heap \<Rightarrow> ptr \<Rightarrow> cerr + (packet heap \<times> ptr)" where
  "free_publish = free_packet (\<lambda>k. case k of PPublish _ \<Rightarrow> True | _ \<Rightarrow> False)"

definition free_subscribe :: "packet heap \<Rightarrow> ptr \<Rightarrow> cerr + (packet heap \<times> ptr)" where
  "free_subscribe = free_packet (\<lambda>k. case k of PSubscribe _ \<Rightarrow> True | _ \<Rightarrow> False)"

definition free_unsubscribe :: "packet heap \<Rightarrow> ptr \<Rightarrow> cerr + (packet heap \<times> ptr)" where
  "free_unsubscribe = free_packet (\<lambda>k. case k of PUnsubscribe _ \<Rightarrow> True | _ \<Rightarrow> False)"

section \<open>Buffers as a prefix done and a rest to do\<close>

text \<open>
  \<open>buf_at sz pre rest\<close>: a buffer whose cursor stands between \<open>pre\<close> and \<open>rest\<close>.  The laws below
  say what each access does there; blocks are shorter than the address space.
\<close>

definition buf_at :: "size_t \<Rightarrow> block \<Rightarrow> block \<Rightarrow> buffer" where
  "buf_at sz pre rest = \<lparr>b_size = sz, b_pos = of_nat (length pre), b_data = pre @ rest\<rparr>"

abbreviation addressable :: "block \<Rightarrow> bool" where
  "addressable bs \<equiv> length bs < 2 ^ 64"

lemma buf_at_sel [simp]:
  "b_size (buf_at sz pre rest) = sz" "b_data (buf_at sz pre rest) = pre @ rest"
  by (simp_all add: buf_at_def)

lemma buf_at_pos: "addressable pre \<Longrightarrow> at (buf_at sz pre rest) = length pre"
  by (simp add: buf_at_def unat_of_nat_small)

lemma buf_at_rewind: "(buf_at sz pre rest)\<lparr>b_pos := 0\<rparr> = buf_at sz [] (pre @ rest)"
  by (simp add: buf_at_def)

lemma buf_at_step:
  assumes "k = length bs"
  shows "(buf_at sz pre (bs @ rest))\<lparr>b_pos := b_pos (buf_at sz pre (bs @ rest)) + of_nat k\<rparr> =
    buf_at sz (pre @ bs) rest"
  using assms by (simp add: buf_at_def)

lemma buffer_init_at:
  "buffer_init True True junk len = Inr (buf_at len [] (map junk [0..<unat len]))"
  by (simp add: buffer_init_def buf_at_def)

lemma length_store [simp]: "length (store16 e w) = 2" "length (store32 e v) = 4" "length (htonll u) = 8"
  by (simp_all add: store16_def store32_def htonll_def split: endian.split)

lemma write_bytes_at:
  assumes "addressable pre"
  shows "write_bytes (buf_at sz pre rest) bs =
    (if length bs \<le> length rest then Inr (buf_at sz (pre @ bs) (drop (length bs) rest)) else Inl OutOfBounds)"
  using assms buf_at_pos [of pre sz rest]
  by (simp add: write_bytes_def wr_block_def) (simp add: buf_at_def)

lemma read_uint8_at:
  assumes "addressable pre"
  shows "read_uint8 (buf_at sz pre (a # rest)) = Inr (a, buf_at sz (pre @ [a]) rest)"
  using assms buf_at_pos [of pre sz "a # rest"] by (simp add: read_uint8_def) (simp add: buf_at_def)

lemma read_uint16_at:
  assumes "addressable pre"
  shows "read_uint16 (buf_at sz pre (a # b # rest)) = Inr (load16 BigEndian a b, buf_at sz (pre @ [a, b]) rest)"
  using assms buf_at_pos [of pre sz "a # b # rest"]
  by (simp add: read_uint16_def rd_block_def ntohs_load16) (simp add: buf_at_def)

lemma read_uint32_at:
  assumes "addressable pre"
  shows "read_uint32 (buf_at sz pre (a # b # c # d # rest)) =
    Inr (load32 BigEndian a b c d, buf_at sz (pre @ [a, b, c, d]) rest)"
  using assms buf_at_pos [of pre sz "a # b # c # d # rest"]
  by (simp add: read_uint32_def rd_block_def ntohl_load32) (simp add: buf_at_def)

lemma read_string_at:
  assumes "addressable pre"
  shows "read_string (buf_at sz pre rest) n =
    (if n \<le> length rest then Inr (take n rest @ [0], buf_at sz (pre @ take n rest) (drop n rest))
     else Inl OutOfBounds)"
  using assms buf_at_pos [of pre sz rest]
  by (simp add: read_string_def rd_block_def) (simp add: buf_at_def)

lemma read_short:
  assumes "addressable pre"
  shows "rest = [] \<Longrightarrow> read_uint8 (buf_at sz pre rest) = Inl OutOfBounds"
    and "length rest < 2 \<Longrightarrow> read_uint16 (buf_at sz pre rest) = Inl OutOfBounds"
    and "length rest < 4 \<Longrightarrow> read_uint32 (buf_at sz pre rest) = Inl OutOfBounds"
  using assms buf_at_pos [of pre sz rest]
  by (auto simp: read_uint8_def read_uint16_def read_uint32_def rd_block_def)

section \<open>Scalar codecs\<close>

text \<open>
  The contract of a scalar on the wire: writing stores its encoding at the cursor or runs off the
  block; reading an encoding gives back the value and moves behind it.
\<close>

locale wire_codec =
  fixes put :: "buffer \<Rightarrow> 'a \<Rightarrow> cerr + buffer" and get :: "buffer \<Rightarrow> cerr + ('a \<times> buffer)"
    and enc :: "'a \<Rightarrow> block"
  assumes put_at: "addressable pre \<Longrightarrow> put (buf_at sz pre rest) x =
      (if length (enc x) \<le> length rest then Inr (buf_at sz (pre @ enc x) (drop (length (enc x)) rest))
       else Inl OutOfBounds)"
    and get_at: "addressable pre \<Longrightarrow>
      get (buf_at sz pre (enc x @ rest)) = Inr (x, buf_at sz (pre @ enc x) rest)"
begin

lemma put_get:
  assumes "addressable pre" and "length (enc x) \<le> length rest"
  shows "\<exists>b. put (buf_at sz pre rest) x = Inr b \<and>
    get (b\<lparr>b_pos := of_nat (length pre)\<rparr>) = Inr (x, b)"
proof -
  let ?b = "buf_at sz (pre @ enc x) (drop (length (enc x)) rest)"
  have "?b\<lparr>b_pos := of_nat (length pre)\<rparr> = buf_at sz pre (enc x @ drop (length (enc x)) rest)"
    by (simp add: buf_at_def)
  then show ?thesis
    using put_at [OF assms(1), of sz rest x] get_at [OF assms(1), of sz x "drop (length (enc x)) rest"] assms(2)
    by auto
qed

end

lemma store16_BigEndian_cons:
  obtains a b where "store16 BigEndian w = [a, b]" and "load16 BigEndian a b = w"
  using load_store16 [of BigEndian w] by (simp add: store16_def)

lemma store32_BigEndian_cons:
  obtains a b c d where "store32 BigEndian w = [a, b, c, d]" and "load32 BigEndian a b c d = w"
  using load_store32 [of BigEndian w] by (simp add: store32_def)

interpretation codec8: wire_codec write_uint8 read_uint8 "\<lambda>x. [x]"
  by unfold_locales (simp_all add: write_uint8_def write_bytes_at read_uint8_at)

interpretation codec16: wire_codec write_uint16 read_uint16 "store16 BigEndian"
proof
  show "read_uint16 (buf_at sz pre (store16 BigEndian x @ rest)) = Inr (x, buf_at sz (pre @ store16 BigEndian x) rest)"
    if "addressable pre" for pre sz x rest
    using that by (cases rule: store16_BigEndian_cons [of x]) (simp add: read_uint16_at)
qed (simp add: write_uint16_def store16_htons write_bytes_at)

interpretation codec32: wire_codec write_uint32 read_uint32 "store32 BigEndian"
proof
  show "read_uint32 (buf_at sz pre (store32 BigEndian x @ rest)) = Inr (x, buf_at sz (pre @ store32 BigEndian x) rest)"
    if "addressable pre" for pre sz x rest
    using that by (cases rule: store32_BigEndian_cons [of x]) (simp add: read_uint32_at)
qed (simp add: write_uint32_def store32_htonl write_bytes_at)

lemma read_uint64_at:
  assumes "addressable pre"
  shows "read_uint64 (buf_at sz pre (htonll x @ rest)) = Inr (x, buf_at sz (pre @ htonll x) rest)"
proof -
  have "drop (at (buf_at sz pre (htonll x @ rest))) (b_data (buf_at sz pre (htonll x @ rest))) = htonll x @ rest"
    unfolding buf_at_pos [OF assms] by simp
  then have "read_uint64 (buf_at sz pre (htonll x @ rest)) =
      Inr (x, (buf_at sz pre (htonll x @ rest))\<lparr>b_pos := b_pos (buf_at sz pre (htonll x @ rest)) + of_nat 8\<rparr>)"
    by (simp only: read_uint64_def ntohll_htonll bindR.simps of_nat_numeral)
  then show ?thesis
    by (simp only: buf_at_step [of 8 "htonll x"] length_store)
qed

interpretation codec64: wire_codec write_uint64 read_uint64 htonll
  by unfold_locales (simp_all only: write_uint64_def write_bytes_at read_uint64_at)

lemma write_string_at:
  assumes "addressable pre" and "0 \<in> set str"
  shows "write_string (buf_at sz pre rest) str =
    (if length (c_str str) \<le> length rest
     then Inr (buf_at sz (pre @ c_str str) (drop (length (c_str str)) rest)) else Inl OutOfBounds)"
proof -
  have "take (length (c_str str)) str = c_str str"
    unfolding c_str_def by (rule takeWhile_eq_take [symmetric])
  with assms show ?thesis
    by (simp only: write_string_def c_strlen_def if_True bindR.simps write_bytes_at)
qed

lemma read_string_exact:
  assumes "addressable pre" and "n = length s"
  shows "read_string (buf_at sz pre (s @ rest)) n = Inr (s @ [0], buf_at sz (pre @ s) rest)"
  using assms by (simp add: read_string_at)

lemmas wire_ops = codec8.put_at codec16.put_at codec32.put_at write_string_at
  codec8.get_at codec16.get_at codec32.get_at read_string_exact

section \<open>Packet formats\<close>

text \<open>
  The bytes of a packet as the pack functions lay them out, for a buffer of size \<open>sz\<close>.
\<close>

definition wire_header :: "size_t \<Rightarrow> header \<Rightarrow> block" where
  "wire_header sz h = hd_opcode h # store32 BigEndian (ucast sz)"

definition wire_connect :: "size_t \<Rightarrow> connect \<Rightarrow> block" where
  "wire_connect sz p = wire_header sz (cn_header p) @
     store16 BigEndian (of_nat (length (c_str (cn_id p)))) @ c_str (cn_id p) @
     store16 BigEndian (cn_keepalive p) @ [cn_clean_session p]"

definition wire_subscribe :: "size_t \<Rightarrow> subscribe \<Rightarrow> block" where
  "wire_subscribe sz p = wire_header sz (sb_header p) @
     store16 BigEndian (of_nat (length (c_str (sb_topic p)))) @ [sb_qos p] @ c_str (sb_topic p)"

definition wire_unsubscribe :: "size_t \<Rightarrow> unsubscribe \<Rightarrow> block" where
  "wire_unsubscribe sz p = wire_header sz (us_header p) @
     store16 BigEndian (us_topic_len p) @ c_str (us_topic p)"

definition wire_publish :: "size_t \<Rightarrow> publish \<Rightarrow> block" where
  "wire_publish sz p = wire_header sz (pb_header p) @
     store16 BigEndian (of_nat (length (c_str (pb_topic p)))) @
     store32 BigEndian (of_nat (length (c_str (pb_message p)))) @
     [pb_qos p] @ [pb_retain p] @ [pb_dup p] @ c_str (pb_topic p) @ c_str (pb_message p)"

definition wire_ack :: "size_t \<Rightarrow> ack \<Rightarrow> block" where
  "wire_ack sz p = wire_header sz (ak_header p) @ store16 BigEndian (ak_id p) @ [ak_rc p]"

lemmas wire_defs = wire_header_def wire_connect_def wire_subscribe_def wire_unsubscribe_def
  wire_publish_def wire_ack_def

text \<open>
  Packets whose strings are terminated and whose length fields agree with the strings.
\<close>

definition str_ok :: "nat \<Rightarrow> block \<Rightarrow> bool" where
  "str_ok n s \<longleftrightarrow> (\<exists>t. s = t @ [0] \<and> 0 \<notin> set t \<and> length t < n)"

definition subscribe_ok :: "subscribe \<Rightarrow> bool" where
  "subscribe_ok p \<longleftrightarrow> str_ok (2 ^ 16) (sb_topic p) \<and> sb_topic_len p = of_nat (length (c_str (sb_topic p)))"

definition unsubscribe_ok :: "unsubscribe \<Rightarrow> bool" where
  "unsubscribe_ok p \<longleftrightarrow> str_ok (2 ^ 16) (us_topic p) \<and> us_topic_len p = of_nat (length (c_str (us_topic p)))"

definition publish_ok :: "publish \<Rightarrow> bool" where
  "publish_ok p \<longleftrightarrow> str_ok (2 ^ 16) (pb_topic p) \<and> pb_topic_len p = of_nat (length (c_str (pb_topic p))) \<and>
     str_ok (2 ^ 32) (pb_message p) \<and> pb_message_len p = of_nat (length (c_str (pb_message p)))"

lemma str_okE:
  assumes "str_ok n s"
  obtains "c_str s @ [0] = s" "0 \<in> set s" "length (c_str s) < n"
  using assms by (auto simp: str_ok_def)

lemma pack_header_at:
  assumes "addressable pre" and "length pre + 5 < 2 ^ 64"
  shows "pack_header h (buf_at sz pre rest) =
    (if 5 \<le> length rest then Inr (buf_at sz (pre @ wire_header sz h) (drop 5 rest)) else Inl OutOfBounds)"
proof (cases rest)
  case (Cons x xs)
  then show ?thesis
    using assms by (simp add: pack_header_def codec8.put_at codec32.put_at wire_header_def)
qed (use assms in \<open>simp add: pack_header_def codec8.put_at\<close>)

lemma unpack_header_at:
  assumes "addressable pre" and "length pre + 5 < 2 ^ 64"
  shows "unpack_header (buf_at sz pre (wire_header n h @ rest)) =
    Inr (\<lparr>hd_opcode = hd_opcode h, hd_size = ucast n\<rparr>, buf_at sz (pre @ wire_header n h) rest)"
  using assms codec8.get_at [OF assms(1), of sz "hd_opcode h" "store32 BigEndian (ucast n) @ rest"]
    codec32.get_at [of "pre @ [hd_opcode h]" sz "ucast n" rest]
  by (simp add: unpack_header_def wire_header_def)

text \<open>
  The contract of a packet format.  \<open>resized\<close> is the packet with the size of the buffer in its
  header: packing writes the buffer's size, not the header's.
\<close>

locale packet_format =
  fixes pack :: "buffer \<Rightarrow> 'p \<Rightarrow> cerr + buffer"
    and unpack :: "bool \<Rightarrow> buffer \<Rightarrow> cerr + (buffer \<times> 'p option \<times> int)"
    and wire :: "size_t \<Rightarrow> 'p \<Rightarrow> block" and pkt_ok :: "'p \<Rightarrow> bool" and resized :: "size_t \<Rightarrow> 'p \<Rightarrow> 'p"
  assumes pack_wire: "pkt_ok p \<Longrightarrow> addressable junk \<Longrightarrow> length (wire sz p) \<le> length junk \<Longrightarrow>
      pack (buf_at sz [] junk) p = Inr (buf_at sz (wire sz p) (drop (length (wire sz p)) junk))"
    and unpack_wire: "pkt_ok p \<Longrightarrow> addressable (wire sz p @ rest) \<Longrightarrow>
      unpack True (buf_at sz [] (wire sz p @ rest)) = Inr (buf_at sz (wire sz p) rest, Some (resized sz p), 0)"
begin

text \<open>
  A buffer of sufficient size is packed without a memory error, holds the wire format followed by
  what the memory contained before, and unpacks to the packet.
\<close>

lemma pack_unpack:
  assumes "pkt_ok p" and "length (wire sz p) \<le> unat sz"
  shows "\<exists>b b1. buffer_init True True junk sz = Inr b \<and> pack b p = Inr b1 \<and>
    b_data b1 = wire sz p @ map junk [length (wire sz p)..<unat sz] \<and> b_size b1 = sz \<and>
    at b1 = length (wire sz p) \<and> unpack True (b1\<lparr>b_pos := 0\<rparr>) = Inr (b1, Some (resized sz p), 0)"
proof -
  let ?b1 = "buf_at sz (wire sz p) (map junk [length (wire sz p)..<unat sz])"
  have l: "unat sz < 2 ^ 64"
    using unat_bound [of sz] by simp
  have "pack (buf_at sz [] (map junk [0..<unat sz])) p = Inr ?b1"
    using pack_wire [of p "map junk [0..<unat sz]" sz] assms l by (simp add: drop_map)
  moreover have "unpack True (?b1\<lparr>b_pos := 0\<rparr>) =
      Inr (?b1, Some (resized sz p), 0)"
    unfolding buf_at_rewind using unpack_wire [of p sz] assms l by simp
  ultimately show ?thesis
    using assms(2) l by (auto simp: buffer_init_at buf_at_pos)
qed

end

lemma length_wire_header [simp]: "length (wire_header sz h) = 5"
  by (simp add: wire_header_def)

lemma of_nat_len [simp]:
  "n < 2 ^ 16 \<Longrightarrow> unat (of_nat n :: u16) = n" "n < 2 ^ 32 \<Longrightarrow> unat (of_nat n :: u32) = n"
  by (simp_all add: unat_of_nat_small)

lemma c_strlen_ok: "0 \<in> set s \<Longrightarrow> c_strlen s = Inr (length (c_str s))"
  by (simp add: c_strlen_def)

lemmas pack_simps = pack_header_at wire_ops c_strlen_ok Nat.le_diff_conv2 add.commute add.left_commute

lemmas unpack_simps = unpack_header_at read_uint8_at wire_ops of_nat_len

interpretation ack_fmt: packet_format pack_ack unpack_ack wire_ack "\<lambda>_. True"
  "\<lambda>sz p. p\<lparr>ak_header := (ak_header p)\<lparr>hd_size := ucast sz\<rparr>\<rparr>"
proof (unfold_locales, goal_cases)
  case (1 p junk sz)
  then show ?case
    by (simp add: pack_ack_def pack_simps wire_ack_def)
next
  case (2 p sz rest)
  then show ?case
    by (cases p) (simp add: unpack_ack_def unpack_simps wire_ack_def)
qed

interpretation subscribe_fmt: packet_format pack_subscribe unpack_subscribe wire_subscribe subscribe_ok
  "\<lambda>sz p. p\<lparr>sb_header := (sb_header p)\<lparr>hd_size := ucast sz\<rparr>\<rparr>"
proof (unfold_locales, goal_cases)
  case (1 p junk sz)
  then show ?case
    by (auto simp: subscribe_ok_def pack_subscribe_def pack_simps wire_subscribe_def elim!: str_okE)
next
  case (2 p sz rest)
  then show ?case
    by (cases p) (auto simp: subscribe_ok_def unpack_subscribe_def unpack_simps wire_subscribe_def elim!: str_okE)
qed

interpretation unsubscribe_fmt: packet_format pack_unsubscribe unpack_unsubscribe wire_unsubscribe unsubscribe_ok
  "\<lambda>sz p. p\<lparr>us_header := (us_header p)\<lparr>hd_size := ucast sz\<rparr>\<rparr>"
proof (unfold_locales, goal_cases)
  case (1 p junk sz)
  then show ?case
    by (auto simp: unsubscribe_ok_def pack_unsubscribe_def pack_simps wire_unsubscribe_def elim!: str_okE)
next
  case (2 p sz rest)
  then show ?case
    by (cases p) (auto simp: unsubscribe_ok_def unpack_unsubscribe_def unpack_simps wire_unsubscribe_def elim!: str_okE)
qed

lemma pack_publish_wire:
  assumes "0 \<in> set (pb_topic p)" and "0 \<in> set (pb_message p)" and "addressable junk"
    and "length (wire_publish sz p) \<le> length junk"
  shows "pack_publish (buf_at sz [] junk) p =
    Inr (buf_at sz (wire_publish sz p) (drop (length (wire_publish sz p)) junk))"
  using assms by (auto simp: pack_publish_def pack_simps wire_publish_def)

lemma pack_publish_full:
  assumes "0 \<in> set (pb_topic p)" and "0 \<in> set (pb_message p)" and "addressable junk"
    and "length junk < length (wire_publish sz p)"
  shows "pack_publish (buf_at sz [] junk) p = Inl OutOfBounds"
  using assms by (auto simp: pack_publish_def pack_simps wire_publish_def)

interpretation publish_fmt: packet_format pack_publish unpack_publish wire_publish publish_ok
  "\<lambda>sz p. p\<lparr>pb_header := (pb_header p)\<lparr>hd_size := ucast sz\<rparr>\<rparr>"
proof (unfold_locales, goal_cases)
  case (1 p junk sz)
  then show ?case
    by (auto simp: publish_ok_def intro!: pack_publish_wire elim!: str_okE)
next
  case (2 p sz rest)
  then show ?case
    by (cases p) (auto simp: publish_ok_def unpack_publish_def unpack_simps wire_publish_def elim!: str_okE)
qed

section \<open>Unpacking what arrived\<close>

text \<open>
  The shortest publish packet has 14 bytes; behind them come as many bytes as the two length
  fields say.
\<close>

lemma unpack_publish_long:
  assumes "addressable (a0 # a1 # a2 # a3 # a4 # a5 # a6 # a7 # a8 # a9 # a10 # a11 # a12 # a13 # rest)"
    and "t = unat (load16 BigEndian a5 a6)" and "m = unat (load32 BigEndian a7 a8 a9 a10)"
  shows "unpack_publish True
      (buf_at sz [] (a0 # a1 # a2 # a3 # a4 # a5 # a6 # a7 # a8 # a9 # a10 # a11 # a12 # a13 # rest)) =
    (if t + m \<le> length rest
     then Inr (buf_at sz ([a0, a1, a2, a3, a4, a5, a6, a7, a8, a9, a10, a11, a12, a13] @ take (t + m) rest) (drop (t + m) rest),
       Some \<lparr>pb_header = \<lparr>hd_opcode = a0, hd_size = load32 BigEndian a1 a2 a3 a4\<rparr>,
         pb_topic_len = load16 BigEndian a5 a6, pb_message_len = load32 BigEndian a7 a8 a9 a10,
         pb_qos = a11, pb_retain = a12, pb_dup = a13,
         pb_topic = take t rest @ [0], pb_message = take m (drop t rest) @ [0]\<rparr>, 0)
     else Inl OutOfBounds)"
proof (cases "t + m \<le> length rest")
  case True
  then have "addressable ([a0, a1, a2, a3, a4, a5, a6, a7, a8, a9, a10, a11, a12, a13] @ take t rest)"
    using assms(1) by simp
  with True assms show ?thesis
    by (auto simp: unpack_publish_def unpack_header_def read_uint8_at read_uint16_at read_uint32_at
        read_string_at take_add add.commute)
next
  case False
  then show ?thesis
  proof (cases "t \<le> length rest")
    case True
    then have "addressable ([a0, a1, a2, a3, a4, a5, a6, a7, a8, a9, a10, a11, a12, a13] @ take t rest)"
      using assms(1) by simp
    moreover have "\<not> m \<le> length (drop t rest)"
      using False True by simp
    ultimately show ?thesis
      using True False assms
      by (simp add: unpack_publish_def unpack_header_def read_uint8_at read_uint16_at read_uint32_at
          read_string_at)
  next
    case False
    with assms show ?thesis
      by (simp add: unpack_publish_def unpack_header_def read_uint8_at read_uint16_at read_uint32_at
          read_string_at)
  qed
qed

lemma read_uint8_atE:
  assumes "read_uint8 (buf_at sz pre rest) = Inr (v, b)" and "addressable pre"
  obtains r where "rest = v # r" and "b = buf_at sz (pre @ [v]) r"
proof (cases rest)
  case Nil
  then show thesis
    using assms by (simp add: read_short(1))
next
  case (Cons a r)
  then show thesis
    using assms read_uint8_at [of pre sz a r] by (auto intro: that)
qed

lemma read_uint16_atE:
  assumes "read_uint16 (buf_at sz pre rest) = Inr (v, b)" and "addressable pre"
  obtains x y r where "rest = x # y # r" and "b = buf_at sz (pre @ [x, y]) r"
proof (cases "length rest < 2")
  case True
  then show thesis
    using assms by (simp add: read_short(2))
next
  case False
  then obtain x y r where "rest = x # y # r"
    by (cases rest; cases "tl rest") auto
  then show thesis
    using assms read_uint16_at [of pre sz x y r] by (auto intro: that)
qed

lemma read_uint32_atE:
  assumes "read_uint32 (buf_at sz pre rest) = Inr (v, b)" and "addressable pre"
  obtains x y z w r where "rest = x # y # z # w # r" and "b = buf_at sz (pre @ [x, y, z, w]) r"
proof (cases "length rest < 4")
  case True
  then show thesis
    using assms by (simp add: read_short(3))
next
  case False
  then obtain x y z w r where "rest = x # y # z # w # r"
    by (auto simp: not_less numeral_eq_Suc Suc_le_length_iff)
  then show thesis
    using assms read_uint32_at [of pre sz x y z w r] by (auto intro: that)
qed

text \<open>Reading fails in one way only.\<close>

lemma read_fails [fails_intros]:
  "OutOfBounds \<in> E \<Longrightarrow> fails_only E (read_uint8 b)" "OutOfBounds \<in> E \<Longrightarrow> fails_only E (read_uint16 b)"
  "OutOfBounds \<in> E \<Longrightarrow> fails_only E (read_uint32 b)" "OutOfBounds \<in> E \<Longrightarrow> fails_only E (read_string b n)"
  by (auto simp: read_uint8_def read_uint16_def read_uint32_def read_string_def intro!: fails_intros)

lemma unpack_fails [fails_intros]:
  "OutOfBounds \<in> E \<Longrightarrow> fails_only E (unpack_header b)" "OutOfBounds \<in> E \<Longrightarrow> fails_only E (unpack_connect m b)"
  "OutOfBounds \<in> E \<Longrightarrow> fails_only E (unpack_subscribe m b)" "OutOfBounds \<in> E \<Longrightarrow> fails_only E (unpack_publish m b)"
  "OutOfBounds \<in> E \<Longrightarrow> fails_only E (unpack_unsubscribe m b)" "OutOfBounds \<in> E \<Longrightarrow> fails_only E (unpack_ack m b)"
  unfolding unpack_header_def unpack_connect_def unpack_subscribe_def unpack_publish_def
    unpack_unsubscribe_def unpack_ack_def
  by (intro fails_intros; assumption)+

lemma unpack_publish_length:
  assumes "unpack_publish True (buf_at sz [] d) = Inr x"
  shows "14 \<le> length d"
proof -
  from assms obtain v1 b1 v2 b2 v3 b3 v4 b4 v5 b5 v6 b6 v7 b7 where
    r: "read_uint8 (buf_at sz [] d) = Inr (v1, b1)" "read_uint32 b1 = Inr (v2, b2)"
      "read_uint16 b2 = Inr (v3, b3)" "read_uint32 b3 = Inr (v4, b4)"
      "read_uint8 b4 = Inr (v5, b5)" "read_uint8 b5 = Inr (v6, b6)" "read_uint8 b6 = Inr (v7, b7)"
    by (auto simp: unpack_publish_def unpack_header_def res_simps)
  obtain d1 where d1: "d = v1 # d1" "b1 = buf_at sz ([] @ [v1]) d1"
    by (rule read_uint8_atE [OF r(1)]) auto
  obtain x1 x2 x3 x4 d2 where d2: "d1 = x1 # x2 # x3 # x4 # d2" "b2 = buf_at sz (([] @ [v1]) @ [x1, x2, x3, x4]) d2"
    by (rule read_uint32_atE [OF r(2) [unfolded d1]]) auto
  obtain x5 x6 d3 where d3: "d2 = x5 # x6 # d3" "b3 = buf_at sz ((([] @ [v1]) @ [x1, x2, x3, x4]) @ [x5, x6]) d3"
    by (rule read_uint16_atE [OF r(3) [unfolded d2]]) auto
  obtain x7 x8 x9 x10 d4 where d4: "d3 = x7 # x8 # x9 # x10 # d4"
      "b4 = buf_at sz (((([] @ [v1]) @ [x1, x2, x3, x4]) @ [x5, x6]) @ [x7, x8, x9, x10]) d4"
    by (rule read_uint32_atE [OF r(4) [unfolded d3]]) auto
  obtain d5 where d5: "d4 = v5 # d5"
      "b5 = buf_at sz ((((([] @ [v1]) @ [x1, x2, x3, x4]) @ [x5, x6]) @ [x7, x8, x9, x10]) @ [v5]) d5"
    by (rule read_uint8_atE [OF r(5) [unfolded d4]]) auto
  obtain d6 where d6: "d5 = v6 # d6"
      "b6 = buf_at sz (((((([] @ [v1]) @ [x1, x2, x3, x4]) @ [x5, x6]) @ [x7, x8, x9, x10]) @ [v5]) @ [v6]) d6"
    by (rule read_uint8_atE [OF r(6) [unfolded d5]]) auto
  obtain d7 where d7: "d6 = v7 # d7"
    by (rule read_uint8_atE [OF r(7) [unfolded d6]]) auto
  show ?thesis
    using d1(1) d2(1) d3(1) d4(1) d5(1) d6(1) d7 by simp
qed

lemma unpack_publish_short:
  assumes "length d < 14"
  shows "unpack_publish True (buf_at sz [] d) = Inl OutOfBounds"
  using unpack_publish_length [of sz d] fails_onlyD [OF unpack_fails(4) [OF singletonI]] assms
  by force

lemma list14_cases:
  assumes "14 \<le> length d"
  obtains a0 a1 a2 a3 a4 a5 a6 a7 a8 a9 a10 a11 a12 a13 rest where
    "d = a0 # a1 # a2 # a3 # a4 # a5 # a6 # a7 # a8 # a9 # a10 # a11 # a12 # a13 # rest"
  using assms by (auto simp: numeral_eq_Suc Suc_le_length_iff)

lemma pack_connect_wire:
  assumes "0 \<in> set (cn_id p)" and "addressable junk" and "length (wire_connect sz p) \<le> length junk"
  shows "pack_connect (buf_at sz [] junk) p =
    Inr (buf_at sz (wire_connect sz p) (drop (length (wire_connect sz p)) junk))"
  using assms by (auto simp: pack_connect_def pack_simps wire_connect_def)

text \<open>The layout \<open>unpack_connect\<close> expects: the clean session byte and the keepalive before the identifier.\<close>

lemma unpack_connect_layout:
  assumes "addressable (a0 # a1 # a2 # a3 # a4 # a5 # a6 # a7 # a8 # a9 # rest)"
    and "unat (load16 BigEndian a5 a6) \<le> length rest" and "n = unat (load16 BigEndian a5 a6)"
  shows "unpack_connect True (buf_at sz [] (a0 # a1 # a2 # a3 # a4 # a5 # a6 # a7 # a8 # a9 # rest)) =
    Inr (buf_at sz ([a0, a1, a2, a3, a4, a5, a6, a7, a8, a9] @ take n rest) (drop n rest),
      Some \<lparr>cn_header = \<lparr>hd_opcode = a0, hd_size = load32 BigEndian a1 a2 a3 a4\<rparr>,
        cn_idlen = load16 BigEndian a5 a6, cn_id = take n rest @ [0],
        cn_keepalive = load16 BigEndian a8 a9, cn_clean_session = a7\<rparr>, 0)"
  using assms by (simp add: unpack_connect_def unpack_header_def read_uint8_at read_uint16_at read_uint32_at
      read_string_at)

section \<open>Properties\<close>

lemma ucast_u32_size_t [simp]: "ucast (ucast (w :: u32) :: size_t) = w"
  by (rule bit_word_eqI) (auto simp: bit_simps)

lemma unat_size_t [simp]: "unat (ucast (w :: u32) :: size_t) = unat w"
  by (simp add: unsigned_ucast_eq take_bit_nat_eq_self unat_bound [THEN less_trans])

lemma unat_header_size: "n < 2 ^ 32 \<Longrightarrow> unat (ucast (of_nat n :: u32) :: size_t) = n"
  by (simp add: unat_of_nat_small)

text \<open>
  C22: A publish packet built from a topic of less than 64 KiB and a message, packed into a buffer
  of the size its header announces, unpacks to the packet that was built.  Packing stays inside
  the buffer, but fills it only up to the last two bytes: these are sent as \<open>malloc\<close> left
  them.\<close>

theorem publish_roundtrip:
  assumes "0 \<notin> set t" and "0 \<notin> set s" and "length t < 2 ^ 16" and "length t + length s + 16 < 2 ^ 32"
  shows "\<exists>p b b1. publish_pkt True (Some (t @ [0])) (Some (s @ [0])) qos retain dup = Inr p \<and>
    buffer_init True True junk (ucast (hd_size (pb_header p))) = Inr b \<and> pack_publish b p = Inr b1 \<and>
    unpack_publish True (b1\<lparr>b_pos := 0\<rparr>) = Inr (b1, Some p, 0) \<and>
    length (b_data b1) = length t + length s + 16 \<and>
    drop (length t + length s + 14) (b_data b1) =
      [junk (length t + length s + 14), junk (length t + length s + 15)]"
proof -
  let ?n = "length t + length s + 16"
  define p where "p = \<lparr>pb_header = \<lparr>hd_opcode = PUBLISH, hd_size = of_nat ?n\<rparr>,
    pb_topic_len = of_nat (length t), pb_message_len = of_nat (length s), pb_qos = qos, pb_retain = retain,
    pb_dup = dup, pb_topic = t @ [0], pb_message = s @ [0]\<rparr>"
  let ?sz = "ucast (hd_size (pb_header p)) :: size_t"
  have mk: "publish_pkt True (Some (t @ [0])) (Some (s @ [0])) qos retain dup = Inr p"
    using assms by (simp add: publish_pkt_def p_def HEADERLEN_def)
  have sz: "unat ?sz = ?n"
    using unat_header_size [OF assms(4)] by (simp add: p_def)
  have w: "length (wire_publish ?sz p) = length t + length s + 14"
    using assms by (simp add: wire_publish_def p_def)
  have ok: "publish_ok p"
    using assms by (auto simp: publish_ok_def str_ok_def p_def)
  have "p\<lparr>pb_header := (pb_header p)\<lparr>hd_size := ucast ?sz\<rparr>\<rparr> = p"
    by simp
  with publish_fmt.pack_unpack [OF ok, of ?sz junk] sz w obtain b b1 where
    "buffer_init True True junk ?sz = Inr b" "pack_publish b p = Inr b1"
    "b_data b1 = wire_publish ?sz p @ map junk [length t + length s + 14..<?n]"
    "unpack_publish True (b1\<lparr>b_pos := 0\<rparr>) = Inr (b1, Some p, 0)"
    by auto
  with mk w show ?thesis
    by (intro exI [of _ p]) (auto simp: upt_conv_Cons add.commute)
qed

lemma publish_roundtrip_witness:
  "\<exists>p b b1. publish_pkt True (Some [97, 0]) (Some [104, 105, 0]) 1 0 0 = Inr p \<and>
    buffer_init True True (\<lambda>_. 0xAA) (ucast (hd_size (pb_header p))) = Inr b \<and> pack_publish b p = Inr b1 \<and>
    unpack_publish True (b1\<lparr>b_pos := 0\<rparr>) = Inr (b1, Some p, 0) \<and>
    length (b_data b1) = 19 \<and> drop 17 (b_data b1) = [0xAA, 0xAA]"
  using publish_roundtrip [of "[97]" "[104, 105]" 1 0 0 "\<lambda>_. 0xAA"] by simp

text \<open>
  C23: A subscribe packet for a topic of less than 64 KiB survives packing and unpacking, and so
  does an unsubscribe packet; both buffers are larger than what is written (by two and by one
  byte).\<close>

theorem subscribe_unsubscribe_roundtrip:
  assumes "0 \<notin> set t" and "length t < 2 ^ 16"
  shows "(\<exists>p b b1. subscribe_pkt True (Some (t @ [0])) qos = Inr p \<and>
      buffer_init True True junk (ucast (hd_size (sb_header p))) = Inr b \<and> pack_subscribe b p = Inr b1 \<and>
      unpack_subscribe True (b1\<lparr>b_pos := 0\<rparr>) = Inr (b1, Some p, 0) \<and> at b1 + 2 = length (b_data b1)) \<and>
    (\<exists>p b b1. unsubscribe_pkt True (Some (t @ [0])) = Inr p \<and>
      buffer_init True True junk (ucast (hd_size (us_header p))) = Inr b \<and> pack_unsubscribe b p = Inr b1 \<and>
      unpack_unsubscribe True (b1\<lparr>b_pos := 0\<rparr>) = Inr (b1, Some p, 0) \<and> at b1 + 1 = length (b_data b1))"
proof (intro conjI)
  define p where "p = \<lparr>sb_header = \<lparr>hd_opcode = SUBSCRIBE, hd_size = of_nat (length t + 10)\<rparr>,
    sb_topic_len = of_nat (length t), sb_qos = qos, sb_topic = t @ [0]\<rparr>"
  let ?sz = "ucast (hd_size (sb_header p)) :: size_t"
  have "subscribe_pkt True (Some (t @ [0])) qos = Inr p"
    using assms by (simp add: subscribe_pkt_def p_def HEADERLEN_def)
  moreover have "unat ?sz = length t + 10" and "length (wire_subscribe ?sz p) = length t + 8" and "subscribe_ok p"
    using assms unat_header_size [of "length t + 10"]
    by (auto simp: p_def wire_subscribe_def subscribe_ok_def str_ok_def)
  ultimately show "\<exists>p b b1. subscribe_pkt True (Some (t @ [0])) qos = Inr p \<and>
      buffer_init True True junk (ucast (hd_size (sb_header p))) = Inr b \<and> pack_subscribe b p = Inr b1 \<and>
      unpack_subscribe True (b1\<lparr>b_pos := 0\<rparr>) = Inr (b1, Some p, 0) \<and> at b1 + 2 = length (b_data b1)"
    using subscribe_fmt.pack_unpack [of p ?sz junk] by (intro exI [of _ p]) auto
next
  define p where "p = \<lparr>us_header = \<lparr>hd_opcode = UNSUBSCRIBE, hd_size = of_nat (length t + 8)\<rparr>,
    us_topic_len = of_nat (length t), us_topic = t @ [0]\<rparr>"
  let ?sz = "ucast (hd_size (us_header p)) :: size_t"
  have "unsubscribe_pkt True (Some (t @ [0])) = Inr p"
    using assms by (simp add: unsubscribe_pkt_def p_def HEADERLEN_def)
  moreover have "unat ?sz = length t + 8" and "length (wire_unsubscribe ?sz p) = length t + 7" and "unsubscribe_ok p"
    using assms unat_header_size [of "length t + 8"]
    by (auto simp: p_def wire_unsubscribe_def unsubscribe_ok_def str_ok_def)
  ultimately show "\<exists>p b b1. unsubscribe_pkt True (Some (t @ [0])) = Inr p \<and>
      buffer_init True True junk (ucast (hd_size (us_header p))) = Inr b \<and> pack_unsubscribe b p = Inr b1 \<and>
      unpack_unsubscribe True (b1\<lparr>b_pos := 0\<rparr>) = Inr (b1, Some p, 0) \<and> at b1 + 1 = length (b_data b1)"
    using unsubscribe_fmt.pack_unpack [of p ?sz junk] by (intro exI [of _ p]) auto
qed

lemma subscribe_unsubscribe_roundtrip_witness:
  "\<exists>p b b1. subscribe_pkt True (Some [97, 98, 0]) 1 = Inr p \<and>
      buffer_init True True (\<lambda>_. 0) (ucast (hd_size (sb_header p))) = Inr b \<and> pack_subscribe b p = Inr b1 \<and>
      unpack_subscribe True (b1\<lparr>b_pos := 0\<rparr>) = Inr (b1, Some p, 0) \<and> at b1 + 2 = length (b_data b1)"
  using subscribe_unsubscribe_roundtrip [of "[97, 98]" 1 "\<lambda>_. 0"] by simp

text \<open>
  Every acknowledgement survives packing and unpacking, and its eight bytes are all
  written: the packet on the wire does not depend on what the memory contained.\<close>

theorem ack_roundtrip:
  "\<exists>p b b1. ack_pkt True opcode ident rc = Inr p \<and>
    buffer_init True True junk (ucast (hd_size (ak_header p))) = Inr b \<and> pack_ack b p = Inr b1 \<and>
    b_data b1 = [opcode, 0, 0, 0, 8] @ store16 BigEndian ident @ [rc] \<and>
    unpack_ack True (b1\<lparr>b_pos := 0\<rparr>) = Inr (b1, Some p, 0)"
proof -
  define p where "p = \<lparr>ak_header = \<lparr>hd_opcode = opcode, hd_size = 8\<rparr>, ak_id = ident, ak_rc = rc\<rparr>"
  let ?sz = "ucast (hd_size (ak_header p)) :: size_t"
  have "ack_pkt True opcode ident rc = Inr p"
    by (simp add: ack_pkt_def p_def HEADERLEN_def)
  moreover have "?sz = 8" and w: "wire_ack ?sz p = [opcode, 0, 0, 0, 8] @ store16 BigEndian ident @ [rc]"
    by (simp_all add: wire_ack_def wire_header_def p_def store32_def)
  moreover have "p\<lparr>ak_header := (ak_header p)\<lparr>hd_size := ucast ?sz\<rparr>\<rparr> = p"
    by simp
  ultimately show ?thesis
    using ack_fmt.pack_unpack [of ?sz p junk] by auto
qed

text \<open>
  C24: The two ends of the CONNECT format disagree: packing writes length, identifier, keepalive,
  clean session, unpacking reads length, clean session, keepalive, identifier.  For an identifier of
  three or more characters the unpacked packet has its first character as clean session flag, the
  next two as keepalive, and the rest followed by the keepalive and the flag as identifier.\<close>

theorem connect_field_order:
  assumes "0 \<notin> set (c # k1 # k2 # cs)" and "length cs + 3 < 2 ^ 16"
  shows "\<exists>p b b1 b2 p'. connect_pkt True (Some (c # k1 # k2 # cs @ [0])) keepalive clean = Inr p \<and>
    buffer_init True True junk (ucast (hd_size (cn_header p))) = Inr b \<and> pack_connect b p = Inr b1 \<and>
    unpack_connect True (b1\<lparr>b_pos := 0\<rparr>) = Inr (b2, Some p', 0) \<and>
    cn_idlen p' = cn_idlen p \<and> cn_clean_session p' = c \<and> cn_keepalive p' = load16 BigEndian k1 k2 \<and>
    cn_id p' = cs @ [0, keepalive, clean, 0]"
proof -
  let ?n = "length cs + 14"
  define p where "p = \<lparr>cn_header = \<lparr>hd_opcode = CONNECT, hd_size = of_nat ?n\<rparr>,
    cn_idlen = of_nat (length cs + 3), cn_id = c # k1 # k2 # cs @ [0], cn_keepalive = ucast keepalive,
    cn_clean_session = clean\<rparr>"
  let ?sz = "ucast (hd_size (cn_header p)) :: size_t"
  have str: "c_str (c # k1 # k2 # cs @ [0]) = c # k1 # k2 # cs"
    using c_str_append_nul [OF assms(1), of "[]"] by simp
  have mk: "connect_pkt True (Some (c # k1 # k2 # cs @ [0])) keepalive clean = Inr p"
    using str by (simp add: connect_pkt_def p_def HEADERLEN_def c_strlen_def add.commute)
  have sz: "unat ?sz = ?n"
    using unat_header_size [of ?n] assms(2) by (simp add: p_def)
  have ka: "store16 BigEndian (ucast keepalive) = [0, keepalive]"
    by (auto simp: store16_def bit_simps bit8_ge intro!: ucast8_eqI)
  obtain x y where xy: "store16 BigEndian (of_nat (length cs + 3)) = [x, y]" "load16 BigEndian x y = of_nat (length cs + 3)"
    by (rule store16_BigEndian_cons)
  obtain h1 h2 h3 h4 where h: "store32 BigEndian (ucast ?sz :: u32) = [h1, h2, h3, h4]"
    by (rule store32_BigEndian_cons)
  have w: "wire_connect ?sz p =
      CONNECT # h1 # h2 # h3 # h4 # x # y # c # k1 # k2 # cs @ [0, keepalive, clean]"
    using h ka xy(1) str by (simp add: wire_connect_def wire_header_def p_def add.commute)
  let ?b1 = "buf_at ?sz (wire_connect ?sz p) (drop (length (wire_connect ?sz p)) (map junk [0..<?n]))"
  have pk: "pack_connect (buf_at ?sz [] (map junk [0..<?n])) p = Inr ?b1"
    using assms(2) w by (intro pack_connect_wire) (auto simp: p_def)
  have init: "buffer_init True True junk ?sz = Inr (buf_at ?sz [] (map junk [0..<?n]))"
    by (simp only: buffer_init_at sz)
  have len: "unat (load16 BigEndian x y) = length cs + 3"
    unfolding xy(2) using assms(2) by (simp add: of_nat_len del: of_nat_add)
  define rest where "rest = cs @ [0, keepalive, clean] @ drop (length (wire_connect ?sz p)) (map junk [0..<?n])"
  have rest: "length rest = length cs + 4" "take (length cs + 3) rest = cs @ [0, keepalive, clean]"
    by (simp_all add: rest_def w)
  have b1: "?b1\<lparr>b_pos := 0\<rparr> = buf_at ?sz [] (CONNECT # h1 # h2 # h3 # h4 # x # y # c # k1 # k2 # rest)"
    unfolding buf_at_rewind by (simp add: rest_def w)
  have adr: "addressable (CONNECT # h1 # h2 # h3 # h4 # x # y # c # k1 # k2 # rest)"
    and le: "unat (load16 BigEndian x y) \<le> length rest"
    using assms(2) rest(1) len by simp_all
  note up = unpack_connect_layout [OF adr le len [symmetric], of ?sz, folded b1]
  show ?thesis
    by (intro exI conjI, rule mk, rule init, rule pk, rule up)
      (simp_all add: xy(2) rest(2) p_def del: of_nat_add)
qed

lemma connect_field_order_witness:
  "\<exists>p b b1 b2 p'. connect_pkt True (Some [97, 98, 99, 100, 0]) 60 1 = Inr p \<and>
    buffer_init True True (\<lambda>_. 0) (ucast (hd_size (cn_header p))) = Inr b \<and> pack_connect b p = Inr b1 \<and>
    unpack_connect True (b1\<lparr>b_pos := 0\<rparr>) = Inr (b2, Some p', 0) \<and>
    cn_idlen p' = cn_idlen p \<and> cn_clean_session p' = 97 \<and> cn_keepalive p' = load16 BigEndian 98 99 \<and>
    cn_id p' = [100, 0, 60, 1, 0]"
  using connect_field_order [of 97 98 99 "[100]" 60 1 "\<lambda>_. 0"] by simp

text \<open>
  C25: What \<open>unpack_publish\<close> does on arbitrary received bytes: if the fixed part is complete and the
  two length fields stay within the block, it returns \<open>OK\<close> with the topic and the message cut out
  as announced; otherwise it reads outside the block.  Nothing else can go wrong, and the size
  field of the header plays no role.\<close>

theorem unpack_publish_bounds:
  fixes d :: block
  assumes "addressable d"
  defines "t \<equiv> unat (load16 BigEndian (d ! 5) (d ! 6))"
    and "m \<equiv> unat (load32 BigEndian (d ! 7) (d ! 8) (d ! 9) (d ! 10))"
  shows "if 14 \<le> length d \<and> 14 + t + m \<le> length d
    then \<exists>b p. unpack_publish True (buf_at sz [] d) = Inr (b, Some p, 0) \<and> at b = 14 + t + m \<and>
      pb_topic p = take t (drop 14 d) @ [0] \<and> pb_message p = take m (drop (14 + t) d) @ [0]
    else unpack_publish True (buf_at sz [] d) = Inl OutOfBounds"
proof (cases "14 \<le> length d")
  case False
  then show ?thesis
    using unpack_publish_short [of d sz] by simp
next
  case True
  then obtain a0 a1 a2 a3 a4 a5 a6 a7 a8 a9 a10 a11 a12 a13 rest where
    d: "d = a0 # a1 # a2 # a3 # a4 # a5 # a6 # a7 # a8 # a9 # a10 # a11 # a12 # a13 # rest"
    by (rule list14_cases)
  have tm: "t = unat (load16 BigEndian a5 a6)" "m = unat (load32 BigEndian a7 a8 a9 a10)"
    by (simp_all add: t_def m_def d)
  note u = unpack_publish_long [OF assms(1) [unfolded d] tm, of sz, folded d]
  have r: "drop 14 d = rest" and l: "length d = 14 + length rest"
    by (simp_all add: d)
  have r': "drop (14 + t) d = drop t rest"
    unfolding r [symmetric] by (simp add: add.commute)
  show ?thesis
  proof (cases "t + m \<le> length rest")
    case True
    with u l r r' assms(1) show ?thesis
      by (simp add: buf_at_pos)
  next
    case False
    with u l show ?thesis
      by simp
  qed
qed

lemma unpack_publish_bounds_witness:
  "unpack_publish True (buf_at 15 [] [0x30, 0, 0, 0, 15, 1, 0, 0, 0, 0, 0, 0, 0, 0, 97]) = Inl OutOfBounds"
  using unpack_publish_bounds [of "[0x30, 0, 0, 0, 15, 1, 0, 0, 0, 0, 0, 0, 0, 0, 97]" 15] by (simp add: load16_def)

text \<open>
  C26: The broker forwards a \<open>PUBLISH\<close> by packing the unpacked packet into a fresh buffer of the size the header
  announces.  For a packet unpacked from any block, NUL bytes inside its strings included, packing stays
  inside that buffer if its bytes fit the announced size, and writes outside of it if they do not.  They always fit when
  the header announces at least the bytes that arrived, which holds for every block \<open>recv_packet\<close> delivers;
  only a header that announces less makes forwarding unsafe.\<close>

theorem repack_publish_in_bounds:
  assumes "unpack_publish True (buf_at n [] d) = Inr (b, Some p, 0)" and "addressable d" and "sz = ucast (hd_size (pb_header p))"
  shows "\<exists>b0. buffer_init True True junk sz = Inr b0 \<and>
    (if length (wire_publish sz p) \<le> unat sz
     then \<exists>b1. pack_publish b0 p = Inr b1 \<and> length (b_data b1) = unat sz \<and> take (at b1) (b_data b1) = wire_publish sz p
     else pack_publish b0 p = Inl OutOfBounds) \<and>
    (length d \<le> unat sz \<longrightarrow> length (wire_publish sz p) \<le> unat sz)"
proof -
  obtain a0 a1 a2 a3 a4 a5 a6 a7 a8 a9 a10 a11 a12 a13 rest where
    d: "d = a0 # a1 # a2 # a3 # a4 # a5 # a6 # a7 # a8 # a9 # a10 # a11 # a12 # a13 # rest"
    by (rule list14_cases [OF unpack_publish_length [OF assms(1)]])
  let ?t = "unat (load16 BigEndian a5 a6)" and ?m = "unat (load32 BigEndian a7 a8 a9 a10)"
  have "?t + ?m \<le> length rest" and str: "pb_topic p = take ?t rest @ [0]" "pb_message p = take ?m (drop ?t rest) @ [0]"
    using assms(1) unpack_publish_long [OF assms(2) [unfolded d] refl refl, of n, folded d] by (auto split: if_splits)
  then have "length (c_str (pb_topic p)) + length (c_str (pb_message p)) \<le> length rest"
    using c_str_snoc_nul_length [of "take ?t rest"] c_str_snoc_nul_length [of "take ?m (drop ?t rest)"] by simp
  then have fits: "length d \<le> unat sz \<longrightarrow> length (wire_publish sz p) \<le> unat sz"
    using d by (simp add: wire_publish_def)
  have l: "unat sz < 2 ^ 64"
    using unat_bound [of sz] by simp
  let ?b0 = "buf_at sz [] (map junk [0..<unat sz])"
  have "if length (wire_publish sz p) \<le> unat sz
     then \<exists>b1. pack_publish ?b0 p = Inr b1 \<and> length (b_data b1) = unat sz \<and> take (at b1) (b_data b1) = wire_publish sz p
     else pack_publish ?b0 p = Inl OutOfBounds"
  proof (cases "length (wire_publish sz p) \<le> unat sz")
    case True
    then have "pack_publish ?b0 p = Inr (buf_at sz (wire_publish sz p) (drop (length (wire_publish sz p)) (map junk [0..<unat sz])))"
      using l str by (intro pack_publish_wire) auto
    then show ?thesis
      using True l by (auto simp: buf_at_pos)
  next
    case False
    then show ?thesis
      using l str pack_publish_full [of p "map junk [0..<unat sz]" sz] by auto
  qed
  then show ?thesis
    using fits by (auto simp: buffer_init_at)
qed

lemma repack_publish_in_bounds_witness:
  "(\<exists>b p b0 b1. unpack_publish True (buf_at 16 [] [0x30, 0, 0, 0, 16, 0, 1, 0, 0, 0, 1, 0, 0, 0, 97, 98]) = Inr (b, Some p, 0) \<and>
     buffer_init True True (\<lambda>_. 0) 16 = Inr b0 \<and> pack_publish b0 p = Inr b1 \<and>
     take (at b1) (b_data b1) = [0x30, 0, 0, 0, 16, 0, 1, 0, 0, 0, 1, 0, 0, 0, 97, 98]) \<and>
   (\<exists>b p b0. unpack_publish True (buf_at 16 [] [0x30, 0, 0, 0, 15, 0, 1, 0, 0, 0, 1, 0, 0, 0, 97, 98]) = Inr (b, Some p, 0) \<and>
     buffer_init True True (\<lambda>_. 0) 15 = Inr b0 \<and> pack_publish b0 p = Inl OutOfBounds)"
proof (intro conjI)
  let ?d = "\<lambda>n. [0x30, 0, 0, 0, n, 0, 1, 0, 0, 0, 1, 0, 0, 0, 97, 98] :: block"
  have u: "\<exists>b p. unpack_publish True (buf_at 16 [] (?d n)) = Inr (b, Some p, 0) \<and>
      p = \<lparr>pb_header = \<lparr>hd_opcode = 0x30, hd_size = load32 BigEndian 0 0 0 n\<rparr>, pb_topic_len = 1, pb_message_len = 1, pb_qos = 0,
        pb_retain = 0, pb_dup = 0, pb_topic = [97, 0], pb_message = [98, 0]\<rparr>" for n
    by (simp add: unpack_publish_long load16_def load32_def)
  obtain b p where 1: "unpack_publish True (buf_at 16 [] (?d 16)) = Inr (b, Some p, 0)" "(16 :: size_t) = ucast (hd_size (pb_header p))"
      "wire_publish 16 p = ?d 16"
    using u [of 16] by (auto simp: load32_def wire_publish_def wire_header_def store32_def store16_def c_str_def)
  have len: "(length (wire_publish 16 p) \<le> unat (16 :: size_t)) = True"
    by (simp add: 1(3))
  have "addressable (?d n)" for n
    by simp
  note ad = this
  from repack_publish_in_bounds [OF 1(1) ad 1(2), of "\<lambda>_. 0", unfolded len if_True, unfolded 1(3)] 1(1)
  show "\<exists>b p b0 b1. unpack_publish True (buf_at 16 [] (?d 16)) = Inr (b, Some p, 0) \<and>
     buffer_init True True (\<lambda>_. 0) 16 = Inr b0 \<and> pack_publish b0 p = Inr b1 \<and> take (at b1) (b_data b1) = ?d 16"
    by blast
  obtain b p where 2: "unpack_publish True (buf_at 16 [] (?d 15)) = Inr (b, Some p, 0)" "(15 :: size_t) = ucast (hd_size (pb_header p))"
      "length (wire_publish 15 p) = 16"
    using u [of 15] by (auto simp: load32_def wire_publish_def wire_header_def store32_def store16_def c_str_def)
  have len2: "(length (wire_publish 15 p) \<le> unat (15 :: size_t)) = False"
    by (simp add: 2(3))
  from repack_publish_in_bounds [OF 2(1) ad 2(2), of "\<lambda>_. 0", unfolded len2 if_False] 2(1)
  show "\<exists>b p b0. unpack_publish True (buf_at 16 [] (?d 15)) = Inr (b, Some p, 0) \<and>
     buffer_init True True (\<lambda>_. 0) 15 = Inr b0 \<and> pack_publish b0 p = Inl OutOfBounds"
    by blast
qed

end
