(* ===== verification/Sz_Sizigy.thy ===== *)
theory Sz_Sizigy
  imports Sz_List Sz_Queue Sz_Hashmap Sz_Protocol
begin

text \<open>
  The broker's data of \<^verbatim>\<open>sizigy.c\<close>: clients, topics, subscriptions and messages as objects of
  typed heaps, linked by pointers, and the database that indexes clients by identifier and
  topics by name.  Strings belong to the object that owns them and are part of its value;
  objects that other structures point to (clients, topics, subscriptions, messages, packets,
  list nodes) have addresses, so that aliasing and use after free show.  An allocation of such
  an object may fail; string duplications and the headers of lists and queues are taken to
  succeed.
\<close>

section \<open>Data\<close>

datatype status = ONLINE | OFFLINE

text \<open>The functions a client's \<open>ctx_handler\<close> can point to.\<close>

datatype ctx_handler = AcceptHandler | RequestHandler | ReplyHandler

text \<open>
  A reply: the union of a payload buffer and a publish packet, and the retained message, which is
  \<open>None\<close> as long as \<open>malloc\<close> left it indeterminate.
\<close>

datatype reply_body = Payload "buffer option" | Published ptr

record reply =
  rp_opcode :: u8
  rp_fd :: int
  rp_body :: reply_body
  rp_retained :: "ptr option"

record client =
  cl_status :: status
  cl_keepalive :: u16
  cl_last_action_time :: u64
  cl_addr :: "block option"
  cl_fd :: int
  cl_ctx_handler :: ctx_handler
  cl_id :: "block option"
  cl_reply :: "reply option"
  cl_ptr :: ptr

record message =
  mg_qos :: u8
  mg_dup :: u8
  mg_retained :: u8
  mg_creation_time :: u64
  mg_sender :: "block option"
  mg_topic :: block
  mg_payload :: block

record topic =
  tp_name :: block
  tp_subscribers :: clist
  tp_messages :: "cqueue option"
  tp_retained :: ptr

record subscription =
  sn_client :: ptr
  sn_topic :: block
  sn_qos :: u8

text \<open>
  The database and the heaps it lives in; \<open>db_now\<close> is what \<open>time(NULL)\<close> returns.
\<close>

record sizigydb =
  hp_nodes :: "cell heap"
  hp_clients :: "client heap"
  hp_topics :: "topic heap"
  hp_subs :: "subscription heap"
  hp_msgs :: "message heap"
  hp_pkts :: "packet heap"
  db_bus_port :: int
  db_topics :: hashmap
  db_ack_waiting :: hashmap
  db_clients :: hashmap
  db_peers :: clist
  db_locked :: bool
  db_now :: u64

section \<open>Objects\<close>

definition load_client :: "'w sizigydb_scheme \<Rightarrow> ptr \<Rightarrow> cerr + client" where
  "load_client w c = h_load (hp_clients w) c"

definition store_client :: "'w sizigydb_scheme \<Rightarrow> ptr \<Rightarrow> client \<Rightarrow> cerr + 'w sizigydb_scheme" where
  "store_client w c cl = bindR (h_store (hp_clients w) c cl) (\<lambda>h. Inr (w\<lparr>hp_clients := h\<rparr>))"

definition load_topic :: "'w sizigydb_scheme \<Rightarrow> ptr \<Rightarrow> cerr + topic" where
  "load_topic w t = h_load (hp_topics w) t"

definition store_topic :: "'w sizigydb_scheme \<Rightarrow> ptr \<Rightarrow> topic \<Rightarrow> cerr + 'w sizigydb_scheme" where
  "store_topic w t tp = bindR (h_store (hp_topics w) t tp) (\<lambda>h. Inr (w\<lparr>hp_topics := h\<rparr>))"

text \<open>A string used as a key: the hash function and \<open>strcmp\<close> read up to the NUL.\<close>

definition key_of :: "block \<Rightarrow> cerr + key" where
  "key_of s = (if 0 \<in> set s then Inr (c_str s) else Inl OutOfBounds)"

definition id_key :: "client \<Rightarrow> cerr + key" where
  "id_key cl = (case cl_id cl of None \<Rightarrow> Inl NullDeref | Some s \<Rightarrow> key_of s)"

section \<open>Clients\<close>

definition add_client :: "'w sizigydb_scheme \<Rightarrow> ptr \<Rightarrow> cerr + 'w sizigydb_scheme" where
  "add_client w c =
     bindR (load_client w c) (\<lambda>cl.
     bindR (id_key cl) (\<lambda>k.
     bindR (hashmap_put 2 True (db_clients w) k c) (\<lambda>(m, _).
     Inr (w\<lparr>db_clients := m\<rparr>))))"

definition del_client :: "'w sizigydb_scheme \<Rightarrow> ptr \<Rightarrow> cerr + 'w sizigydb_scheme" where
  "del_client w c =
     bindR (load_client w c) (\<lambda>cl.
     bindR (id_key cl) (\<lambda>k.
     bindR (hashmap_del (db_clients w) k) (\<lambda>(m, _).
     Inr (w\<lparr>db_clients := m\<rparr>))))"

text \<open>The compare-and-swap of the field with the value just read from it.\<close>

definition update_client_last_action :: "'w sizigydb_scheme \<Rightarrow> ptr \<Rightarrow> cerr + 'w sizigydb_scheme" where
  "update_client_last_action w c =
     bindR (load_client w c) (\<lambda>cl. store_client w c (cl\<lparr>cl_last_action_time := db_now w\<rparr>))"

text \<open>
  \<open>get_client_last_action\<close> passes the time stamp to \<open>read_atomic\<close>, which takes it for the address
  of an \<open>Atomic\<close>.
\<close>

definition get_client_last_action :: "'w sizigydb_scheme \<Rightarrow> ptr \<Rightarrow> cerr + u64" where
  "get_client_last_action w c =
     bindR (load_client w c) (\<lambda>cl.
     if cl_last_action_time cl = 0 then Inl NullDeref else Inl Dangling)"

section \<open>Messages\<close>

definition create_message :: "'w sizigydb_scheme \<Rightarrow> publish \<Rightarrow> block option \<Rightarrow> cerr + ('w sizigydb_scheme \<times> ptr)" where
  "create_message w msg sender =
     bindR (c_strdup (pb_topic msg)) (\<lambda>tp.
     bindR (c_strdup (pb_message msg)) (\<lambda>pl.
     case h_alloc (hp_msgs w) \<lparr>mg_qos = pb_qos msg, mg_dup = pb_dup msg, mg_retained = pb_retain msg,
         mg_creation_time = db_now w, mg_sender = sender, mg_topic = tp, mg_payload = pl\<rparr> of
       None \<Rightarrow> Inl NullDeref
     | Some (a, h) \<Rightarrow> Inr (w\<lparr>hp_msgs := h\<rparr>, Some a)))"

definition destroy_message :: "'w sizigydb_scheme \<Rightarrow> ptr \<Rightarrow> cerr + ('w sizigydb_scheme \<times> ptr)" where
  "destroy_message w m =
     (if m = None then Inr (w, m)
      else bindR (h_load (hp_msgs w) m) (\<lambda>_.
           bindR (h_free (hp_msgs w) m) (\<lambda>h. Inr (w\<lparr>hp_msgs := h\<rparr>, None))))"

section \<open>Subscriptions\<close>

definition create_subscription ::
  "'w sizigydb_scheme \<Rightarrow> ptr \<Rightarrow> block \<Rightarrow> u8 \<Rightarrow> cerr + ('w sizigydb_scheme \<times> ptr)" where
  "create_subscription w c topic_name qos =
     (case h_alloc (hp_subs w) \<lparr>sn_client = c, sn_topic = topic_name, sn_qos = qos\<rparr> of
        None \<Rightarrow> Inl NullDeref
      | Some (a, h) \<Rightarrow> Inr (w\<lparr>hp_subs := h\<rparr>, Some a))"

definition destroy_subscription :: "'w sizigydb_scheme \<Rightarrow> ptr \<Rightarrow> cerr + ('w sizigydb_scheme \<times> ptr)" where
  "destroy_subscription w s =
     (if s = None then Inr (w, s)
      else bindR (h_load (hp_subs w) s) (\<lambda>_.
           bindR (h_free (hp_subs w) s) (\<lambda>h. Inr (w\<lparr>hp_subs := h\<rparr>, None))))"

text \<open>Both arguments are list nodes whose data are subscriptions.\<close>

definition node_fd :: "'w sizigydb_scheme \<Rightarrow> cell \<Rightarrow> cerr + int" where
  "node_fd w node =
     bindR (h_load (hp_subs w) (c_data node)) (\<lambda>s.
     bindR (load_client w (sn_client s)) (\<lambda>cl. Inr (cl_fd cl)))"

definition sub_compare :: "'w sizigydb_scheme \<Rightarrow> cell \<Rightarrow> cell \<Rightarrow> cerr + int" where
  "sub_compare w node1 node2 =
     bindR (node_fd w node1) (\<lambda>fd1.
     bindR (node_fd w node2) (\<lambda>fd2.
     Inr (if fd1 = fd2 then 0 else 1)))"

section \<open>Topics\<close>

definition create_topic :: "'w sizigydb_scheme \<Rightarrow> block \<Rightarrow> cerr + ('w sizigydb_scheme \<times> ptr)" where
  "create_topic w name =
     bindR (c_strdup name) (\<lambda>nm.
     bindR (list_create True) (\<lambda>l.
     case h_alloc (hp_topics w)
         \<lparr>tp_name = nm, tp_subscribers = l, tp_messages = create_queue True, tp_retained = None\<rparr> of
       None \<Rightarrow> Inl ExitFailure
     | Some (a, h) \<Rightarrow> Inr (w\<lparr>hp_topics := h\<rparr>, Some a)))"

definition add_topic :: "'w sizigydb_scheme \<Rightarrow> block \<Rightarrow> cerr + 'w sizigydb_scheme" where
  "add_topic w name =
     bindR (create_topic w name) (\<lambda>(w, t).
     bindR (key_of name) (\<lambda>k.
     bindR (hashmap_put 2 True (db_topics w) k t) (\<lambda>(m, _).
     Inr (w\<lparr>db_topics := m\<rparr>))))"

fun free_all :: "'c heap \<Rightarrow> nat list \<Rightarrow> cerr + 'c heap" where
  "free_all h [] = Inr h"
| "free_all h (a # as) = bindR (h_free h (Some a)) (\<lambda>h1. free_all h1 as)"

text \<open>
  The subscribers are released with their data (\<open>free\<close> on each subscription); the fuel for the
  queue is its length.
\<close>

definition destroy_topic :: "'w sizigydb_scheme \<Rightarrow> ptr \<Rightarrow> cerr + ('w sizigydb_scheme \<times> ptr)" where
  "destroy_topic w t =
     (if t = None then Inr (w, t)
      else bindR (load_topic w t) (\<lambda>tp.
        bindR (list_release (hp_nodes w) (Some (tp_subscribers tp)) 1) (\<lambda>(h1, ds).
        bindR (free_all (hp_subs w) ds) (\<lambda>hs.
        bindR (case tp_messages tp of None \<Rightarrow> Inr h1
               | Some q \<Rightarrow> release_queue (unat (q_len q)) h1 (Some q)) (\<lambda>h2.
        let w = w\<lparr>hp_nodes := h2, hp_subs := hs\<rparr> in
        bindR (if tp_retained tp \<noteq> None then destroy_message w (tp_retained tp) else Inr (w, None)) (\<lambda>(w, _).
        bindR (h_free (hp_topics w) t) (\<lambda>h. Inr (w\<lparr>hp_topics := h\<rparr>, None))))))))"

definition db_lock :: "'w sizigydb_scheme \<Rightarrow> cerr + 'w sizigydb_scheme" where
  "db_lock w = (if db_locked w then Inl Deadlock else Inr (w\<lparr>db_locked := True\<rparr>))"

definition db_unlock :: "'w sizigydb_scheme \<Rightarrow> 'w sizigydb_scheme" where
  "db_unlock w = w\<lparr>db_locked := False\<rparr>"

definition add_subscriber :: "'w sizigydb_scheme \<Rightarrow> ptr \<Rightarrow> cerr + 'w sizigydb_scheme" where
  "add_subscriber w s =
     bindR (h_load (hp_subs w) s) (\<lambda>sub.
     bindR (key_of (sn_topic sub)) (\<lambda>k.
     bindR (hashmap_get (db_topics w) k) (\<lambda>(m, t).
     bindR (db_lock (w\<lparr>db_topics := m\<rparr>)) (\<lambda>w.
     bindR (load_topic w t) (\<lambda>tp.
     bindR (list_head_insert (hp_nodes w) (tp_subscribers tp) s) (\<lambda>(h, l).
     bindR (store_topic (w\<lparr>hp_nodes := h\<rparr>) t (tp\<lparr>tp_subscribers := l\<rparr>)) (\<lambda>w.
     Inr (db_unlock w))))))))"

text \<open>
  Only the head of the list is updated; its length and tail are left as they were.  The recursion
  of \<open>list_remove_node\<close> is given one step more than the length the list records.
\<close>

definition del_subscriber :: "'w sizigydb_scheme \<Rightarrow> ptr \<Rightarrow> cerr + 'w sizigydb_scheme" where
  "del_subscriber w s =
     bindR (h_load (hp_subs w) s) (\<lambda>sub.
     bindR (key_of (sn_topic sub)) (\<lambda>k.
     bindR (hashmap_get (db_topics w) k) (\<lambda>(m, t).
     bindR (db_lock (w\<lparr>db_topics := m\<rparr>)) (\<lambda>w.
     bindR (load_topic w t) (\<lambda>tp.
     bindR (list_remove_node (Suc (unat (l_len (tp_subscribers tp)))) (hp_nodes w)
              (l_head (tp_subscribers tp)) \<lparr>c_data = s, c_next = None\<rparr> (sub_compare w)) (\<lambda>(h, hd).
     bindR (store_topic (w\<lparr>hp_nodes := h\<rparr>) t
              (tp\<lparr>tp_subscribers := (tp_subscribers tp)\<lparr>l_head := hd\<rparr>\<rparr>)) (\<lambda>w.
     Inr (db_unlock w))))))))"

section \<open>Invariant and abstraction\<close>

text \<open>The client a subscription pointer leads to.\<close>

definition sub_client :: "'w sizigydb_scheme \<Rightarrow> ptr \<Rightarrow> ptr" where
  "sub_client w d = (case d of None \<Rightarrow> None
     | Some a \<Rightarrow> (case h_cells (hp_subs w) a of None \<Rightarrow> None | Some s \<Rightarrow> sn_client s))"

definition sub_ok :: "'w sizigydb_scheme \<Rightarrow> ptr \<Rightarrow> bool" where
  "sub_ok w d \<longleftrightarrow> (\<exists>c. sub_client w d = Some c \<and> h_cells (hp_clients w) c \<noteq> None)"

text \<open>The subscribers of a topic, most recent first.\<close>

definition subscribers :: "'w sizigydb_scheme \<Rightarrow> nat \<Rightarrow> nat list" where
  "subscribers w t = (case h_cells (hp_topics w) t of None \<Rightarrow> []
     | Some tp \<Rightarrow> map (\<lambda>d. the (sub_client w d)) (list_items (hp_nodes w, tp_subscribers tp)))"

text \<open>
  The subscriber list of a topic occupies the nodes \<open>as\<close> and holds live subscriptions of live
  clients.
\<close>

definition topic_ok :: "'w sizigydb_scheme \<Rightarrow> topic \<Rightarrow> nat list \<Rightarrow> bool" where
  "topic_ok w tp as \<longleftrightarrow> list_weak (hp_nodes w) (tp_subscribers tp) as \<and>
     (\<forall>d\<in>set (chain_data (h_cells (hp_nodes w)) as). sub_ok w d)"

text \<open>
  The invariant of the database: the tables are well formed and unlocked, names lead to the topics
  that bear them, and the subscriber lists of different topics share no node.
\<close>

definition topics_ok :: "'w sizigydb_scheme \<Rightarrow> (nat \<Rightarrow> nat list) \<Rightarrow> bool" where
  "topics_ok w N \<longleftrightarrow>
     (\<forall>t tp. h_cells (hp_topics w) t = Some tp \<longrightarrow> topic_ok w tp (N t)) \<and>
     (\<forall>t t'. t \<noteq> t' \<longrightarrow> h_cells (hp_topics w) t \<noteq> None \<longrightarrow> h_cells (hp_topics w) t' \<noteq> None \<longrightarrow>
        set (N t) \<inter> set (N t') = {})"

definition names_ok :: "'w sizigydb_scheme \<Rightarrow> bool" where
  "names_ok w \<longleftrightarrow> (\<forall>k t. hm_lookup (db_topics w) k = Some t \<longrightarrow>
     (\<exists>tp. h_cells (hp_topics w) t = Some tp \<and> tp_name tp = k @ [0] \<and> 0 \<notin> set k))"

definition db_inv :: "'w sizigydb_scheme \<Rightarrow> bool" where
  "db_inv w \<longleftrightarrow> hm_inv (db_topics w) \<and> hm_inv (db_clients w) \<and> \<not> db_locked w \<and>
     heap_ok (hp_nodes w) \<and> heap_ok (hp_clients w) \<and> heap_ok (hp_topics w) \<and> heap_ok (hp_subs w) \<and>
     names_ok w \<and> (\<exists>N. topics_ok w N)"

subsection \<open>Growing heaps\<close>

definition h_ext :: "'c heap \<Rightarrow> 'c heap \<Rightarrow> bool" where
  "h_ext h h' \<longleftrightarrow> (\<forall>a. h_cells h a \<noteq> None \<longrightarrow> h_cells h' a = h_cells h a)"

lemma h_ext_alloc: "heap_ok h \<Longrightarrow> h_alloc h c = Some (a, h') \<Longrightarrow> h_ext h h'"
  using h_alloc_fresh [of h c a h'] by (auto simp: h_ext_def)

lemma h_ext_refl [simp]: "h_ext h h"
  by (simp add: h_ext_def)

lemma h_extD: "h_ext h h' \<Longrightarrow> h_cells h a = Some c \<Longrightarrow> h_cells h' a = Some c"
  by (simp add: h_ext_def)

lemma chain_ext: "h_ext h h' \<Longrightarrow> chain (h_cells h) p as \<Longrightarrow> chain (h_cells h') p as"
  by (induction as arbitrary: p) (auto dest: h_extD)

lemma chain_data_ext:
  "h_ext h h' \<Longrightarrow> chain (h_cells h) p as \<Longrightarrow> chain_data (h_cells h') as = chain_data (h_cells h) as"
  by (induction as arbitrary: p) (auto simp: cell_data_def dest: h_extD)

lemma list_weak_ext:
  assumes "list_weak h l as" and "h_ext h h'" and "heap_ok h'"
  shows "list_weak h' l as" and "chain_data (h_cells h') as = chain_data (h_cells h) as"
    and "list_items (h', l) = list_items (h, l)"
proof -
  have c: "chain (h_cells h) (l_head l) as"
    using assms(1) by (simp add: list_weak_def)
  show weak: "list_weak h' l as"
    using assms chain_ext [OF assms(2) c] by (simp add: list_weak_def)
  show data: "chain_data (h_cells h') as = chain_data (h_cells h) as"
    by (rule chain_data_ext [OF assms(2) c])
  show "list_items (h', l) = list_items (h, l)"
    using list_weak_items [OF weak] list_weak_items [OF assms(1)] data by simp
qed

lemma list_head_insert_ext:
  "list_head_insert h l val = Inr (h', l') \<Longrightarrow> heap_ok h \<Longrightarrow> h_ext h h' \<and> heap_ok h'"
  using h_ext_alloc h_alloc_fresh(3)
  by (fastforce simp: list_head_insert_def split: option.splits prod.splits)

lemma sub_client_ext:
  assumes "sub_ok w d" and "h_ext (hp_subs w) (hp_subs w')" and "h_ext (hp_clients w) (hp_clients w')"
  shows "sub_client w' d = sub_client w d" and "sub_ok w' d"
proof -
  obtain c where c: "sub_client w d = Some c" "h_cells (hp_clients w) c \<noteq> None"
    using assms(1) by (auto simp: sub_ok_def)
  show eq: "sub_client w' d = sub_client w d"
    using c(1) assms(2) by (auto simp: sub_client_def h_ext_def split: option.splits)
  show "sub_ok w' d"
    using c assms(3) by (auto simp: sub_ok_def eq h_ext_def)
qed

lemma topic_ok_ext:
  assumes "topic_ok w tp as" and "h_ext (hp_nodes w) (hp_nodes w')" and "heap_ok (hp_nodes w')"
    and "h_ext (hp_subs w) (hp_subs w')" and "h_ext (hp_clients w) (hp_clients w')"
  shows "topic_ok w' tp as"
    and "map (\<lambda>d. the (sub_client w' d)) (list_items (hp_nodes w', tp_subscribers tp)) =
      map (\<lambda>d. the (sub_client w d)) (list_items (hp_nodes w, tp_subscribers tp))"
proof -
  have lw: "list_weak (hp_nodes w) (tp_subscribers tp) as"
    and d: "\<And>d. d \<in> set (chain_data (h_cells (hp_nodes w)) as) \<Longrightarrow> sub_ok w d"
    using assms(1) by (auto simp: topic_ok_def)
  note ext = list_weak_ext [OF lw assms(2,3)]
  show "topic_ok w' tp as"
    unfolding topic_ok_def ext(2) using ext(1) sub_client_ext(2) [OF d assms(4,5)] by blast
  show "map (\<lambda>d. the (sub_client w' d)) (list_items (hp_nodes w', tp_subscribers tp)) =
      map (\<lambda>d. the (sub_client w d)) (list_items (hp_nodes w, tp_subscribers tp))"
    unfolding ext(3) list_weak_items [OF lw] using sub_client_ext(1) [OF d assms(4,5)] by simp
qed

subsection \<open>Subscribing\<close>

lemma key_of_name [simp]: "0 \<notin> set k \<Longrightarrow> key_of (k @ [0]) = Inr k"
  by (simp add: key_of_def)

lemma load_client_Some: "h_cells (hp_clients w) c = Some cl \<Longrightarrow> load_client w (Some c) = Inr cl"
  by (simp add: load_client_def h_load_def)

lemma load_topic_Some: "h_cells (hp_topics w) t = Some tp \<Longrightarrow> load_topic w (Some t) = Inr tp"
  by (simp add: load_topic_def h_load_def)

lemma store_topic_Some:
  "h_cells (hp_topics w) t = Some tp \<Longrightarrow>
    store_topic w (Some t) tp' = Inr (w\<lparr>hp_topics := h_upd (hp_topics w) t (Some tp')\<rparr>)"
  by (simp add: store_topic_def h_store_def)

lemma store_client_Some:
  "h_cells (hp_clients w) c = Some cl \<Longrightarrow>
    store_client w (Some c) cl' = Inr (w\<lparr>hp_clients := h_upd (hp_clients w) c (Some cl')\<rparr>)"
  by (simp add: store_client_def h_store_def)

lemmas object_simps = load_client_Some load_topic_Some store_topic_Some store_client_Some

text \<open>A topic with a new subscriber list, and the nodes it uses.\<close>

definition put_subs :: "'w sizigydb_scheme \<Rightarrow> nat \<Rightarrow> topic \<Rightarrow> cell heap \<Rightarrow> clist \<Rightarrow> 'w sizigydb_scheme" where
  "put_subs w t tp h l =
     w\<lparr>hp_nodes := h, hp_topics := h_upd (hp_topics w) t (Some (tp\<lparr>tp_subscribers := l\<rparr>)), db_locked := False\<rparr>"

lemma put_subs_sel [simp]:
  "hp_nodes (put_subs w t tp h l) = h"
  "hp_topics (put_subs w t tp h l) = h_upd (hp_topics w) t (Some (tp\<lparr>tp_subscribers := l\<rparr>))"
  "hp_subs (put_subs w t tp h l) = hp_subs w" "hp_clients (put_subs w t tp h l) = hp_clients w"
  "hp_msgs (put_subs w t tp h l) = hp_msgs w" "hp_pkts (put_subs w t tp h l) = hp_pkts w"
  "db_topics (put_subs w t tp h l) = db_topics w" "db_clients (put_subs w t tp h l) = db_clients w"
  "db_locked (put_subs w t tp h l) = False" "db_now (put_subs w t tp h l) = db_now w"
  by (simp_all add: put_subs_def)

lemma add_subscriber_eq:
  assumes "hm_inv (db_topics w)" and "\<not> db_locked w" and "h_cells (hp_subs w) s = Some sub"
    and "sn_topic sub = k @ [0]" and "0 \<notin> set k" and "hm_lookup (db_topics w) k = Some t"
    and "h_cells (hp_topics w) t = Some tp"
    and "list_head_insert (hp_nodes w) (tp_subscribers tp) (Some s) = Inr (h, l)"
  shows "add_subscriber w (Some s) = Inr (put_subs w t tp h l)"
  using assms
  by (simp add: add_subscriber_def h_load_def hm.get_ok db_lock_def db_unlock_def object_simps put_subs_def)

lemma topics_ok_topic: "topics_ok w N \<Longrightarrow> h_cells (hp_topics w) t = Some tp \<Longrightarrow> topic_ok w tp (N t)"
  by (simp add: topics_ok_def)

lemma sub_client_cong: "hp_subs w' = hp_subs w \<Longrightarrow> sub_client w' d = sub_client w d"
  by (cases d) (simp_all add: sub_client_def)

lemma sub_ok_cong: "hp_subs w' = hp_subs w \<Longrightarrow> hp_clients w' = hp_clients w \<Longrightarrow> sub_ok w' d = sub_ok w d"
  by (simp add: sub_ok_def sub_client_cong [of w' w])

lemma names_ok_upd:
  assumes "names_ok w" and "h_cells (hp_topics w) t = Some tp" and "tp_name tp' = tp_name tp"
    and "db_topics w' = db_topics w" and "hp_topics w' = h_upd (hp_topics w) t (Some tp')"
  shows "names_ok w'"
  using assms by (fastforce simp: names_ok_def)

lemma list_head_insert_head:
  "list_head_insert h l val = Inr (h', l') \<Longrightarrow> l_head l' = Some (h_brk h)"
  by (auto simp: list_head_insert_def h_alloc_def split: if_splits)

text \<open>Replacing the subscriber list of one topic, with nodes no other topic uses.\<close>

lemma put_subs_ok:
  assumes "db_inv w" and "topics_ok w N" and "h_cells (hp_topics w) t = Some tp"
    and "list_weak h l as" and "\<forall>d\<in>set (chain_data (h_cells h) as). sub_ok w d"
    and "\<forall>t' tp'. t' \<noteq> t \<longrightarrow> h_cells (hp_topics w) t' = Some tp' \<longrightarrow>
      list_weak h (tp_subscribers tp') (N t') \<and>
      chain_data (h_cells h) (N t') = chain_data (h_cells (hp_nodes w)) (N t') \<and> set as \<inter> set (N t') = {}"
  shows "topics_ok (put_subs w t tp h l) (N(t := as))" and "db_inv (put_subs w t tp h l)"
    and "subscribers (put_subs w t tp h l) =
      (subscribers w)(t := map (\<lambda>d. the (sub_client w d)) (chain_data (h_cells h) as))"
proof -
  let ?w = "put_subs w t tp h l"
  have subs: "sub_ok ?w d = sub_ok w d" "sub_client ?w d = sub_client w d" for d
    by (auto intro!: sub_ok_cong sub_client_cong)
  have other: "topic_ok ?w tp' (N t')" if "t' \<noteq> t" "h_cells (hp_topics w) t' = Some tp'" for t' tp'
    using assms(6) [rule_format, OF that] topics_ok_topic [OF assms(2) that(2)] by (simp add: topic_ok_def subs)
  have self: "topic_ok ?w (tp\<lparr>tp_subscribers := l\<rparr>) as"
    using assms(4,5) by (simp add: topic_ok_def subs)
  have disj: "set (N t1) \<inter> set (N t2) = {}"
    if "t1 \<noteq> t2" "h_cells (hp_topics w) t1 \<noteq> None" "h_cells (hp_topics w) t2 \<noteq> None" for t1 t2
    using assms(2) that by (simp add: topics_ok_def)
  have new: "set as \<inter> set (N t') = {}" if "t' \<noteq> t" "h_cells (hp_topics w) t' \<noteq> None" for t'
    using assms(6) [rule_format, OF that(1)] that(2) by auto
  show ok: "topics_ok ?w (N(t := as))"
    unfolding topics_ok_def
  proof (intro conjI allI impI)
    fix t' tp' assume "h_cells (hp_topics ?w) t' = Some tp'"
    then show "topic_ok ?w tp' ((N(t := as)) t')"
      using self other [of t' tp'] by (cases "t' = t") auto
  next
    fix t1 t2 assume "t1 \<noteq> t2" "h_cells (hp_topics ?w) t1 \<noteq> None" "h_cells (hp_topics ?w) t2 \<noteq> None"
    then show "set ((N(t := as)) t1) \<inter> set ((N(t := as)) t2) = {}"
      using disj [of t1 t2] new [of t1] new [of t2] by (cases "t1 = t"; cases "t2 = t") auto
  qed
  have names: "names_ok w" and heaps: "heap_ok (hp_topics w)" "heap_ok h"
    using assms(1,4) by (simp_all add: db_inv_def list_weak_def)
  have "names_ok ?w"
    by (rule names_ok_upd [OF names assms(3), of "tp\<lparr>tp_subscribers := l\<rparr>"]) simp_all
  moreover have "heap_ok (hp_topics ?w)"
    unfolding put_subs_sel using heaps(1) assms(3) by (intro heap_ok_upd_Some) simp_all
  ultimately show "db_inv ?w"
    using ok heaps(2) assms(1) unfolding db_inv_def put_subs_sel by blast
  show "subscribers ?w = (subscribers w)(t := map (\<lambda>d. the (sub_client w d)) (chain_data (h_cells h) as))"
  proof
    fix t'
    show "subscribers ?w t' = ((subscribers w)(t := map (\<lambda>d. the (sub_client w d)) (chain_data (h_cells h) as))) t'"
    proof (cases "t' = t")
      case True
      then show ?thesis
        by (simp add: subscribers_def subs list_weak_items [OF assms(4)])
    next
      case False
      show ?thesis
      proof (cases "h_cells (hp_topics w) t'")
        case (Some tp')
        have "list_items (h, tp_subscribers tp') = list_items (hp_nodes w, tp_subscribers tp')"
          using assms(6) [rule_format, OF False Some] topics_ok_topic [OF assms(2) Some]
          by (auto simp: topic_ok_def dest!: list_weak_items)
        with False Some show ?thesis
          by (simp add: subscribers_def subs)
      qed (use False in \<open>simp add: subscribers_def\<close>)
    qed
  qed
qed

lemma topic_subscribers:
  "topic_ok w tp as \<Longrightarrow> h_cells (hp_topics w) t = Some tp \<Longrightarrow>
    subscribers w t = map (\<lambda>d. the (sub_client w d)) (chain_data (h_cells (hp_nodes w)) as)"
  by (auto simp: subscribers_def topic_ok_def dest: list_weak_items)

lemma add_subscriber_ok:
  assumes "db_inv w" and "h_cells (hp_subs w) s = Some sub" and "sn_client sub = Some c"
    and "h_cells (hp_clients w) c \<noteq> None" and "sn_topic sub = k @ [0]" and "0 \<notin> set k"
    and "hm_lookup (db_topics w) k = Some t" and "h_cells (hp_topics w) t = Some tp"
    and "list_slots (hp_nodes w, tp_subscribers tp) > 0"
  obtains h l where "add_subscriber w (Some s) = Inr (put_subs w t tp h l)" "db_inv (put_subs w t tp h l)"
    "subscribers (put_subs w t tp h l) = (subscribers w)(t := c # subscribers w t)"
    "unat (l_len l) = Suc (unat (l_len (tp_subscribers tp)))" "h_avail h = h_avail (hp_nodes w) - 1"
    "list_items (h, l) = Some s # list_items (hp_nodes w, tp_subscribers tp)" "h_ext (hp_nodes w) h" "heap_ok h"
proof -
  have inv: "hm_inv (db_topics w)" "\<not> db_locked w" "heap_ok (hp_nodes w)"
    using assms(1) by (auto simp: db_inv_def)
  obtain N where N: "topics_ok w N"
    using assms(1) by (auto simp: db_inv_def)
  have ok: "topic_ok w tp (N t)"
    by (rule topics_ok_topic [OF N assms(8)])
  then have lw: "list_weak (hp_nodes w) (tp_subscribers tp) (N t)"
    by (simp add: topic_ok_def)
  obtain a h l where ins: "list_head_insert (hp_nodes w) (tp_subscribers tp) (Some s) = Inr (h, l)"
      "list_weak h l (a # N t)"
      "chain_data (h_cells h) (a # N t) = Some s # chain_data (h_cells (hp_nodes w)) (N t)"
      "unat (l_len l) = Suc (unat (l_len (tp_subscribers tp)))"
    by (rule list_head_insert_weak [OF lw assms(9)])
  have ext: "h_ext (hp_nodes w) h" "heap_ok h"
    using list_head_insert_ext [OF ins(1) inv(3)] by auto
  have a: "h_cells (hp_nodes w) a = None"
    using ins(2) list_head_insert_head [OF ins(1)] inv(3) by (auto simp: list_weak_def heap_ok_def)
  have s: "sub_client w (Some s) = Some c" "sub_ok w (Some s)"
    using assms(2-4) by (auto simp: sub_client_def sub_ok_def)
  have "list_weak h (tp_subscribers tp') (N t') \<and>
      chain_data (h_cells h) (N t') = chain_data (h_cells (hp_nodes w)) (N t') \<and> set (a # N t) \<inter> set (N t') = {}"
    if "t' \<noteq> t" "h_cells (hp_topics w) t' = Some tp'" for t' tp'
  proof -
    have lw': "list_weak (hp_nodes w) (tp_subscribers tp') (N t')"
      using topics_ok_topic [OF N that(2)] by (simp add: topic_ok_def)
    have "a \<notin> set (N t')"
      using lw' a by (auto simp: list_weak_def dest: chain_fresh)
    moreover have "set (N t) \<inter> set (N t') = {}"
      using N that assms(8) by (simp add: topics_ok_def)
    ultimately show ?thesis
      using list_weak_ext [OF lw' ext] by auto
  qed
  then have other: "\<forall>t' tp'. t' \<noteq> t \<longrightarrow> h_cells (hp_topics w) t' = Some tp' \<longrightarrow>
      list_weak h (tp_subscribers tp') (N t') \<and>
      chain_data (h_cells h) (N t') = chain_data (h_cells (hp_nodes w)) (N t') \<and> set (a # N t) \<inter> set (N t') = {}"
    by blast
  have "\<forall>d\<in>set (chain_data (h_cells h) (a # N t)). sub_ok w d"
    unfolding ins(3) using ok s by (simp add: topic_ok_def)
  note put = put_subs_ok [OF assms(1) N assms(8) ins(2) this other]
  have avail: "h_avail h = h_avail (hp_nodes w) - 1"
    using ins(1) by (auto simp: list_head_insert_def h_alloc_def split: if_splits)
  have "map (\<lambda>d. the (sub_client w d)) (chain_data (h_cells h) (a # N t)) = c # subscribers w t"
    unfolding ins(3) topic_subscribers [OF ok assms(8)] using s by simp
  then have "subscribers (put_subs w t tp h l) = (subscribers w)(t := c # subscribers w t)"
    by (simp only: put(3))
  moreover have "list_items (h, l) = Some s # list_items (hp_nodes w, tp_subscribers tp)"
    unfolding list_weak_items [OF ins(2)] list_weak_items [OF lw] by (rule ins(3))
  ultimately show thesis
    using add_subscriber_eq [OF inv(1,2) assms(2,5,6,7,8) ins(1)] put(2) ins(4) avail ext by (intro that)
qed

subsection \<open>Unsubscribing\<close>

lemma chain_cong: "\<forall>a\<in>set as. m' a = m a \<Longrightarrow> chain m' p as = chain m p as"
  by (induction as arbitrary: p) auto

lemma chain_data_cong: "\<forall>a\<in>set as. m' a = m a \<Longrightarrow> chain_data m' as = chain_data m as"
  by (simp add: cell_data_def)

definition client_fd :: "'w sizigydb_scheme \<Rightarrow> nat \<Rightarrow> int" where
  "client_fd w c = (case h_cells (hp_clients w) c of None \<Rightarrow> -1 | Some cl \<Rightarrow> cl_fd cl)"

lemma node_fd_ok:
  assumes "sub_ok w (c_data node)"
  shows "node_fd w node = Inr (client_fd w (the (sub_client w (c_data node))))"
proof -
  obtain c cl where c: "sub_client w (c_data node) = Some c" "h_cells (hp_clients w) c = Some cl"
    using assms by (auto simp: sub_ok_def)
  then obtain a s where "c_data node = Some a" "h_cells (hp_subs w) a = Some s" "sn_client s = Some c"
    by (auto simp: sub_client_def split: option.splits)
  with c show ?thesis
    by (simp add: node_fd_def h_load_def object_simps client_fd_def)
qed

lemma sub_compare_ok:
  assumes "sub_ok w (c_data n1)" and "sub_ok w (c_data n2)"
  shows "sub_compare w n1 n2 = Inr (if client_fd w (the (sub_client w (c_data n1))) =
    client_fd w (the (sub_client w (c_data n2))) then 0 else 1)"
  using assms by (simp add: sub_compare_def node_fd_ok)

lemma del_subscriber_eq:
  assumes "hm_inv (db_topics w)" and "\<not> db_locked w" and "h_cells (hp_subs w) s = Some sub"
    and "sn_topic sub = k @ [0]" and "0 \<notin> set k" and "hm_lookup (db_topics w) k = Some t"
    and "h_cells (hp_topics w) t = Some tp"
    and "list_remove_node (Suc (unat (l_len (tp_subscribers tp)))) (hp_nodes w) (l_head (tp_subscribers tp))
      \<lparr>c_data = Some s, c_next = None\<rparr> (sub_compare w) = Inr (h, p)"
  shows "del_subscriber w (Some s) = Inr (put_subs w t tp h ((tp_subscribers tp)\<lparr>l_head := p\<rparr>))"
proof -
  have "sub_compare (w\<lparr>db_topics := m, db_locked := True\<rparr>) = sub_compare w" for m
    by (simp add: fun_eq_iff sub_compare_def node_fd_def load_client_def)
  with assms show ?thesis
    by (simp add: del_subscriber_def h_load_def hm.get_ok db_lock_def db_unlock_def object_simps put_subs_def
        del: list_remove_node.simps)
qed

lemma del_subscriber_ok:
  assumes "db_inv w" and "h_cells (hp_subs w) s = Some sub" and "sn_client sub = Some c"
    and "h_cells (hp_clients w) c \<noteq> None" and "sn_topic sub = k @ [0]" and "0 \<notin> set k"
    and "hm_lookup (db_topics w) k = Some t" and "h_cells (hp_topics w) t = Some tp"
  obtains h l where "del_subscriber w (Some s) = Inr (put_subs w t tp h l)" "db_inv (put_subs w t tp h l)"
    "subscribers (put_subs w t tp h l) =
      (subscribers w)(t := remove_first (\<lambda>x. client_fd w x = client_fd w c) (subscribers w t))"
    "l_len l = l_len (tp_subscribers tp)"
proof -
  have inv: "hm_inv (db_topics w)" "\<not> db_locked w" "heap_ok (hp_nodes w)"
    using assms(1) by (auto simp: db_inv_def)
  obtain N where N: "topics_ok w N"
    using assms(1) by (auto simp: db_inv_def)
  let ?node = "\<lparr>c_data = Some s, c_next = None\<rparr>" and ?m = "h_cells (hp_nodes w)"
  let ?cl = "\<lambda>d. the (sub_client w d)"
  let ?r = "\<lambda>a. if client_fd w (?cl (cell_data ?m a)) = client_fd w c then 0 else 1 :: int"
  have ok: "topic_ok w tp (N t)"
    by (rule topics_ok_topic [OF N assms(8)])
  then have lw: "list_weak (hp_nodes w) (tp_subscribers tp) (N t)"
    and ch: "chain ?m (l_head (tp_subscribers tp)) (N t)" and len: "length (N t) \<le> unat (l_len (tp_subscribers tp))"
    by (simp_all add: topic_ok_def list_weak_def)
  have s: "sub_client w (Some s) = Some c" "sub_ok w (Some s)"
    using assms(2-4) by (auto simp: sub_client_def sub_ok_def)
  have cmp: "\<forall>a\<in>set (N t). \<forall>x. ?m a = Some x \<longrightarrow> sub_compare w x ?node = Inr (?r a)"
  proof (intro ballI allI impI)
    fix a x assume a: "a \<in> set (N t)" "?m a = Some x"
    then have "sub_ok w (c_data x)"
      using ok by (auto simp: topic_ok_def cell_data_def)
    with a s show "sub_compare w x ?node = Inr (?r a)"
      by (simp add: sub_compare_ok cell_data_def)
  qed
  obtain h p where rm: "list_remove_node (Suc (unat (l_len (tp_subscribers tp)))) (hp_nodes w)
        (l_head (tp_subscribers tp)) ?node (sub_compare w) = Inr (h, p)"
      "chain (h_cells h) p (remove_first (\<lambda>a. ?r a = 0) (N t))" "heap_ok h"
      "\<forall>a\<in>set (remove_first (\<lambda>a. ?r a = 0) (N t)). cell_data (h_cells h) a = cell_data ?m a"
      "\<forall>b. b \<notin> set (N t) \<longrightarrow> h_cells h b = ?m b"
    using list_remove_node_chain [where h = "hp_nodes w" and as = "N t" and r = ?r and cmp = "sub_compare w"
        and node = ?node and n = "Suc (unat (l_len (tp_subscribers tp)))", OF ch inv(3) le_imp_less_Suc [OF len] cmp]
    by blast
  define as where "as = remove_first (\<lambda>a. ?r a = 0) (N t)"
  let ?l = "(tp_subscribers tp)\<lparr>l_head := p\<rparr>"
  have sub: "set as \<subseteq> set (N t)"
    unfolding as_def by (rule set_remove_first)
  have weak: "list_weak h ?l as"
    using rm(2,3) len length_remove_first [of "\<lambda>a. ?r a = 0" "N t"] by (auto simp: list_weak_def as_def)
  have data: "chain_data (h_cells h) as = chain_data ?m as"
    using rm(4) by (simp add: as_def)
  have live: "\<forall>d\<in>set (chain_data (h_cells h) as). sub_ok w d"
    unfolding data using ok sub by (auto simp: topic_ok_def)
  have other: "\<forall>t' tp'. t' \<noteq> t \<longrightarrow> h_cells (hp_topics w) t' = Some tp' \<longrightarrow>
      list_weak h (tp_subscribers tp') (N t') \<and> chain_data (h_cells h) (N t') = chain_data ?m (N t') \<and>
      set as \<inter> set (N t') = {}"
  proof (intro allI impI)
    fix t' tp' assume t': "t' \<noteq> t" "h_cells (hp_topics w) t' = Some tp'"
    have disj: "set (N t) \<inter> set (N t') = {}"
      using N t' assms(8) by (simp add: topics_ok_def)
    then have eq: "\<forall>a\<in>set (N t'). h_cells h a = ?m a"
      using rm(5) by blast
    have "list_weak (hp_nodes w) (tp_subscribers tp') (N t')"
      using topics_ok_topic [OF N t'(2)] by (simp add: topic_ok_def)
    then show "list_weak h (tp_subscribers tp') (N t') \<and> chain_data (h_cells h) (N t') = chain_data ?m (N t') \<and>
        set as \<inter> set (N t') = {}"
      using chain_cong [OF eq] chain_data_cong [OF eq] rm(3) disj sub by (auto simp: list_weak_def)
  qed
  note put = put_subs_ok(2,3) [OF assms(1) N assms(8) weak live other]
  have "map ?cl (chain_data ?m as) = remove_first (\<lambda>x. client_fd w x = client_fd w c) (subscribers w t)"
    unfolding topic_subscribers [OF ok assms(8)] as_def map_map
    by (rule map_remove_first) simp
  with put(2) data have "subscribers (put_subs w t tp h ?l) =
      (subscribers w)(t := remove_first (\<lambda>x. client_fd w x = client_fd w c) (subscribers w t))"
    by (simp only:)
  from del_subscriber_eq [OF inv(1,2) assms(2,5,6,7,8) rm(1)] put(1) this show thesis
    by (rule that) simp
qed

subsection \<open>The client table\<close>

text \<open>
  What is outside the topics, the subscriptions and the nodes may change freely, as long as no
  client disappears.
\<close>

lemma subscribers_cong:
  "hp_nodes w' = hp_nodes w \<Longrightarrow> hp_topics w' = hp_topics w \<Longrightarrow> hp_subs w' = hp_subs w \<Longrightarrow>
    subscribers w' = subscribers w"
  by (simp add: fun_eq_iff subscribers_def sub_client_cong [of w' w] split: option.split)

lemma sub_ok_mono:
  assumes "sub_ok w d" and "hp_subs w' = hp_subs w" and "dom (h_cells (hp_clients w)) \<subseteq> dom (h_cells (hp_clients w'))"
  shows "sub_ok w' d"
  using assms by (fastforce simp: sub_ok_def sub_client_cong [of w' w])

lemma db_inv_frame:
  assumes "db_inv w" and "hp_nodes w' = hp_nodes w" and "hp_topics w' = hp_topics w" and "hp_subs w' = hp_subs w"
    and "db_topics w' = db_topics w" and "hm_inv (db_clients w')" and "\<not> db_locked w'"
    and "heap_ok (hp_clients w')" and "dom (h_cells (hp_clients w)) \<subseteq> dom (h_cells (hp_clients w'))"
  shows "db_inv w'"
proof -
  obtain N where "topics_ok w N"
    using assms(1) by (auto simp: db_inv_def)
  then have "topics_ok w' N"
    using sub_ok_mono [OF _ assms(4,9)] by (simp add: topics_ok_def topic_ok_def assms(2,3))
  then show ?thesis
    using assms by (auto simp: db_inv_def names_ok_def)
qed

lemma add_client_ok:
  assumes "db_inv w" and "h_cells (hp_clients w) c = Some cl" and "cl_id cl = Some (k @ [0])" and "0 \<notin> set k"
    and "hm_room (db_clients w) k"
  obtains m where "add_client w (Some c) = Inr (w\<lparr>db_clients := m\<rparr>)" "hm_inv m"
    "hm_lookup m = (hm_lookup (db_clients w))(k := Some c)"
proof -
  have "hm_inv (db_clients w)"
    using assms(1) by (simp add: db_inv_def)
  from hm.put_ok [OF this assms(5), of "Some c"] assms(2-4) that show thesis
    by (auto simp: add_client_def object_simps id_key_def)
qed

text \<open>A key that stands at most in the slot where a probe finds it.\<close>

definition only_slot :: "hashmap \<Rightarrow> key \<Rightarrow> bool" where
  "only_slot m k \<longleftrightarrow> (\<forall>p<length (hm_entries m). slot_match (hm_entries m) k p \<longrightarrow> hm_find m k = Some p)"

lemma del_client_ok:
  assumes "db_inv w" and "h_cells (hp_clients w) c = Some cl" and "cl_id cl = Some (k @ [0])" and "0 \<notin> set k"
  obtains m where "del_client w (Some c) = Inr (w\<lparr>db_clients := m\<rparr>)" "hm_inv m"
    "\<And>k'. k' \<noteq> k \<Longrightarrow> hm_lookup m k' = hm_lookup (db_clients w) k'"
    "only_slot (db_clients w) k \<Longrightarrow> (\<forall>p<length (hm_entries m). \<not> slot_match (hm_entries m) k p) \<and> hm_lookup m k = None"
proof -
  have inv: "hm_inv (db_clients w)" and wf: "hm_wf (db_clients w)"
    using assms(1) by (simp_all add: db_inv_def hm_inv_def)
  show thesis
  proof (cases "hm_find (db_clients w) k")
    case None
    then have "del_client w (Some c) = Inr (w\<lparr>db_clients := db_clients w\<rparr>)"
      using assms by (simp add: del_client_def object_simps id_key_def hashmap_del_find [OF inv])
    then show thesis
      by (rule that [OF _ inv]) (use None in \<open>auto simp: only_slot_def hm_lookup_def\<close>)
  next
    case (Some i)
    then have "del_client w (Some c) = Inr (w\<lparr>db_clients := hm_cleared (db_clients w) i\<rparr>)"
      using assms by (simp add: del_client_def object_simps id_key_def hashmap_del_find [OF inv])
    then show thesis
    proof (rule that [OF _ hm_inv_cleared [OF inv Some]])
      show "\<And>k'. k' \<noteq> k \<Longrightarrow> hm_lookup (hm_cleared (db_clients w) i) k' = hm_lookup (db_clients w) k'"
        using hm_lookup_cleared(1) [OF wf Some] by simp
      assume "only_slot (db_clients w) k"
      then have "\<forall>p. p \<noteq> i \<longrightarrow> p < length (hm_entries (db_clients w)) \<longrightarrow> \<not> slot_match (hm_entries (db_clients w)) k p"
        using Some by (auto simp: only_slot_def)
      then show "(\<forall>p<length (hm_entries (hm_cleared (db_clients w) i)). \<not> slot_match (hm_entries (hm_cleared (db_clients w) i)) k p) \<and>
          hm_lookup (hm_cleared (db_clients w) i) k = None"
        using hm_lookup_cleared(2) [OF wf Some] hm_find_less [OF wf Some] by (auto simp: hm_cleared_def slot_match_def nth_list_update split: if_splits)
    qed
  qed
qed

section \<open>Properties\<close>

text \<open>A database with one topic, named "c", one client, and a subscription that is not linked yet.\<close>

definition client0 :: client where
  "client0 = \<lparr>cl_status = ONLINE, cl_keepalive = 60, cl_last_action_time = 0, cl_addr = None, cl_fd = 7,
     cl_ctx_handler = RequestHandler, cl_id = Some [97, 0], cl_reply = None, cl_ptr = None\<rparr>"

definition topic0 :: topic where
  "topic0 = \<lparr>tp_name = [99, 0], tp_subscribers = \<lparr>l_head = None, l_tail = None, l_len = 0\<rparr>,
     tp_messages = create_queue True, tp_retained = None\<rparr>"

definition one_cell :: "nat \<Rightarrow> 'c \<Rightarrow> 'c heap" where
  "one_cell a x = \<lparr>h_cells = (\<lambda>_. None)(a := Some x), h_brk = Suc a, h_avail = 8\<rparr>"

lemma one_cell_sel [simp]:
  "h_cells (one_cell a x) = (\<lambda>_. None)(a := Some x)" "h_brk (one_cell a x) = Suc a" "h_avail (one_cell a x) = 8"
  "heap_ok (one_cell a x)"
  by (simp_all add: one_cell_def heap_ok_def)

definition db1 :: sizigydb where
  "db1 = \<lparr>hp_nodes = empty_heap 8, hp_clients = one_cell 0 client0, hp_topics = one_cell 1 topic0,
     hp_subs = one_cell 0 \<lparr>sn_client = Some 0, sn_topic = [99, 0], sn_qos = 0\<rparr>, hp_msgs = empty_heap 8,
     hp_pkts = empty_heap 8, db_bus_port = 19090, db_topics = hm_c, db_ack_waiting = hm0, db_clients = hm0,
     db_peers = \<lparr>l_head = None, l_tail = None, l_len = 0\<rparr>, db_locked = False, db_now = 1000\<rparr>"

lemma hm_find_hm0: "hm_find hm0 k = None"
proof -
  have "\<not> slot_match (hm_entries hm0) k p" if "p \<in> set (probe_path (hm_table_size hm0) k)" for p
    using probe_path_less [OF _ that] by (simp add: slot_match_def hm0_def empty_entry_def)
  then show ?thesis
    unfolding hm_find_def find_None_iff by blast
qed

lemma hm_lookup_hm0: "hm_lookup hm0 k = None"
  by (simp add: hm_lookup_def hm_find_hm0)

lemma hm_lookup_hm_c: "hm_lookup hm_c k = (if k = [99] then Some 1 else None)"
  using hm_lookup_stored [OF _ hm_seq_slots(1), of "Some 1" k] hm0_inv
  by (simp add: hm_c_def hm_inv_def hm_lookup_hm0)

lemma db1_sel [simp]:
  "hp_nodes db1 = empty_heap 8" "hp_clients db1 = one_cell 0 client0" "hp_topics db1 = one_cell 1 topic0"
  "hp_subs db1 = one_cell 0 \<lparr>sn_client = Some 0, sn_topic = [99, 0], sn_qos = 0\<rparr>"
  "db_topics db1 = hm_c" "db_clients db1 = hm0" "db_locked db1 = False"
  by (simp_all add: db1_def)

lemma db1_inv: "db_inv db1"
proof -
  have "topics_ok db1 (\<lambda>_. [])"
    by (auto simp: topics_ok_def topic_ok_def list_weak_def topic0_def empty_heap_def heap_ok_def split: if_splits)
  moreover have "names_ok db1"
    by (auto simp: names_ok_def hm_lookup_hm_c topic0_def split: if_splits)
  ultimately show ?thesis
    unfolding db_inv_def using hm_seq_inv(1) hm0_inv by (auto simp: empty_heap_def heap_ok_def)
qed

lemma db1_subscribers: "subscribers db1 (Suc 0) = []"
  by (simp add: subscribers_def topic0_def list_items_def)

text \<open>
  Subscribing refines consing to the topic's list of subscribers: on a consistent database,
  for a live subscription of a live client to an existing topic, and while allocation succeeds,
  \<open>add_subscriber\<close> puts the client in front of the subscribers of that topic, changes no other
  topic, keeps the database consistent and leaves the lock free.  For a topic that is not in the
  table it dereferences NULL.\<close>

theorem add_subscriber_refines:
  assumes "db_inv w" and "h_cells (hp_subs w) s = Some sub" and "sn_client sub = Some c"
    and "h_cells (hp_clients w) c \<noteq> None" and "sn_topic sub = k @ [0]" and "0 \<notin> set k"
  shows "case hm_lookup (db_topics w) k of
      None \<Rightarrow> add_subscriber w (Some s) = Inl NullDeref
    | Some t \<Rightarrow> (\<forall>tp. h_cells (hp_topics w) t = Some tp \<longrightarrow> list_slots (hp_nodes w, tp_subscribers tp) > 0) \<longrightarrow>
        (\<exists>w'. add_subscriber w (Some s) = Inr w' \<and> db_inv w' \<and>
          subscribers w' = (subscribers w)(t := c # subscribers w t))"
proof (cases "hm_lookup (db_topics w) k")
  case None
  then show ?thesis
    using assms by (simp add: add_subscriber_def h_load_def db_inv_def hm.get_ok db_lock_def load_topic_def)
next
  case (Some t)
  then obtain tp where tp: "h_cells (hp_topics w) t = Some tp"
    using assms(1) by (auto simp: db_inv_def names_ok_def)
  show ?thesis
    unfolding Some option.case
  proof
    assume "\<forall>tp. h_cells (hp_topics w) t = Some tp \<longrightarrow> list_slots (hp_nodes w, tp_subscribers tp) > 0"
    with tp have slots: "list_slots (hp_nodes w, tp_subscribers tp) > 0"
      by simp
    show "\<exists>w'. add_subscriber w (Some s) = Inr w' \<and> db_inv w' \<and> subscribers w' = (subscribers w)(t := c # subscribers w t)"
      by (rule add_subscriber_ok [OF assms Some tp slots]) blast
  qed
qed

lemma add_subscriber_refines_witness:
  "\<exists>w'. add_subscriber db1 (Some 0) = Inr w' \<and> db_inv w' \<and> subscribers w' 1 = [0]"
proof -
  have "\<forall>tp. h_cells (hp_topics db1) 1 = Some tp \<longrightarrow> list_slots (hp_nodes db1, tp_subscribers tp) > 0"
    by (simp add: topic0_def list_slots_def empty_heap_def)
  with add_subscriber_refines [of db1 0 "\<lparr>sn_client = Some 0, sn_topic = [99, 0], sn_qos = 0\<rparr>" 0 "[99]"] show ?thesis
    by (auto simp: db1_inv db1_subscribers hm_lookup_hm_c)
qed

text \<open>
  C17: Unsubscribing removes the first subscription whose client has the same descriptor, and only
  that one; the database stays consistent and other topics are untouched.  For a topic that is
  not in the table \<open>del_subscriber\<close> dereferences NULL.\<close>

theorem del_subscriber_refines:
  assumes "db_inv w" and "h_cells (hp_subs w) s = Some sub" and "sn_client sub = Some c"
    and "h_cells (hp_clients w) c \<noteq> None" and "sn_topic sub = k @ [0]" and "0 \<notin> set k"
  shows "case hm_lookup (db_topics w) k of
      None \<Rightarrow> del_subscriber w (Some s) = Inl NullDeref
    | Some t \<Rightarrow> \<exists>w'. del_subscriber w (Some s) = Inr w' \<and> db_inv w' \<and>
        subscribers w' = (subscribers w)(t := remove_first (\<lambda>x. client_fd w x = client_fd w c) (subscribers w t))"
proof (cases "hm_lookup (db_topics w) k")
  case None
  then show ?thesis
    using assms by (simp add: del_subscriber_def h_load_def db_inv_def hm.get_ok db_lock_def load_topic_def)
next
  case (Some t)
  then obtain tp where tp: "h_cells (hp_topics w) t = Some tp"
    using assms(1) by (auto simp: db_inv_def names_ok_def)
  show ?thesis
    unfolding Some option.case by (rule del_subscriber_ok [OF assms Some tp]) blast
qed

lemma del_subscriber_refines_witness:
  "\<exists>w'. del_subscriber db1 (Some 0) = Inr w' \<and> db_inv w' \<and> subscribers w' 1 = []"
  using del_subscriber_refines [of db1 0 "\<lparr>sn_client = Some 0, sn_topic = [99, 0], sn_qos = 0\<rparr>" 0 "[99]"]
  by (auto simp: db1_inv db1_subscribers hm_lookup_hm_c)

text \<open>
  C18: A topic that anybody has unsubscribed from cannot be destroyed: removing a subscription leaves
  the recorded length of the list as it was, and \<open>destroy_topic\<close>, which releases as many nodes as
  recorded, then runs past the end of the list.\<close>

theorem unsubscribe_breaks_destroy:
  assumes "db_inv w" and "h_cells (hp_subs w) s = Some sub" and "sn_client sub = Some c"
    and "h_cells (hp_clients w) c \<noteq> None" and "sn_topic sub = k @ [0]" and "0 \<notin> set k"
    and "hm_lookup (db_topics w) k = Some t" and "c \<in> set (subscribers w t)"
  shows "\<exists>w'. del_subscriber w (Some s) = Inr w' \<and> destroy_topic w' (Some t) = Inl NullDeref"
proof -
  obtain tp where tp: "h_cells (hp_topics w) t = Some tp"
    using assms(1,7) by (auto simp: db_inv_def names_ok_def)
  obtain N where N: "topics_ok w N"
    using assms(1) by (auto simp: db_inv_def)
  have before: "length (subscribers w t) \<le> unat (l_len (tp_subscribers tp))"
    using topics_ok_topic [OF N tp] topic_subscribers [OF topics_ok_topic [OF N tp] tp]
    by (simp add: topic_ok_def list_weak_def)
  obtain h l where w': "del_subscriber w (Some s) = Inr (put_subs w t tp h l)" "db_inv (put_subs w t tp h l)"
      "subscribers (put_subs w t tp h l) =
        (subscribers w)(t := remove_first (\<lambda>x. client_fd w x = client_fd w c) (subscribers w t))"
      "l_len l = l_len (tp_subscribers tp)"
    by (rule del_subscriber_ok [OF assms(1-7) tp])
  let ?w = "put_subs w t tp h l"
  obtain N' where "topics_ok ?w N'"
    using w'(2) by (auto simp: db_inv_def)
  then have ok: "topic_ok ?w (tp\<lparr>tp_subscribers := l\<rparr>) (N' t)"
    by (rule topics_ok_topic) simp
  have "\<exists>x\<in>set (subscribers w t). client_fd w x = client_fd w c"
    using assms(8) by blast
  then have "length (subscribers ?w t) < length (subscribers w t)"
    unfolding w'(3) fun_upd_same length_remove_first using length_pos_if_in_set [OF assms(8)] by simp
  moreover have "length (subscribers ?w t) = length (N' t)"
    using topic_subscribers [OF ok] by simp
  ultimately have "length (N' t) < unat (l_len l)"
    using before w'(4) by simp
  with ok have "list_release h (Some l) 1 = Inl NullDeref"
    by (auto simp: list_release_def topic_ok_def list_weak_def intro!: list_release_loop_short)
  then have "destroy_topic ?w (Some t) = Inl NullDeref"
    by (simp add: destroy_topic_def object_simps)
  with w'(1) show ?thesis
    by blast
qed

text \<open>The database with the subscription linked.\<close>

definition db1_linked :: sizigydb where
  "db1_linked = put_subs db1 1 topic0 (one_cell 0 \<lparr>c_data = Some 0, c_next = None\<rparr>)
     \<lparr>l_head = Some 0, l_tail = Some 0, l_len = 1\<rparr>"

lemma db1_linked_ok: "db_inv db1_linked" "subscribers db1_linked 1 = [0]"
proof -
  let ?h = "one_cell 0 \<lparr>c_data = Some 0, c_next = None\<rparr>" and ?l = "\<lparr>l_head = Some 0, l_tail = Some 0, l_len = 1\<rparr>"
  have N: "topics_ok db1 (\<lambda>_. [])"
    by (auto simp: topics_ok_def topic_ok_def list_weak_def topic0_def empty_heap_def heap_ok_def split: if_splits)
  have t: "h_cells (hp_topics db1) 1 = Some topic0"
    by simp
  have l: "list_weak ?h ?l [0]"
    by (simp add: list_weak_def)
  have d: "\<forall>d\<in>set (chain_data (h_cells ?h) [0]). sub_ok db1 d"
    by (simp add: cell_data_def sub_ok_def sub_client_def)
  have o: "\<forall>t' tp'. t' \<noteq> 1 \<longrightarrow> h_cells (hp_topics db1) t' = Some tp' \<longrightarrow>
      list_weak ?h (tp_subscribers tp') [] \<and> chain_data (h_cells ?h) [] = chain_data (h_cells (hp_nodes db1)) [] \<and>
      set [0] \<inter> set [] = {}"
    by simp
  note put = put_subs_ok [OF db1_inv N t l d o]
  show "db_inv db1_linked"
    unfolding db1_linked_def by (rule put(2))
  show "subscribers db1_linked 1 = [0]"
    unfolding db1_linked_def put(3) by (simp add: cell_data_def sub_client_def)
qed

lemma unsubscribe_breaks_destroy_witness:
  "\<exists>w'. del_subscriber db1_linked (Some 0) = Inr w' \<and> destroy_topic w' (Some 1) = Inl NullDeref"
proof -
  have "h_cells (hp_subs db1_linked) 0 = Some \<lparr>sn_client = Some 0, sn_topic = [99, 0], sn_qos = 0\<rparr>"
    and "h_cells (hp_clients db1_linked) 0 \<noteq> None" and "hm_lookup (db_topics db1_linked) [99] = Some 1"
    by (simp_all add: db1_linked_def hm_lookup_hm_c)
  with unsubscribe_breaks_destroy [OF db1_linked_ok(1), of 0 _ 0 "[99]" 1] db1_linked_ok(2) show ?thesis
    by simp
qed

end
