(* ===== verification/Sz_Util.thy ===== *)
theory Sz_Util
  imports Sz_Prelude
begin

text \<open>
  The helpers of \<^verbatim>\<open>util.c\<close>: string helpers, the name generator, the counter behind a mutex,
  the throttler and the log.  The counter is also modelled one memory access at a time, for any number of
  threads, to show that the mutex loses no update.
\<close>

section \<open>Strings\<close>

text \<open>\<open>str[strcspn(str, "\n")] = 0\<close>.\<close>

definition remove_newline :: "block \<Rightarrow> cerr + block" where
  "remove_newline str =
     bindR (c_strlen str) (\<lambda>_. wr str (length (takeWhile (\<lambda>c. c \<noteq> 10) (c_str str))) 0)"

definition append_string :: "bool \<Rightarrow> block \<Rightarrow> block \<Rightarrow> cerr + block" where
  "append_string m s1 s2 =
     bindR (c_strlen s1) (\<lambda>len1.
     bindR (c_strlen s2) (\<lambda>len2.
     bindR (guardR m ExitFailure) (\<lambda>_.
     Inr (take len1 s1 @ take (len2 + 1) s2))))"

definition pool :: block where
  "pool = map (\<lambda>c. of_nat (of_char c)) ''abcdefghijklmnopqrstwxyz0123456789''"

text \<open>The loop of \<open>random_name\<close>; \<open>rands\<close> are the values \<open>rand\<close> returns, which are not negative.\<close>

fun random_name_loop :: "nat list \<Rightarrow> nat \<Rightarrow> nat \<Rightarrow> block \<Rightarrow> cerr + (block \<times> nat list)" where
  "random_name_loop rands 0 i name = Inr (name, rands)"
| "random_name_loop rands (Suc n) i name =
     (let r = (case rands of [] \<Rightarrow> 0 | r # _ \<Rightarrow> r) in
      bindR (rd pool (r mod length pool)) (\<lambda>c.
      bindR (wr name i c) (\<lambda>name.
      random_name_loop (tl rands) n (i + 1) name)))"

definition random_name :: "(nat \<Rightarrow> u8) \<Rightarrow> nat list \<Rightarrow> nat \<Rightarrow> cerr + (block \<times> nat list)" where
  "random_name junk rands len =
     bindR (wr (map junk [0..<len + 1]) len 0) (\<lambda>name. random_name_loop rands len 0 name)"

text \<open>\<open>parse_int\<close> on a block of characters; \<open>char\<close> is signed and \<open>int\<close> arithmetic must not overflow.\<close>

definition int_range :: "int \<Rightarrow> bool" where
  "int_range n \<longleftrightarrow> - (2 ^ 31) \<le> n \<and> n < 2 ^ 31"

fun parse_int_loop :: "block \<Rightarrow> int \<Rightarrow> cerr + int" where
  "parse_int_loop [] n = Inl OutOfBounds"
| "parse_int_loop (c # s) n =
     (if c = 0 then Inr n
      else bindR (guardR (int_range (n * 10)) SignedOverflow) (\<lambda>_.
           let n' = n * 10 + (sint c - 48) in
           bindR (guardR (int_range n') SignedOverflow) (\<lambda>_. parse_int_loop s n')))"

definition parse_int :: "block \<Rightarrow> cerr + int" where
  "parse_int str = parse_int_loop str 0"

text \<open>
  The conversions of the C library the program uses: \<open>atoi\<close>, undefined when the value is not an
  \<open>int\<close>, and the \<open>%d\<close> of \<open>snprintf\<close>.
\<close>

definition c_isspace :: "u8 \<Rightarrow> bool" where
  "c_isspace c \<longleftrightarrow> c = 32 \<or> 9 \<le> c \<and> c \<le> 13"

definition c_isdigit :: "u8 \<Rightarrow> bool" where
  "c_isdigit c \<longleftrightarrow> 48 \<le> c \<and> c \<le> 57"

definition digits_value :: "u8 list \<Rightarrow> int" where
  "digits_value s = foldl (\<lambda>n c. n * 10 + (uint c - 48)) 0 (takeWhile c_isdigit s)"

definition c_atoi :: "block \<Rightarrow> cerr + int" where
  "c_atoi str =
     bindR (c_strlen str) (\<lambda>_.
     let s = dropWhile c_isspace (c_str str);
         n = (if take 1 s = [45] then - digits_value (tl s)
              else if take 1 s = [43] then digits_value (tl s) else digits_value s)
     in bindR (guardR (int_range n) SignedOverflow) (\<lambda>_. Inr n))"

fun dec_digits :: "nat \<Rightarrow> u8 list" where
  "dec_digits n = (if n < 10 then [48 + of_nat n] else dec_digits (n div 10) @ [48 + of_nat (n mod 10)])"

declare dec_digits.simps [simp del]

definition c_itoa :: "int \<Rightarrow> block" where
  "c_itoa n = (if n < 0 then [45] else []) @ dec_digits (nat \<bar>n\<bar>) @ [0]"

section \<open>The counter and the throttler\<close>

record atomic =
  at_value :: u64
  at_locked :: bool

definition at_lock :: "atomic \<Rightarrow> cerr + atomic" where
  "at_lock a = (if at_locked a then Inl Deadlock else Inr (a\<lparr>at_locked := True\<rparr>))"

definition at_unlock :: "atomic \<Rightarrow> atomic" where
  "at_unlock a = a\<lparr>at_locked := False\<rparr>"

definition init_atomic :: "bool \<Rightarrow> cerr + atomic" where
  "init_atomic m = bindR (guardR m NullDeref) (\<lambda>_. Inr \<lparr>at_value = 0, at_locked = False\<rparr>)"

definition write_atomic :: "atomic \<Rightarrow> u64 \<Rightarrow> cerr + atomic" where
  "write_atomic a val = bindR (at_lock a) (\<lambda>a. Inr (at_unlock (a\<lparr>at_value := val\<rparr>)))"

definition increment_by :: "atomic \<Rightarrow> u64 \<Rightarrow> cerr + atomic" where
  "increment_by c amount = bindR (at_lock c) (\<lambda>c. Inr (at_unlock (c\<lparr>at_value := at_value c + amount\<rparr>)))"

definition increment :: "atomic \<Rightarrow> cerr + atomic" where
  "increment c = increment_by c 1"

definition incr_read_atomic :: "atomic \<Rightarrow> cerr + (atomic \<times> u64)" where
  "incr_read_atomic c =
     bindR (at_lock c) (\<lambda>c.
     let c = c\<lparr>at_value := at_value c + 1\<rparr>; rc = at_value c in Inr (at_unlock c, rc))"

definition read_atomic :: "atomic \<Rightarrow> cerr + (atomic \<times> u64)" where
  "read_atomic c = bindR (at_lock c) (\<lambda>c. let rc = at_value c in Inr (at_unlock c, rc))"

text \<open>
  The start time is a \<open>double\<close>, of which only the value \<open>clock()\<close> gave is used: any type.
\<close>

record 'd throttler =
  th_us :: u64
  th_start :: 'd
  th_locked :: bool

definition init_throttler :: "bool \<Rightarrow> 'd \<Rightarrow> cerr + 'd throttler" where
  "init_throttler m zero = bindR (guardR m NullDeref) (\<lambda>_. Inr \<lparr>th_us = 0, th_start = zero, th_locked = False\<rparr>)"

definition throttler_set_us :: "'d throttler \<Rightarrow> u64 \<Rightarrow> 'd \<Rightarrow> cerr + 'd throttler" where
  "throttler_set_us t us clock =
     (if th_locked t then Inl Deadlock else Inr (t\<lparr>th_us := us, th_start := clock\<rparr>))"

definition throttler_get_us :: "'d throttler \<Rightarrow> cerr + u64" where
  "throttler_get_us t = (if th_locked t then Inl Deadlock else Inr (th_us t))"

definition Throttler_get_start :: "'d throttler \<Rightarrow> cerr + 'd" where
  "Throttler_get_start t = (if th_locked t then Inl Deadlock else Inr (th_start t))"

section \<open>Threads on one counter\<close>

text \<open>
  \<open>increment_by\<close> one access at a time.  Every thread has a list of amounts to add; for each it
  takes the mutex, loads the value, stores the sum and releases the mutex.  A thread that finds
  the mutex taken waits, that is, takes no step.
\<close>

datatype pc = Outside | Entered | Loaded u64 | Stored

record counter_run =
  cr_atomic :: atomic
  cr_pc :: "nat \<Rightarrow> pc"
  cr_todo :: "nat \<Rightarrow> u64 list"

definition set_pc :: "counter_run \<Rightarrow> nat \<Rightarrow> pc \<Rightarrow> atomic \<Rightarrow> u64 list \<Rightarrow> counter_run" where
  "set_pc s i p a l = s\<lparr>cr_atomic := a, cr_pc := (cr_pc s)(i := p), cr_todo := (cr_todo s)(i := l)\<rparr>"

inductive increment_step :: "counter_run \<Rightarrow> counter_run \<Rightarrow> bool" where
  enter: "cr_pc s i = Outside \<Longrightarrow> cr_todo s i = by_i # rest \<Longrightarrow> at_lock (cr_atomic s) = Inr a \<Longrightarrow>
    increment_step s (set_pc s i Entered a (by_i # rest))"
| load: "cr_pc s i = Entered \<Longrightarrow>
    increment_step s (set_pc s i (Loaded (at_value (cr_atomic s))) (cr_atomic s) (cr_todo s i))"
| store: "cr_pc s i = Loaded v \<Longrightarrow> cr_todo s i = by_i # rest \<Longrightarrow>
    increment_step s (set_pc s i Stored ((cr_atomic s)\<lparr>at_value := v + by_i\<rparr>) rest)"
| leave: "cr_pc s i = Stored \<Longrightarrow>
    increment_step s (set_pc s i Outside (at_unlock (cr_atomic s)) (cr_todo s i))"

text \<open>What is left to add, and the mutual exclusion the mutex gives.\<close>

definition pending :: "nat set \<Rightarrow> counter_run \<Rightarrow> u64" where
  "pending T s = (\<Sum>i\<in>T. sum_list (cr_todo s i))"

definition exclusive :: "nat set \<Rightarrow> counter_run \<Rightarrow> bool" where
  "exclusive T s \<longleftrightarrow>
     (\<forall>i. i \<notin> T \<longrightarrow> cr_pc s i = Outside \<and> cr_todo s i = []) \<and>
     (\<forall>i. cr_pc s i \<noteq> Outside \<longrightarrow> at_locked (cr_atomic s)) \<and>
     (\<forall>i j. cr_pc s i \<noteq> Outside \<longrightarrow> cr_pc s j \<noteq> Outside \<longrightarrow> i = j) \<and>
     (\<forall>i v. cr_pc s i = Loaded v \<longrightarrow> v = at_value (cr_atomic s))"

section \<open>String lemmas\<close>

lemma length_pool: "length pool = 34"
  by (simp add: pool_def)

lemma random_name_loop_ok:
  assumes "i + n < length name"
  shows "\<exists>cs. random_name_loop rands n i name = Inr (take i name @ cs @ drop (i + n) name, drop n rands) \<and>
    length cs = n \<and> set cs \<subseteq> set pool"
  using assms
proof (induction n arbitrary: rands i name)
  case (Suc n)
  define r where "r = (case rands of [] \<Rightarrow> 0 | r # _ \<Rightarrow> r)"
  define c where "c = pool ! (r mod length pool)"
  have c: "r mod length pool < length pool"
    by (simp add: length_pool)
  have "i + 1 + n < length (name[i := c])"
    using Suc.prems by simp
  from Suc.IH [OF this, of "tl rands"] obtain cs where cs:
    "random_name_loop (tl rands) n (i + 1) (name[i := c]) =
      Inr (take (i + 1) (name[i := c]) @ cs @ drop (i + 1 + n) (name[i := c]), drop n (tl rands))"
    "length cs = n" "set cs \<subseteq> set pool"
    by blast
  have "take (i + 1) (name[i := c]) = take i name @ [c]"
    using Suc.prems by (simp add: take_Suc_conv_app_nth)
  moreover have "drop (i + 1 + n) (name[i := c]) = drop (i + Suc n) name"
    by simp
  moreover have "c \<in> set pool"
    using c by (simp add: c_def)
  ultimately show ?case
    using cs Suc.prems c drop_Suc [of n rands]
    by (intro exI [of _ "c # cs"]) (simp add: r_def [symmetric] c_def [symmetric] Let_def)
qed simp

lemma random_name_ok:
  obtains cs where "random_name junk rands len = Inr (cs @ [0], drop len rands)" "length cs = len"
    "set cs \<subseteq> set pool"
proof -
  have "0 + len < length ((map junk [0..<len + 1])[len := 0])"
    by simp
  from random_name_loop_ok [OF this, of rands] show thesis
    by (auto simp: random_name_def drop_update_swap intro!: that)
qed

lemma pool_nonzero: "0 \<notin> set pool"
  by (simp add: pool_def)

section \<open>Decimal numbers\<close>

lemma digit_facts:
  assumes "d < 10"
  shows "uint (48 + of_nat d :: u8) = 48 + int d" and "c_isdigit (48 + of_nat d)" and "(48 + of_nat d :: u8) \<noteq> 0"
    and "sint (48 + of_nat d :: u8) = 48 + int d" and "\<not> c_isspace (48 + of_nat d)"
    and "(48 + of_nat d :: u8) \<noteq> 45" and "(48 + of_nat d :: u8) \<noteq> 43"
proof -
  have "d \<in> {0, 1, 2, 3, 4, 5, 6, 7, 8, 9}"
    using assms by auto
  then show "uint (48 + of_nat d :: u8) = 48 + int d" and "c_isdigit (48 + of_nat d)" and "(48 + of_nat d :: u8) \<noteq> 0"
    and "sint (48 + of_nat d :: u8) = 48 + int d" and "\<not> c_isspace (48 + of_nat d)"
    and "(48 + of_nat d :: u8) \<noteq> 45" and "(48 + of_nat d :: u8) \<noteq> 43"
    by (auto simp: c_isdigit_def c_isspace_def)
qed

lemma dec_digits_all:
  assumes "c \<in> set (dec_digits n)"
  obtains d where "d < 10" "c = 48 + of_nat d"
  using assms
proof (induction n arbitrary: c thesis rule: dec_digits.induct)
  case (1 n)
  show ?case
  proof (cases "n < 10")
    case True
    with "1.prems" show ?thesis
      by (simp add: dec_digits.simps [of n])
  next
    case False
    with "1.prems"(2) have "c \<in> set (dec_digits (n div 10)) \<or> c = 48 + of_nat (n mod 10)"
      by (auto simp: dec_digits.simps [of n])
    then show ?thesis
      using "1.IH" [OF False] "1.prems"(1) [of "n mod 10"] "1.prems"(1) by auto
  qed
qed

lemma dec_digits_nonempty: "dec_digits n \<noteq> []"
  by (simp add: dec_digits.simps [of n])

lemma dec_digits_value: "foldl (\<lambda>n c. n * 10 + (uint c - 48)) 0 (dec_digits n) = int n"
proof (induction n rule: dec_digits.induct)
  case (1 n)
  show ?case
  proof (cases "n < 10")
    case True
    then show ?thesis
      using digit_facts(1) [of n] by (simp add: dec_digits.simps [of n])
  next
    case False
    have "int (n div 10) * 10 + int (n mod 10) = int n"
      by (simp add: zdiv_int zmod_int)
    with 1 [OF False] False show ?thesis
      using digit_facts(1) [of "n mod 10"] by (simp add: dec_digits.simps [of n])
  qed
qed

definition value_from :: "int \<Rightarrow> u8 list \<Rightarrow> int" where
  "value_from n ds = foldl (\<lambda>n c. n * 10 + (uint c - 48)) n ds"

lemma value_from_mono:
  assumes "0 \<le> n" and "\<forall>c\<in>set ds. \<exists>d<10. c = 48 + of_nat d"
  shows "n \<le> value_from n ds"
  using assms
proof (induction ds arbitrary: n)
  case (Cons c ds)
  then obtain d where d: "d < 10" "c = 48 + of_nat d"
    by auto
  have u: "uint c - 48 = int d"
    using digit_facts(1) [OF d(1)] d(2) by simp
  have "n * 10 + int d \<le> value_from (n * 10 + int d) ds"
    using Cons by auto
  then show ?case
    using Cons.prems(1) unfolding value_from_def foldl.simps u by linarith
qed (simp add: value_from_def)

lemma parse_int_loop_digits:
  assumes "0 \<le> n" and "n < 2 ^ 31" and "\<forall>c\<in>set ds. \<exists>d<10. c = 48 + of_nat d"
  shows "parse_int_loop (ds @ [0]) n = (if value_from n ds < 2 ^ 31 then Inr (value_from n ds) else Inl SignedOverflow)"
  using assms
proof (induction ds arbitrary: n)
  case (Cons c ds)
  then obtain d where d: "d < 10" "c = 48 + of_nat d"
    by auto
  note f = digit_facts [OF d(1), folded d(2)]
  let ?n = "n * 10 + int d"
  have v: "value_from n (c # ds) = value_from ?n ds"
    by (simp add: value_from_def f(1))
  have mono: "?n \<le> value_from ?n ds"
    using value_from_mono [of ?n ds] Cons.prems by auto
  show ?case
  proof (cases "?n < 2 ^ 31")
    case True
    with Cons.IH [of ?n] Cons.prems f show ?thesis
      unfolding v by (simp add: int_range_def Let_def)
  next
    case False
    with mono have "\<not> value_from ?n ds < 2 ^ 31"
      by linarith
    with False f Cons.prems show ?thesis
      unfolding v by (simp add: int_range_def Let_def guardR_def)
  qed
qed (simp add: value_from_def)

lemma atoi_digits:
  assumes "n < 2 ^ 31"
  shows "c_atoi (dec_digits n @ [0]) = Inr (int n)"
proof -
  have d: "\<exists>d<10. c = 48 + of_nat d" if "c \<in> set (dec_digits n)" for c
    using dec_digits_all [OF that] by blast
  have nz: "0 \<notin> set (dec_digits n)" and dig: "\<forall>c\<in>set (dec_digits n). c_isdigit c \<and> \<not> c_isspace c \<and> c \<noteq> 45 \<and> c \<noteq> 43"
    using d digit_facts by metis+
  obtain c cs where cs: "dec_digits n = c # cs"
    using dec_digits_nonempty [of n] by (cases "dec_digits n") auto
  have "takeWhile c_isdigit (dec_digits n) = dec_digits n"
    using dig by (auto simp: takeWhile_eq_all_conv)
  then have "digits_value (dec_digits n) = int n"
    unfolding digits_value_def by (simp only: dec_digits_value)
  moreover have "c_str (dec_digits n @ [0]) = dec_digits n"
    using nz by simp
  moreover have "dropWhile c_isspace (dec_digits n) = dec_digits n"
    using dig cs by simp
  moreover have "take 1 (dec_digits n) \<noteq> [45]" "take 1 (dec_digits n) \<noteq> [43]"
    using dig cs by auto
  ultimately show ?thesis
    using assms nz by (simp add: c_atoi_def int_range_def)
qed

section \<open>No lost update\<close>

lemma set_pc_sel [simp]:
  "cr_atomic (set_pc s i p a l) = a" "cr_pc (set_pc s i p a l) = (cr_pc s)(i := p)"
  "cr_todo (set_pc s i p a l) = (cr_todo s)(i := l)"
  by (simp_all add: set_pc_def)

lemma pending_upd:
  assumes "finite T" and "i \<in> T"
  shows "pending T (set_pc s i p a l) + sum_list (cr_todo s i) = pending T s + sum_list l"
proof -
  have "(\<Sum>j\<in>T - {i}. sum_list (((cr_todo s)(i := l)) j)) = (\<Sum>j\<in>T - {i}. sum_list (cr_todo s j))"
    by (rule sum.cong) auto
  then show ?thesis
    using sum.remove [OF assms, of "\<lambda>j. sum_list (((cr_todo s)(i := l)) j)"] sum.remove [OF assms, of "\<lambda>j. sum_list (cr_todo s j)"]
    by (simp add: pending_def algebra_simps)
qed

lemma increment_step_exclusive:
  assumes "increment_step s s'" and "exclusive T s"
  shows "exclusive T s'"
  using assms by (cases rule: increment_step.cases) (auto simp: exclusive_def at_lock_def at_unlock_def split: if_splits)

lemma increment_step_total:
  assumes "increment_step s s'" and "exclusive T s" and "finite T"
  shows "at_value (cr_atomic s') + pending T s' = at_value (cr_atomic s) + pending T s"
proof -
  have T: "i \<in> T" if "cr_pc s i \<noteq> Outside \<or> cr_todo s i \<noteq> []" for i
    using assms(2) that by (auto simp: exclusive_def)
  from assms(1) show ?thesis
  proof cases
    case (enter i by_i rest a)
    then show ?thesis
      using pending_upd [OF assms(3) T, of i s Entered a "by_i # rest"]
      by (auto simp: at_lock_def split: if_splits)
  next
    case (load i)
    then show ?thesis
      using pending_upd [OF assms(3) T, of i s "Loaded (at_value (cr_atomic s))" "cr_atomic s" "cr_todo s i"] by simp
  next
    case (store i v by_i rest)
    moreover have "v = at_value (cr_atomic s)"
      using store assms(2) by (auto simp: exclusive_def)
    ultimately show ?thesis
      using pending_upd [OF assms(3) T, of i s Stored "(cr_atomic s)\<lparr>at_value := v + by_i\<rparr>" rest]
      by (simp add: algebra_simps)
  next
    case (leave i)
    then show ?thesis
      using pending_upd [OF assms(3) T, of i s Outside "at_unlock (cr_atomic s)" "cr_todo s i"] by (simp add: at_unlock_def)
  qed
qed

section \<open>Properties\<close>

text \<open>
  \<open>parse_int\<close> reads back every decimal number that fits in an \<open>int\<close>, and on a longer one its
  arithmetic overflows.\<close>

theorem parse_int_decimal:
  "parse_int (dec_digits n @ [0]) = (if n < 2 ^ 31 then Inr (int n) else Inl SignedOverflow)"
proof -
  have "\<forall>c\<in>set (dec_digits n). \<exists>d<10. c = 48 + of_nat d"
    using dec_digits_all by metis
  moreover have "value_from 0 (dec_digits n) = int n"
    by (simp add: value_from_def dec_digits_value)
  ultimately show ?thesis
    using parse_int_loop_digits [of 0 "dec_digits n"] by (simp add: parse_int_def)
qed

text \<open>
  \<open>random_name\<close> writes within its block and returns a string of exactly the length asked for,
  made of characters of the pool and terminated behind them, whatever \<open>rand\<close> returns.\<close>

theorem random_name_string:
  "\<exists>cs. random_name junk rands len = Inr (cs @ [0], drop len rands) \<and> length cs = len \<and>
     set cs \<subseteq> set pool \<and> c_strlen (cs @ [0]) = Inr len"
proof -
  obtain cs where cs: "random_name junk rands len = Inr (cs @ [0], drop len rands)" "length cs = len" "set cs \<subseteq> set pool"
    by (rule random_name_ok)
  moreover from this(3) have "0 \<notin> set cs"
    using pool_nonzero by blast
  ultimately show ?thesis
    by auto
qed

text \<open>
  C36: No update of a counter is lost: however the threads that call \<open>increment_by\<close> interleave
  their loads and stores, at every moment the value plus what is still to be added is the
  initial value plus all amounts modulo $2^{64}$, and at most one thread is inside.  Once all
  threads are done the value is that of the calls made one after the other.\<close>

theorem increments_not_lost:
  assumes "increment_step\<^sup>*\<^sup>* s0 s" and "finite T" and "exclusive T s0"
  shows "exclusive T s \<and> at_value (cr_atomic s) + pending T s = at_value (cr_atomic s0) + pending T s0 \<and>
    ((\<forall>i. cr_todo s i = []) \<longrightarrow> at_value (cr_atomic s) = at_value (cr_atomic s0) + pending T s0)"
proof -
  have "exclusive T s \<and> at_value (cr_atomic s) + pending T s = at_value (cr_atomic s0) + pending T s0"
    using assms(1)
  proof (induction rule: rtranclp_induct)
    case (step s1 s2)
    then show ?case
      using increment_step_exclusive [OF step.hyps(2)] increment_step_total [OF step.hyps(2) _ assms(2)] by auto
  qed (use assms(3) in simp)
  moreover have "pending T s = 0" if "\<forall>i. cr_todo s i = []"
    using that by (simp add: pending_def)
  ultimately show ?thesis
    by auto
qed

definition two_threads :: counter_run where
  "two_threads = \<lparr>cr_atomic = \<lparr>at_value = 5, at_locked = False\<rparr>, cr_pc = (\<lambda>_. Outside),
     cr_todo = (\<lambda>_. [])(0 := [2], 1 := [3])\<rparr>"

lemma increments_not_lost_witness:
  "\<exists>s. increment_step\<^sup>*\<^sup>* two_threads s \<and> at_value (cr_atomic s) + pending {0, 1} s = 10 \<and> cr_pc s 1 = Entered"
proof -
  let ?s = "set_pc two_threads 1 Entered \<lparr>at_value = 5, at_locked = True\<rparr> [3]"
  have "increment_step two_threads ?s"
    by (rule increment_step.enter) (simp_all add: two_threads_def at_lock_def)
  then have "increment_step\<^sup>*\<^sup>* two_threads ?s"
    by (rule r_into_rtranclp)
  moreover have "exclusive {0, 1} two_threads" "pending {0, 1} two_threads = 5"
    by (auto simp: exclusive_def two_threads_def pending_def)
  ultimately show ?thesis
    using increments_not_lost [of two_threads ?s "{0, 1}"]
    by (intro exI [of _ ?s]) (simp add: two_threads_def)
qed

section \<open>Logging\<close>

definition MAX_LOG_SIZE :: nat where
  "MAX_LOG_SIZE = 99"

text \<open>\<open>vsnprintf\<close> into an array of \<open>n\<close> bytes that held \<open>msg\<close>: \<open>line\<close> is the text the format gives.\<close>

definition vsnprintf :: "block \<Rightarrow> nat \<Rightarrow> block \<Rightarrow> block" where
  "vsnprintf msg n line = (let out = take (n - 1) line @ [0] in out @ drop (length out) msg)"

text \<open>
  What \<open>s_log\<close> prints: the time as \<open>strftime\<close> gives it, the mark of the level, the message.  \<open>junk\<close> is
  what the array \<open>msg\<close> holds at the start.
\<close>

definition s_log :: "(nat \<Rightarrow> u8) \<Rightarrow> u8 \<Rightarrow> u8 \<Rightarrow> block \<Rightarrow> block \<Rightarrow> cerr + block" where
  "s_log junk loglevel level line stamp =
     (if level > loglevel then Inr []
      else let n = MAX_LOG_SIZE + 4;
               msg = vsnprintf (map junk [0..<n]) n line
           in bindR (wr_block msg MAX_LOG_SIZE [46, 46, 46]) (\<lambda>msg.
              bindR (wr msg (MAX_LOG_SIZE + 3) 0) (\<lambda>msg.
              bindR (rd [73, 33, 35, 0] (unat level)) (\<lambda>mark.
              Inr (c_str stamp @ [32, mark, 32] @ c_str msg @ [10])))))"

text \<open>
  The mark of a cut message stands behind the ninety-ninth character: it is added to a message
  of exactly that length too, although nothing of it is missing.
\<close>

lemma vsnprintf_length: "length msg = n \<Longrightarrow> n > 0 \<Longrightarrow> length (vsnprintf msg n line) = n"
  by (simp add: vsnprintf_def Let_def)

lemma s_log_message:
  assumes "length msg = 103" and "0 \<notin> set line"
  shows "\<exists>msg'. wr_block (vsnprintf msg 103 line) 99 [46, 46, 46] = Inr msg' \<and> length msg' = 103 \<and>
    c_str (msg'[102 := 0]) = (if length line < 99 then line else take 99 line @ [46, 46, 46])"
proof -
  let ?m = "vsnprintf msg 103 line"
  have len: "length ?m = 103"
    using assms(1) by (intro vsnprintf_length) simp_all
  let ?m' = "take 99 ?m @ [46, 46, 46] @ drop 102 ?m"
  have set: "?m'[102 := 0] = take 99 ?m @ [46, 46, 46, 0]"
  proof -
    obtain x where "drop 102 ?m = [x]"
      using len by (cases "drop 102 ?m"; cases "tl (drop 102 ?m)") (auto dest: arg_cong [of _ _ length])
    then show ?thesis
      using len by (simp add: list_update_append)
  qed
  have "c_str (?m'[102 := 0]) = (if length line < 99 then line else take 99 line @ [46, 46, 46])"
  proof (cases "length line < 99")
    case True
    then have "take 99 ?m = line @ 0 # take (98 - length line) (drop (Suc (length line)) msg)"
      by (simp add: vsnprintf_def Let_def take_Cons')
    then show ?thesis
      unfolding set using True assms(2) by simp
  next
    case False
    then have "take 99 ?m = take 99 line"
      by (simp add: vsnprintf_def Let_def)
    moreover have "0 \<notin> set (take 99 line @ [46, 46, 46])"
      using assms(2) by (auto dest: in_set_takeD)
    ultimately show ?thesis
      unfolding set using False c_str_append_nul [of "take 99 line @ [46, 46, 46]" "[]"] by simp
  qed
  with len show ?thesis
    by (simp add: wr_block_def)
qed

lemma s_log_truncates:
  assumes "level \<le> loglevel" and "level \<le> 2" and "0 \<notin> set line"
  shows "s_log junk loglevel level line stamp =
    Inr (c_str stamp @ [32, [73, 33, 35] ! unat level, 32] @ (if length line < 99 then line else take 99 line @ [46, 46, 46]) @ [10])"
proof -
  obtain msg' where m: "wr_block (vsnprintf (map junk [0..<103]) 103 line) 99 [46, 46, 46] = Inr msg'" "length msg' = 103"
      "c_str (msg'[102 := 0]) = (if length line < 99 then line else take 99 line @ [46, 46, 46])"
    using s_log_message [of "map junk [0..<103]" line] assms(3) by (auto simp del: upt_Suc)
  have "unat level < 3"
    using assms(2) by (simp add: word_le_nat_alt)
  then have "rd [73, 33, 35, 0] (unat level) = Inr ([73, 33, 35] ! unat level :: u8)"
    by (auto simp: rd_def nth_Cons less_Suc_eq numeral_3_eq_3 split: nat.split)
  with m assms(1) show ?thesis
    by (simp add: s_log_def MAX_LOG_SIZE_def wr_def not_less del: upt_Suc)
qed

end
