(* ===== verification/Sz_Receive.thy ===== *)
theory Sz_Receive
  imports Sz_Protocol
begin

text \<open>
  \<open>recv_packet\<close> of \<^verbatim>\<open>server.c\<close>: it collects a packet from the socket in a ring buffer, first the
  five bytes of the header, then as many as the header announces, and copies it into a buffer.
\<close>

definition HEADLEN :: nat where "HEADLEN = 1 + 4"

section \<open>Receiving a packet\<close>

text \<open>
  The loop that waits for the header.  \<open>n\<close> is a \<open>size_t\<close>, so a result of \<open>-1\<close> is added modulo
  $2^{64}$ and the test \<open>n < 0\<close> is never true; \<open>None\<close> is the return of NULL.  The loop polls a
  socket that has no data, hence the fuel.
\<close>

fun recv_header_loop ::
  "nat \<Rightarrow> recv_ev list \<Rightarrow> ringbuf \<Rightarrow> size_t \<Rightarrow> cerr + (recv_ev list \<times> ringbuf \<times> size_t option)" where
  "recv_header_loop fuel es r n =
     (if n < of_nat HEADLEN
      then (case fuel of
          0 \<Rightarrow> Inl Diverges
        | Suc f \<Rightarrow>
            bindR (recvbytes es r HEADLEN) (\<lambda>(es, r, k).
            let n = n + of_int k in
            if n = 0 then Inr (es, r, None) else recv_header_loop f es r n))
      else Inr (es, r, Some n))"

declare recv_header_loop.simps [simp del]

text \<open>\<open>k\<close> calls of \<open>ringbuf_pop\<close> into consecutive bytes; a pop of an empty buffer writes nothing.\<close>

fun pop_into :: "nat \<Rightarrow> ringbuf \<Rightarrow> block \<Rightarrow> nat \<Rightarrow> cerr + (ringbuf \<times> block)" where
  "pop_into 0 r d i = Inr (r, d)"
| "pop_into (Suc k) r d i =
     bindR (ringbuf_pop r) (\<lambda>(r, v, _).
     bindR (case v of None \<Rightarrow> Inr d | Some x \<Rightarrow> wr d i x) (\<lambda>d.
     pop_into k r d (i + 1)))"

fun recv_body_loop :: "nat \<Rightarrow> recv_ev list \<Rightarrow> ringbuf \<Rightarrow> u32 \<Rightarrow> cerr + (recv_ev list \<times> ringbuf)" where
  "recv_body_loop fuel es r need =
     (if ringbuf_size r < ucast need
      then (case fuel of
          0 \<Rightarrow> Inl Diverges
        | Suc f \<Rightarrow>
            bindR (recvbytes es r (unat need)) (\<lambda>(es, r, _). recv_body_loop f es r need))
      else Inr (es, r))"

declare recv_body_loop.simps [simp del]

definition recv_packet ::
  "nat \<Rightarrow> (nat \<Rightarrow> u8) \<Rightarrow> recv_ev list \<Rightarrow> ringbuf \<Rightarrow> cerr + (recv_ev list \<times> ringbuf \<times> (buffer \<times> u8) option)" where
  "recv_packet fuel junk es r =
     bindR (recv_header_loop fuel es r 0) (\<lambda>(es, r, n).
     case n of
       None \<Rightarrow> Inr (es, r, None)
     | Some _ \<Rightarrow>
         let tmp = map junk [0..<unat (ringbuf_size r)] in
         bindR (pop_into HEADLEN r tmp 0) (\<lambda>(r, tmp).
         bindR (rd_block tmp 1 4) (\<lambda>bs.
         let tlen = ntohl HOST (load32 HOST (bs ! 0) (bs ! 1) (bs ! 2) (bs ! 3)) in
         bindR (recv_body_loop fuel es r (tlen - of_nat HEADLEN)) (\<lambda>(es, r).
         bindR (buffer_init True True junk (ucast tlen)) (\<lambda>b.
         bindR (rd_block tmp 0 HEADLEN) (\<lambda>hdr.
         bindR (wr_block (b_data b) 0 hdr) (\<lambda>d.
         bindR (pop_into (unat (tlen - of_nat HEADLEN)) r d HEADLEN) (\<lambda>(r, d).
         bindR (rd tmp 0) (\<lambda>opc.
         Inr (es, r, Some (b\<lparr>b_data := d\<rparr>, opc)))))))))))"

section \<open>Bytes that are ready\<close>

text \<open>The bytes that can be read before the socket would block, fail or end.\<close>

fun ready :: "recv_ev list \<Rightarrow> block" where
  "ready (Chunk bs # es) = bs @ ready es"
| "ready _ = []"

lemma recv_ready:
  assumes "Chunk [] \<notin> set es" and "ready es \<noteq> []" and "0 < n"
  obtains bs es' where "recv es n = (Got bs, es')" "bs \<noteq> []" "length bs \<le> n" "ready es = bs @ ready es'"
    "Chunk [] \<notin> set es'"
proof -
  obtain cs es1 where es: "es = Chunk cs # es1"
    using assms(2) by (cases es rule: ready.cases) auto
  show thesis
  proof (cases "length cs \<le> n")
    case True
    with es assms that [of cs es1] show thesis
      by auto
  next
    case False
    with es assms that [of "take n cs" "Chunk (drop n cs) # es1"] show thesis
      by (auto simp: take_eq_Nil min_def)
  qed
qed

text \<open>When enough bytes are ready and fit, \<open>recvbytes\<close> moves exactly as many as asked for.\<close>

lemma recvbytes_loop_ready:
  assumes "ring_inv r" and "Chunk [] \<notin> set es" and "tot \<le> bufsize" and "bufsize \<le> INT_MAX"
    and "bufsize - tot \<le> length (ready es)" and "bufsize - tot \<le> ring_room r"
  shows "\<exists>es' r'. recvbytes_loop es r bufsize tot = Inr (es', r', int bufsize) \<and> ring_inv r' \<and>
    rb_max r' = rb_max r \<and> ring_contents r' = ring_contents r @ take (bufsize - tot) (ready es) \<and>
    ready es' = drop (bufsize - tot) (ready es) \<and> Chunk [] \<notin> set es'"
  using assms
proof (induction es r bufsize tot rule: recvbytes_loop.induct)
  case (1 es r bufsize tot)
  note unf = recvbytes_loop.simps [of es r bufsize tot]
  show ?case
  proof (cases "tot < bufsize")
    case False
    with "1.prems" have "tot = bufsize"
      by simp
    with "1.prems" show ?thesis
      by (simp add: recvbytes_loop.simps [of es r bufsize bufsize])
  next
    case True
    obtain bs es1 where rv: "recv es (bufsize - tot) = (Got bs, es1)" "bs \<noteq> []" "length bs \<le> bufsize - tot"
        "ready es = bs @ ready es1" "Chunk [] \<notin> set es1"
      by (rule recv_ready [of es "bufsize - tot"]) (use True "1.prems" in auto)
    obtain r1 rc1 where r1: "ringbuf_bulk_push r bs (length bs) = Inr (r1, rc1)" "ring_inv r1"
        "rb_max r1 = rb_max r" "ring_contents r1 = ring_contents r @ bs"
      using bulk_push_contents [OF "1.prems"(1), of "length bs" bs] rv(3) "1.prems"(6) by auto
    have "tot + length bs \<le> INT_MAX"
      using rv(3) True "1.prems"(4) by linarith
    then have g: "guardR (tot + length bs \<le> INT_MAX) SignedOverflow = Inr ()"
      by simp
    have "ring_len r1 = ring_len r + length bs"
      using arg_cong [OF r1(4), of length] by simp
    then have room: "bufsize - (tot + length bs) \<le> ring_room r1"
      using "1.prems"(6) r1(3) by (simp add: ring_room_def)
    have le: "tot + length bs \<le> bufsize" "bufsize - (tot + length bs) \<le> length (ready es1)"
      using rv(3,4) True "1.prems"(5) by auto
    from "1.IH" [OF True rv(1) [symmetric] refl rv(2) r1(1) refl g r1(2) rv(5) le(1) "1.prems"(4) le(2) room]
    obtain es' r' where IH: "recvbytes_loop es1 r1 bufsize (tot + length bs) = Inr (es', r', int bufsize)"
        "ring_inv r'" "rb_max r' = rb_max r1"
        "ring_contents r' = ring_contents r1 @ take (bufsize - (tot + length bs)) (ready es1)"
        "ready es' = drop (bufsize - (tot + length bs)) (ready es1)" "Chunk [] \<notin> set es'"
      by blast
    have "recvbytes_loop es r bufsize tot = Inr (es', r', int bufsize)"
      using True rv(1,2) r1(1) g IH(1) by (simp add: unf)
    with IH r1 rv(3,4) show ?thesis
      by simp
  qed
qed

lemma recvbytes_ready:
  assumes "ring_inv r" and "Chunk [] \<notin> set es" and "n \<le> INT_MAX"
    and "n \<le> length (ready es)" and "n \<le> ring_room r"
  obtains es' r' where "recvbytes es r n = Inr (es', r', int n)" "ring_inv r'" "rb_max r' = rb_max r"
    "ring_contents r' = ring_contents r @ take n (ready es)" "ready es' = drop n (ready es)" "Chunk [] \<notin> set es'"
  using recvbytes_loop_ready [of r es 0 n] assms by (auto simp: recvbytes_def)

lemma pop_into_contents:
  assumes "ring_inv r" and "ring_contents r = xs @ ys" and "length xs = k" and "i + k \<le> length d"
  shows "\<exists>r'. pop_into k r d i = Inr (r', take i d @ xs @ drop (i + k) d) \<and> ring_inv r' \<and>
    ring_contents r' = ys \<and> unat (rb_max r') = unat (rb_max r)"
  using assms
proof (induction k arbitrary: r d i xs)
  case (Suc k)
  then obtain x xs' where xs: "xs = x # xs'" "length xs' = k"
    by (cases xs) auto
  obtain r1 where r1: "ringbuf_pop r = Inr (r1, Some x, 0)" "ring_inv r1" "ring_contents r1 = xs' @ ys"
      "unat (rb_max r1) = unat (rb_max r)"
    using ring.pop_some [OF Suc.prems(1), of x "xs' @ ys"] Suc.prems(2) xs by auto
  have "i + 1 + k \<le> length (d[i := x])"
    using Suc.prems(4) by simp
  from Suc.IH [OF r1(2,3) xs(2) this] obtain r' where r':
    "pop_into k r1 (d[i := x]) (i + 1) =
      Inr (r', take (i + 1) (d[i := x]) @ xs' @ drop (i + 1 + k) (d[i := x]))" "ring_inv r'"
    "ring_contents r' = ys" "unat (rb_max r') = unat (rb_max r)"
    using r1(4) by auto
  moreover have "take (i + 1) (d[i := x]) = take i d @ [x]"
    using Suc.prems(4) by (simp add: take_Suc_conv_app_nth)
  moreover have "drop (i + 1 + k) (d[i := x]) = drop (i + Suc k) d"
    by simp
  ultimately show ?case
    using r1(1) xs(1) Suc.prems(4) by simp
qed simp

section \<open>A complete packet\<close>

lemma recv_header_ready:
  assumes "ring_inv r" and "ring_contents r = []" and "Chunk [] \<notin> set es" and "5 \<le> length (ready es)"
    and "5 \<le> unat (rb_max r)"
  obtains es' r' where "recv_header_loop (Suc f) es r 0 = Inr (es', r', Some 5)" "ring_inv r'" "rb_max r' = rb_max r"
    "ring_contents r' = take 5 (ready es)" "ready es' = drop 5 (ready es)" "Chunk [] \<notin> set es'"
proof -
  have "ring_len r = 0"
    using arg_cong [OF assms(2), of length] by simp
  then obtain es' r' where r': "recvbytes es r 5 = Inr (es', r', int 5)" "ring_inv r'" "rb_max r' = rb_max r"
    "ring_contents r' = ring_contents r @ take 5 (ready es)" "ready es' = drop 5 (ready es)" "Chunk [] \<notin> set es'"
    using recvbytes_ready [of r es 5] assms by (auto simp: ring_room_def)
  moreover have "recv_header_loop (Suc f) es r 0 = Inr (es', r', Some 5)"
    using r'(1) by (simp add: recv_header_loop.simps [of "Suc f"] recv_header_loop.simps [of f] HEADLEN_def word_less_nat_alt)
  ultimately show thesis
    using assms(2) that by simp
qed

lemma recv_body_ready:
  assumes "ring_inv r" and "ring_contents r = []" and "Chunk [] \<notin> set es"
    and "unat need \<le> length (ready es)" and "unat need \<le> unat (rb_max r)" and "unat need \<le> INT_MAX"
  obtains es' r' where "recv_body_loop (Suc f) es r need = Inr (es', r')" "ring_inv r'" "rb_max r' = rb_max r"
    "ring_contents r' = take (unat need) (ready es)" "ready es' = drop (unat need) (ready es)" "Chunk [] \<notin> set es'"
proof (cases "need = 0")
  case True
  then have "recv_body_loop (Suc f) es r need = Inr (es, r)"
    by (simp add: recv_body_loop.simps)
  with True assms that show thesis
    by simp
next
  case False
  have len: "ring_len r = 0"
    using arg_cong [OF assms(2), of length] by simp
  then obtain es' r' where r': "recvbytes es r (unat need) = Inr (es', r', int (unat need))" "ring_inv r'" "rb_max r' = rb_max r"
    "ring_contents r' = ring_contents r @ take (unat need) (ready es)" "ready es' = drop (unat need) (ready es)" "Chunk [] \<notin> set es'"
    using recvbytes_ready [of r es "unat need"] assms by (auto simp: ring_room_def)
  have "unat (ringbuf_size r) = 0" and "unat (ringbuf_size r') = unat need"
    using len arg_cong [OF r'(4), of length] assms(2,4) by (auto simp: ring_len_def)
  then have "recv_body_loop (Suc f) es r need = Inr (es', r')"
    using r'(1) False
    by (auto simp: recv_body_loop.simps [of "Suc f"] recv_body_loop.simps [of f] word_less_nat_alt unat_gt_0)
  with r' assms(2) that show thesis
    by simp
qed

text \<open>A block that is a packet: its size field is its length.\<close>

definition packet_block :: "block \<Rightarrow> bool" where
  "packet_block p \<longleftrightarrow> 5 \<le> length p \<and> length p < 2 ^ 31 \<and>
     load32 BigEndian (p ! 1) (p ! 2) (p ! 3) (p ! 4) = of_nat (length p)"

lemma packet_block_len:
  assumes "packet_block p"
  shows "unat (of_nat (length p) :: u32) = length p" and "unat (of_nat (length p) - 5 :: u32) = length p - 5"
    and "(ucast (of_nat (length p) :: u32) :: size_t) = of_nat (length p)"
    and "unat (of_nat (length p) :: size_t) = length p"
  using assms by (auto simp: packet_block_def unat_of_nat_small unat_sub word_le_nat_alt
      intro: word_unat_eq_iff [THEN iffD2])

text \<open>Once the body has arrived, the packet is cut out and the rest stays in the ring buffer.\<close>

lemma recv_packet_finish:
  assumes "recv_header_loop fuel es r 0 = Inr (es1, r1, Some n)"
    and "pop_into HEADLEN r1 (map junk [0..<unat (ringbuf_size r1)]) 0 = Inr (r2, take 5 p @ t)"
    and "packet_block p"
    and "recv_body_loop fuel es1 r2 (of_nat (length p) - 5) = Inr (es2, r3)"
    and "ring_inv r3" and "ring_contents r3 = drop 5 p @ lost"
  obtains r4 where "recv_packet fuel junk es r =
      Inr (es2, r4, Some (\<lparr>b_size = of_nat (length p), b_pos = 0, b_data = p\<rparr>, p ! 0))"
    "ring_contents r4 = lost"
proof -
  have p: "5 \<le> length p" "load32 BigEndian (p ! 1) (p ! 2) (p ! 3) (p ! 4) = of_nat (length p)"
    using assms(3) by (auto simp: packet_block_def)
  note len = packet_block_len [OF assms(3)]
  define d where "d = take 5 p @ drop 5 (map junk [0..<length p])"
  obtain r4 where r4: "pop_into (length p - 5) r3 d 5 = Inr (r4, p)" "ring_contents r4 = lost"
    using pop_into_contents [OF assms(5,6), of "length p - 5" 5 d] p(1) by (auto simp: d_def)
  obtain a0 a1 a2 a3 a4 q where pq: "p = a0 # a1 # a2 # a3 # a4 # q"
    using p(1) by (auto simp: numeral_eq_Suc Suc_le_length_iff)
  have bs: "rd_block (take 5 p @ t) 1 4 = Inr [p ! 1, p ! 2, p ! 3, p ! 4]"
    and hdr: "rd_block (take 5 p @ t) 0 HEADLEN = Inr (take 5 p)"
    and opc: "rd (take 5 p @ t) 0 = Inr (p ! 0)"
    by (simp_all add: rd_block_def HEADLEN_def pq)
  have wr: "wr_block (map junk [0..<length p]) 0 (take 5 p) = Inr d"
    using p(1) by (simp add: wr_block_def d_def)
  have "recv_packet fuel junk es r =
      Inr (es2, r4, Some (\<lparr>b_size = of_nat (length p), b_pos = 0, b_data = p\<rparr>, p ! 0))"
    unfolding recv_packet_def
    using assms(1,2,4) r4(1) bs hdr wr opc
    by (simp add: Let_def ntohl_load32 p(2) HEADLEN_def buffer_init_def len del: One_nat_def)
  with r4(2) that show thesis
    by blast
qed

lemma recv_packet_ready:
  assumes "ring_inv r" and "ring_contents r = []" and "Chunk [] \<notin> set es" and "ready es = p @ rest"
    and "packet_block p" and "length p \<le> unat (rb_max r)"
  obtains es' r' where "recv_packet (Suc f) junk es r =
      Inr (es', r', Some (\<lparr>b_size = of_nat (length p), b_pos = 0, b_data = p\<rparr>, p ! 0))"
    "ready es' = rest" "Chunk [] \<notin> set es'" "ring_contents r' = []"
proof -
  have p: "5 \<le> length p" "length p < 2 ^ 31"
    using assms(5) by (auto simp: packet_block_def)
  let ?need = "of_nat (length p) - 5 :: u32"
  note len = packet_block_len [OF assms(5)]
  obtain es1 r1 where h: "recv_header_loop (Suc f) es r 0 = Inr (es1, r1, Some 5)" "ring_inv r1"
      "rb_max r1 = rb_max r" "ring_contents r1 = take 5 p" "ready es1 = drop 5 p @ rest" "Chunk [] \<notin> set es1"
    by (rule recv_header_ready [OF assms(1-3), of f]) (use assms(4,6) p(1) in auto)
  define tmp where "tmp = map junk [0..<unat (ringbuf_size r1)]"
  have l5: "length tmp = 5"
    using arg_cong [OF h(4), of length] p(1) by (simp add: tmp_def ring_len_def)
  obtain r2 where r2: "pop_into HEADLEN r1 tmp 0 = Inr (r2, take 5 p @ [])" "ring_inv r2" "ring_contents r2 = []"
      "unat (rb_max r2) = unat (rb_max r)"
    using pop_into_contents [OF h(2), of "take 5 p" "[]" 5 0 tmp] h(3,4) l5 p(1) by (auto simp: HEADLEN_def)
  have le: "unat ?need \<le> length (ready es1)" "unat ?need \<le> unat (rb_max r2)" "unat ?need \<le> INT_MAX"
    unfolding len(2) h(5) r2(4) using p(2) assms(6) by auto
  obtain es3 r3 where b: "recv_body_loop (Suc f) es1 r2 ?need = Inr (es3, r3)" "ring_inv r3"
      "ring_contents r3 = drop 5 p @ []" "ready es3 = rest" "Chunk [] \<notin> set es3"
    by (rule recv_body_ready [OF r2(2,3) h(6) le, of f]) (use h(5) p(1) len(2) in auto)
  show thesis
    by (rule recv_packet_finish [OF h(1) r2(1) [unfolded tmp_def] assms(5) b(1-3)]) (use b(4,5) that in blast)
qed

lemma recv_header_step:
  "n < 5 \<Longrightarrow> recvbytes es r 5 = Inr (es1, r1, k) \<Longrightarrow> n + of_int k \<noteq> 0 \<Longrightarrow>
    recv_header_loop (Suc f) es r n = recv_header_loop f es1 r1 (n + of_int k)"
  by (simp add: recv_header_loop.simps [of "Suc f"] HEADLEN_def)

lemma recv_header_done: "\<not> n < 5 \<Longrightarrow> recv_header_loop f es r n = Inr (es, r, Some n)"
  by (simp add: recv_header_loop.simps HEADLEN_def)

lemma recv_header_two:
  assumes "recvbytes es r 5 = Inr (es1, r1, int n1)" and "recvbytes es1 r1 5 = Inr (es2, r2, int 5)"
    and "0 < n1" and "n1 < 5"
  shows "recv_header_loop 2 es r 0 = Inr (es2, r2, Some (of_nat n1 + 5))"
proof -
  have n: "unat (of_nat n1 :: size_t) = n1" "unat (of_nat n1 + 5 :: size_t) = n1 + 5"
    using assms(4) by (simp_all add: unat_of_nat_small unat_word_ariths)
  have z: "of_nat n1 \<noteq> (0 :: size_t)" "of_nat n1 + 5 \<noteq> (0 :: size_t)"
    using n assms(3) unat_0 by (metis less_irrefl, metis add_is_0 zero_neq_numeral)
  have "recv_header_loop (Suc (Suc 0)) es r 0 = recv_header_loop (Suc 0) es1 r1 (of_nat n1)"
    using recv_header_step [OF _ assms(1), of 0 "Suc 0"] z(1) by simp
  also have "\<dots> = recv_header_loop 0 es2 r2 (of_nat n1 + 5)"
    using recv_header_step [OF _ assms(2), of "of_nat n1" 0] z(2) n(1) assms(4) by (simp add: word_less_nat_alt)
  also have "\<dots> = Inr (es2, r2, Some (of_nat n1 + 5))"
    using n(2) by (intro recv_header_done) (simp add: word_less_nat_alt)
  finally show ?thesis
    by (simp only: numeral_2_eq_2)
qed

lemma recvbytes_partial:
  assumes "ring_inv r" and "0 < length bs" and "length bs < n" and "length bs \<le> ring_room r" and "n \<le> INT_MAX"
  obtains r' where "recvbytes (Chunk bs # RecvAgain # es) r n = Inr (es, r', int (length bs))" "ring_inv r'"
    "rb_max r' = rb_max r" "ring_contents r' = ring_contents r @ bs"
proof -
  obtain r' where r': "ringbuf_bulk_push r bs (length bs) = Inr (r', 0)" "ring_inv r'"
      "rb_max r' = rb_max r" "ring_contents r' = ring_contents r @ bs"
    using bulk_push_contents [OF assms(1), of "length bs" bs] assms(4) by auto
  have "recvbytes_loop (RecvAgain # es) r' n (length bs) = Inr (es, r', int (length bs))"
    using assms(3) by (simp add: recvbytes_loop.simps)
  then have "recvbytes (Chunk bs # RecvAgain # es) r n = Inr (es, r', int (length bs))"
    unfolding recvbytes_def using assms r'(1) by (subst recvbytes_loop.simps) auto
  with r' that show thesis
    by blast
qed

section \<open>A packet that can never be complete\<close>

lemma recvbytes_loop_inv:
  assumes "recvbytes_loop es r bufsize tot = Inr (es', r', rc)" and "ring_inv r"
  shows "ring_inv r' \<and> rb_max r' = rb_max r"
  using assms
proof (induction es r bufsize tot rule: recvbytes_loop.induct)
  case (1 es r bufsize tot)
  obtain res es1 where rv: "recv es (bufsize - tot) = (res, es1)"
    by fastforce
  show ?case
  proof (cases "tot < bufsize \<and> (\<exists>bs. res = Got bs \<and> bs \<noteq> [])")
    case True
    then obtain bs where bs: "tot < bufsize" "res = Got bs" "bs \<noteq> []"
      by auto
    obtain r1 rc1 where r1: "ringbuf_bulk_push r bs (length bs) = Inr (r1, rc1)" "ring_inv r1" "rb_max r1 = rb_max r"
      using bulk_push_contents [OF "1.prems"(2), of "length bs" bs] by auto
    have g: "guardR (tot + length bs \<le> INT_MAX) SignedOverflow = Inr ()"
      and rec: "recvbytes_loop es1 r1 bufsize (tot + length bs) = Inr (es', r', rc)"
      using "1.prems"(1) bs rv r1(1) by (auto simp: recvbytes_loop.simps [of es r] res_simps guardR_def split: if_splits)
    from "1.IH" [OF bs(1) rv [unfolded bs(2), symmetric] refl bs(3) r1(1) refl g rec r1(2)] r1(3) show ?thesis
      by simp
  next
    case False
    with "1.prems" rv show ?thesis
      by (auto simp: recvbytes_loop.simps [of es r] split: if_splits recv_res.splits)
  qed
qed

lemma recv_body_never:
  assumes "ring_inv r" and "unat (rb_max r) < unat need"
  shows "\<exists>e. recv_body_loop fuel es r need = Inl e"
  using assms
proof (induction fuel arbitrary: es r)
  case 0
  then have "ringbuf_size r < ucast need"
    using ring_len_bound [OF 0(1)] by (simp add: word_less_nat_alt ring_len_def)
  then show ?case
    by (simp add: recv_body_loop.simps)
next
  case (Suc f)
  have lt: "ringbuf_size r < ucast need"
    using ring_len_bound [OF Suc.prems(1)] Suc.prems(2) by (simp add: word_less_nat_alt ring_len_def)
  show ?case
  proof (cases "recvbytes es r (unat need)")
    case (Inr x)
    obtain es1 r1 rc where x: "x = (es1, r1, rc)"
      by (cases x)
    have "ring_inv r1 \<and> rb_max r1 = rb_max r"
      using Inr x Suc.prems(1) recvbytes_loop_inv unfolding recvbytes_def by blast
    with Suc.IH [of r1 es1] Suc.prems(2) lt Inr x show ?thesis
      by (simp add: recv_body_loop.simps [of "Suc f"])
  qed (use lt in \<open>simp add: recv_body_loop.simps [of "Suc f"]\<close>)
qed

section \<open>Properties\<close>

text \<open>
  C19: A packet that fits the ring buffer and whose bytes are ready on the socket, in chunks of any sizes, is received whole: the
  buffer holds exactly its bytes, the opcode is its first byte, and the bytes behind it stay on the
  socket for the next call.\<close>

theorem recv_packet_complete:
  assumes "ring_inv r" and "ring_contents r = []" and "Chunk [] \<notin> set es" and "ready es = p @ rest"
    and "packet_block p" and "length p \<le> unat (rb_max r)"
  shows "\<exists>es' r'. recv_packet (Suc f) junk es r =
      Inr (es', r', Some (\<lparr>b_size = of_nat (length p), b_pos = 0, b_data = p\<rparr>, p ! 0)) \<and>
    ready es' = rest \<and> ring_contents r' = []"
  using recv_packet_ready [OF assms, of f junk] by blast

definition ring16 :: ringbuf where
  "ring16 = \<lparr>rb_buffer = [0, 0, 0, 0, 0, 0, 0, 0, 0, 0, 0, 0, 0, 0, 0, 0], rb_head = 0, rb_tail = 0, rb_max = 16, rb_full = False\<rparr>"

lemma ring16_inv: "ring_inv ring16" "ring_contents ring16 = []"
  by (simp_all add: ring_inv_def ring16_def ring_contents_def ring_len_def ringbuf_size_def)

lemma recv_packet_complete_witness:
  "\<exists>es' r'. recv_packet (Suc 0) (\<lambda>_. 0) [Chunk [0xC0, 0, 0], Chunk [0, 8, 0, 0, 0, 0x30]] ring16 =
      Inr (es', r', Some (\<lparr>b_size = 8, b_pos = 0, b_data = [0xC0, 0, 0, 0, 8, 0, 0, 0]\<rparr>, 0xC0)) \<and>
    ready es' = [0x30] \<and> ring_contents r' = []"
  using recv_packet_complete [OF ring16_inv, of "[Chunk [0xC0, 0, 0], Chunk [0, 8, 0, 0, 0, 0x30]]"
    "[0xC0, 0, 0, 0, 8, 0, 0, 0]" "[0x30]" 0 "\<lambda>_. 0"]
  by (simp add: packet_block_def load32_def ring16_def)

text \<open>
  C20: A header that announces more bytes than the ring buffer can hold is never answered: whatever
  arrives and however long the loop runs, \<open>recv_packet\<close> does not return.  A size field below five
  is such an announcement, since five is subtracted from it without a check and the result wraps.\<close>

theorem recv_packet_oversize:
  assumes "ring_inv r" and "ring_contents r = []" and "Chunk [] \<notin> set es" and "ready es = hdr @ rest"
    and "length hdr = 5" and "5 \<le> unat (rb_max r)"
    and "unat (rb_max r) < unat (load32 BigEndian (hdr ! 1) (hdr ! 2) (hdr ! 3) (hdr ! 4) - 5)"
  shows "\<exists>e. recv_packet fuel junk es r = Inl e"
proof (cases fuel)
  case 0
  then show ?thesis
    by (simp add: recv_packet_def recv_header_loop.simps HEADLEN_def)
next
  case (Suc f)
  obtain es1 r1 where h: "recv_header_loop (Suc f) es r 0 = Inr (es1, r1, Some 5)" "ring_inv r1"
      "rb_max r1 = rb_max r" "ring_contents r1 = hdr"
    by (rule recv_header_ready [OF assms(1-3), of f]) (use assms(4-6) in auto)
  define tmp where "tmp = map junk [0..<unat (ringbuf_size r1)]"
  have "length tmp = 5"
    using arg_cong [OF h(4), of length] assms(5) by (simp add: tmp_def ring_len_def)
  then obtain r2 where r2: "pop_into HEADLEN r1 tmp 0 = Inr (r2, hdr)" "ring_inv r2"
      "unat (rb_max r2) = unat (rb_max r)"
    using pop_into_contents [OF h(2), of hdr "[]" 5 0 tmp] h(3,4) assms(5) by (auto simp: HEADLEN_def)
  obtain a0 a1 a2 a3 a4 where hdr: "hdr = [a0, a1, a2, a3, a4]"
    using assms(5) by (auto simp: numeral_eq_Suc length_Suc_conv)
  have bs: "rd_block hdr 1 4 = Inr [a1, a2, a3, a4]"
    by (simp add: rd_block_def hdr)
  have "unat (rb_max r2) < unat (load32 BigEndian a1 a2 a3 a4 - 5)"
    using assms(7) r2(3) by (simp add: hdr)
  from recv_body_never [OF r2(2) this, of fuel es1] obtain e where
    "recv_body_loop (Suc f) es1 r2 (load32 BigEndian a1 a2 a3 a4 - 5) = Inl e"
    using Suc by auto
  then show ?thesis
    using h(1) r2(1) bs Suc
    by (simp add: recv_packet_def tmp_def [symmetric] Let_def ntohl_load32 HEADLEN_def)
qed

lemma recv_packet_oversize_witness:
  "\<exists>e. recv_packet 1000 (\<lambda>_. 0) [Chunk [0x30, 0, 0, 0, 4]] ring16 = Inl e"
  using recv_packet_oversize [OF ring16_inv, of "[Chunk [0x30, 0, 0, 0, 4]]" "[0x30, 0, 0, 0, 4]" "[]" 1000 "\<lambda>_. 0"]
  by (simp add: load32_def ring16_def unsigned_minus_1_eq_mask mask_eq_exp_minus_1)

text \<open>
  C21: A packet that arrives in two parts can cost the next one its first bytes.  When the first
  chunk holds only part of the header, the second call for the header asks for five more bytes
  although fewer are missing; a short packet is then cut out correctly, but what was read beyond its
  end, the beginning of the next packet, is left in the ring buffer, which the caller discards.\<close>

theorem recv_packet_split_header:
  assumes "ring_inv r" and "ring_contents r = []" and "0 < length p1" and "length p1 < 5"
    and "Chunk [] \<notin> set es" and "5 \<le> length (ready es)" and "p1 @ take 5 (ready es) = p @ lost"
    and "packet_block p" and "length p1 + 5 \<le> unat (rb_max r)"
  shows "\<exists>es' r'. recv_packet 2 junk (Chunk p1 # RecvAgain # es) r =
      Inr (es', r', Some (\<lparr>b_size = of_nat (length p), b_pos = 0, b_data = p\<rparr>, p ! 0)) \<and>
    ready es' = drop 5 (ready es) \<and> ring_contents r' = lost"
proof -
  have p: "5 \<le> length p" "length p < 2 ^ 31" "load32 BigEndian (p ! 1) (p ! 2) (p ! 3) (p ! 4) = of_nat (length p)"
    using assms(8) by (auto simp: packet_block_def)
  have empty: "ring_len r = 0"
    using arg_cong [OF assms(2), of length] by simp
  obtain r1 where r1: "recvbytes (Chunk p1 # RecvAgain # es) r 5 = Inr (es, r1, int (length p1))" "ring_inv r1"
      "rb_max r1 = rb_max r" "ring_contents r1 = p1"
    by (rule recvbytes_partial [OF assms(1,3,4)])
      (use assms(2,9) empty in \<open>auto simp: ring_room_def\<close>)
  have "ring_len r1 = length p1"
    using arg_cong [OF r1(4), of length] by simp
  then have room: "5 \<le> ring_room r1"
    using assms(9) r1(3) by (simp add: ring_room_def)
  obtain es2 r2 where r2: "recvbytes es r1 5 = Inr (es2, r2, int 5)" "ring_inv r2" "rb_max r2 = rb_max r"
      "ring_contents r2 = p @ lost" "ready es2 = drop 5 (ready es)"
    by (rule recvbytes_ready [OF r1(2) assms(5) _ assms(6) room]) (use assms(7) r1(3,4) in auto)
  have len: "length p + length lost = length p1 + 5"
    using arg_cong [OF assms(7), of length] assms(6) by simp
  have hdr: "recv_header_loop 2 (Chunk p1 # RecvAgain # es) r 0 = Inr (es2, r2, Some (of_nat (length p1) + 5))"
    by (rule recv_header_two [OF r1(1) r2(1) assms(3,4)])
  define tmp where "tmp = map junk [0..<unat (ringbuf_size r2)]"
  have ltmp: "length tmp = length p1 + 5"
    using arg_cong [OF r2(4), of length] len by (simp add: tmp_def ring_len_def)
  obtain r3 where r3: "pop_into HEADLEN r2 tmp 0 = Inr (r3, take 5 p @ drop 5 tmp)" "ring_inv r3"
      "ring_contents r3 = drop 5 p @ lost"
    using pop_into_contents [OF r2(2), of "take 5 p" "drop 5 p @ lost" 5 0 tmp] r2(4) p(1) ltmp
    by (auto simp: HEADLEN_def simp flip: append_assoc)
  have "unat (ringbuf_size r3) = length p1"
    using arg_cong [OF r3(3), of length] len p(1) by (simp add: ring_len_def)
  then have "\<not> ringbuf_size r3 < ucast (of_nat (length p) - 5 :: u32)"
    using len packet_block_len(2) [OF assms(8)] by (simp add: word_less_nat_alt)
  then have "recv_body_loop 2 es2 r3 (of_nat (length p) - 5) = Inr (es2, r3)"
    by (simp add: recv_body_loop.simps)
  from recv_packet_finish [OF hdr r3(1) [unfolded tmp_def] assms(8) this r3(2,3)] r2(5) show ?thesis
    by metis
qed

lemma recv_packet_split_header_witness:
  "\<exists>es' r'. recv_packet 2 (\<lambda>_. 0) [Chunk [0xC0, 0, 0, 0], RecvAgain, Chunk [8, 0, 0, 0, 0xC0, 0, 0, 0, 8, 0, 0, 0]] ring16 =
      Inr (es', r', Some (\<lparr>b_size = 8, b_pos = 0, b_data = [0xC0, 0, 0, 0, 8, 0, 0, 0]\<rparr>, 0xC0)) \<and>
    ready es' = [0, 0, 0, 8, 0, 0, 0] \<and> ring_contents r' = [0xC0]"
  using recv_packet_split_header [OF ring16_inv, of "[0xC0, 0, 0, 0]" "[Chunk [8, 0, 0, 0, 0xC0, 0, 0, 0, 8, 0, 0, 0]]"
    "[0xC0, 0, 0, 0, 8, 0, 0, 0]" "[0xC0]" "\<lambda>_. 0"]
  by (simp add: packet_block_def load32_def ring16_def)

end
