(* ===== verification/Sz_Server.thy ===== *)
theory Sz_Server
  imports Sz_Sizigy Sz_Util Sz_Receive
begin

text \<open>
  The broker of \<^verbatim>\<open>server.c\<close>: the command handlers, the request, reply
  and accept handlers, delivery to subscribers, the keepalive check, event dispatch and
  clean-up.  The state extends the database with what the handlers see of the system: the
  epoll instances, per descriptor the bytes that will arrive and the outcomes of \<open>send\<close>, and the
  bytes written so far.  Handlers run to completion, as a worker runs them.
\<close>

section \<open>State\<close>

record server = sizigydb +
  sv_epoll :: "nat epoll"
  sv_bepoll :: "nat epoll"
  sv_rx :: "int \<Rightarrow> recv_ev list"
  sv_tx :: "int \<Rightarrow> send_ev list"
  sv_wire :: "int \<Rightarrow> block"
  sv_junk :: "nat \<Rightarrow> u8"
  sv_config_run :: u8
  sv_config_keepalive :: u64

definition ONEMB :: nat where "ONEMB = 1048576"

definition set_rx :: "server \<Rightarrow> int \<Rightarrow> recv_ev list \<Rightarrow> server" where
  "set_rx w fd es = w\<lparr>sv_rx := (sv_rx w)(fd := es)\<rparr>"

definition set_epoll :: "server \<Rightarrow> nat epoll \<Rightarrow> server" where
  "set_epoll w ep = w\<lparr>sv_epoll := ep\<rparr>"

text \<open>\<open>shutdown\<close> and \<open>close\<close>: the descriptor leaves the epoll instance.\<close>

definition close_fd :: "server \<Rightarrow> int \<Rightarrow> server" where
  "close_fd w fd = set_epoll w (del_epoll (sv_epoll w) fd)"

definition put_sent :: "server \<Rightarrow> int \<Rightarrow> send_ev list \<Rightarrow> block \<Rightarrow> server" where
  "put_sent w fd evs bytes =
     w\<lparr>sv_tx := (sv_tx w)(fd := evs), sv_wire := (sv_wire w)(fd := sv_wire w fd @ bytes)\<rparr>"

text \<open>\<open>sendall\<close> on a descriptor: the new state, \<open>*sent\<close> and the return code.\<close>

definition send_fd :: "server \<Rightarrow> int \<Rightarrow> block \<Rightarrow> nat \<Rightarrow> cerr + (server \<times> nat \<times> int)" where
  "send_fd w fd buf len =
     bindR (sendall (sv_tx w fd) buf len) (\<lambda>(evs, bytes, sent, rc).
     Inr (put_sent w fd evs bytes, sent, rc))"

section \<open>Replies\<close>

definition set_reply :: "server \<Rightarrow> ptr \<Rightarrow> u8 \<Rightarrow> buffer \<Rightarrow> cerr + server" where
  "set_reply w c opcode payload =
     bindR (load_client w c) (\<lambda>cl.
     store_client w c (cl\<lparr>cl_reply := Some \<lparr>rp_opcode = opcode, rp_fd = cl_fd cl,
       rp_body = Payload (Some payload), rp_retained = None\<rparr>\<rparr>))"

text \<open>The acknowledgement is local to the function and released at its end.\<close>

definition set_ack_reply :: "server \<Rightarrow> ptr \<Rightarrow> u8 \<Rightarrow> u8 \<Rightarrow> cerr + server" where
  "set_ack_reply w c opcode rc =
     bindR (ack_pkt True opcode 0 rc) (\<lambda>ack.
     bindR (buffer_init True True (sv_junk w) (ucast (hd_size (ak_header ack)))) (\<lambda>b.
     bindR (pack_ack b ack) (\<lambda>b.
     set_reply w c opcode b)))"

text \<open>
  The opcode tells which member of the union is meant; the other member would be read as an
  object of the wrong type.
\<close>

definition free_reply :: "server \<Rightarrow> reply option \<Rightarrow> cerr + (server \<times> reply option)" where
  "free_reply w r =
     (case r of None \<Rightarrow> Inr (w, None)
      | Some rep \<Rightarrow>
          bindR (case rp_body rep of
              Published None \<Rightarrow> Inr w
            | Payload None \<Rightarrow> Inr w
            | Published (Some p) \<Rightarrow>
                bindR (guardR (rp_opcode rep = PUBLISH) Dangling) (\<lambda>_.
                bindR (free_publish (hp_pkts w) (Some p)) (\<lambda>(h, _). Inr (w\<lparr>hp_pkts := h\<rparr>)))
            | Payload (Some b) \<Rightarrow>
                bindR (guardR (rp_opcode rep \<noteq> PUBLISH) Dangling) (\<lambda>_.
                bindR (buffer_destroy (Some b)) (\<lambda>_. Inr w))) (\<lambda>w.
          Inr (w, None)))"

section \<open>Delivery\<close>

definition retain_message :: "server \<Rightarrow> ptr \<Rightarrow> publish \<Rightarrow> block option \<Rightarrow> cerr + server" where
  "retain_message w t msg sender =
     bindR (create_message w msg sender) (\<lambda>(w, m).
     bindR (h_load (hp_msgs w) m) (\<lambda>mg.
     bindR (h_store (hp_msgs w) m (mg\<lparr>mg_retained := 1\<rparr>)) (\<lambda>h.
     let w = w\<lparr>hp_msgs := h\<rparr> in
     bindR (load_topic w t) (\<lambda>tp.
     bindR (if tp_retained tp \<noteq> None then destroy_message w (tp_retained tp) else Inr (w, None)) (\<lambda>(w, _).
     store_topic w t (tp\<lparr>tp_retained := m\<rparr>))))))"

text \<open>The loop over the subscribers; the fuel bounds the number of nodes.\<close>

fun publish_loop :: "nat \<Rightarrow> server \<Rightarrow> ptr \<Rightarrow> buffer \<Rightarrow> nat \<Rightarrow> cerr + (server \<times> nat)" where
  "publish_loop fuel w cursor b tot =
     (case cursor of
        None \<Rightarrow> Inr (w, tot)
      | Some _ \<Rightarrow> (case fuel of
            0 \<Rightarrow> Inl Diverges
          | Suc f \<Rightarrow>
              bindR (h_load (hp_nodes w) cursor) (\<lambda>node.
              bindR (h_load (hp_subs w) (c_data node)) (\<lambda>sub.
              bindR (load_client w (sn_client sub)) (\<lambda>cl.
              bindR (send_fd w (cl_fd cl) (b_data b) (unat (b_size b))) (\<lambda>(w, sent, _).
              bindR (update_client_last_action w (sn_client sub)) (\<lambda>w.
              bindR (guardR (tot + sent \<le> INT_MAX) SignedOverflow) (\<lambda>_.
              publish_loop f w (c_next node) b (tot + sent)))))))))"

declare publish_loop.simps [simp del]

definition publish_message :: "server \<Rightarrow> ptr \<Rightarrow> publish \<Rightarrow> block option \<Rightarrow> cerr + (server \<times> nat)" where
  "publish_message w t msg sender =
     bindR (buffer_init True True (sv_junk w) (ucast (hd_size (pb_header msg)))) (\<lambda>b.
     bindR (pack_publish b msg) (\<lambda>b.
     bindR (if pb_retain msg \<noteq> 0 then retain_message w t msg sender else Inr w) (\<lambda>w.
     bindR (load_topic w t) (\<lambda>tp.
     bindR (publish_loop (unat (l_len (tp_subscribers tp))) w (l_head (tp_subscribers tp)) b 0) (\<lambda>(w, tot).
     bindR (buffer_destroy (Some b)) (\<lambda>_.
     Inr (w, tot)))))))"

text \<open>The look-up-or-create step shared by the subscribe and the reply handler.\<close>

definition topic_for :: "server \<Rightarrow> block \<Rightarrow> cerr + (server \<times> ptr)" where
  "topic_for w name =
     bindR (key_of name) (\<lambda>k.
     bindR (hashmap_get (db_topics w) k) (\<lambda>(m, raw).
     let w = w\<lparr>db_topics := m\<rparr> in
     (case raw of
        Some t \<Rightarrow> Inr (w, raw)
      | None \<Rightarrow>
          bindR (create_topic w name) (\<lambda>(w, t).
          bindR (hashmap_put 2 True (db_topics w) k t) (\<lambda>(m, _).
          Inr (w\<lparr>db_topics := m\<rparr>, t))))))"

section \<open>Command handlers\<close>

text \<open>
  \<open>close_socket\<close> is an iteration callback; it is only ever passed NULL as its first argument.
\<close>

definition close_socket :: "int option \<Rightarrow> hashmap_entry \<Rightarrow> server \<Rightarrow> cerr + (server \<times> int)" where
  "close_socket arg1 kv w =
     (case arg1 of None \<Rightarrow> Inr (w, 0)
      | Some fd \<Rightarrow>
          if he_val kv = None then Inr (w, 0)
          else bindR (load_client w (he_val kv)) (\<lambda>sub.
               if cl_fd sub = fd then Inr (close_fd w (cl_fd sub), 0) else Inr (w, 0)))"

definition disconnect_handler :: "server \<Rightarrow> ptr \<Rightarrow> cerr + (server \<times> int)" where
  "disconnect_handler w c =
     bindR (load_client w c) (\<lambda>cl.
     let w = close_fd w (cl_fd cl) in
     bindR (hashmap_iterate2 (db_topics w) close_socket None w) (\<lambda>(w, _).
     Inr (w, -1)))"

text \<open>A handler reaches its packet through the client's untyped pointer.\<close>

definition pkt_connect :: "server \<Rightarrow> ptr \<Rightarrow> cerr + connect" where
  "pkt_connect w p = bindR (h_load (hp_pkts w) p) (\<lambda>k. case k of PConnect x \<Rightarrow> Inr x | _ \<Rightarrow> Inl Dangling)"

definition pkt_publish :: "server \<Rightarrow> ptr \<Rightarrow> cerr + publish" where
  "pkt_publish w p = bindR (h_load (hp_pkts w) p) (\<lambda>k. case k of PPublish x \<Rightarrow> Inr x | _ \<Rightarrow> Inl Dangling)"

definition pkt_subscribe :: "server \<Rightarrow> ptr \<Rightarrow> cerr + subscribe" where
  "pkt_subscribe w p = bindR (h_load (hp_pkts w) p) (\<lambda>k. case k of PSubscribe x \<Rightarrow> Inr x | _ \<Rightarrow> Inl Dangling)"

definition pkt_unsubscribe :: "server \<Rightarrow> ptr \<Rightarrow> cerr + unsubscribe" where
  "pkt_unsubscribe w p = bindR (h_load (hp_pkts w) p) (\<lambda>k. case k of PUnsubscribe x \<Rightarrow> Inr x | _ \<Rightarrow> Inl Dangling)"

text \<open>
  \<open>free(c->id)\<close>.  The identifier of a client is also the key of the entries the client was stored with; releasing it
  while such an entry is in use leaves a key that the next probe of its slot compares.  The model ends there.
\<close>

definition free_id :: "server \<Rightarrow> ptr \<Rightarrow> client \<Rightarrow> cerr + unit" where
  "free_id w c cl =
     bindR (id_key cl) (\<lambda>k.
     guardR (list_all (\<lambda>e. \<not> (he_in_use e \<and> he_key e = Some k \<and> he_val e = c)) (hm_entries (db_clients w))) Dangling)"

definition connect_handler :: "server \<Rightarrow> ptr \<Rightarrow> cerr + (server \<times> int)" where
  "connect_handler w c =
     bindR (load_client w c) (\<lambda>cl.
     bindR (pkt_connect w (cl_ptr cl)) (\<lambda>pkt.
     let rc = (if cn_idlen pkt = 0 then 1 else 0) in
     bindR (if cn_idlen pkt = 0 then Inr w
            else if cn_clean_session pkt = 1
            then bindR (del_client w c) (\<lambda>w.
                 bindR (free_id w c cl) (\<lambda>_.
                 bindR (c_strdup (cn_id pkt)) (\<lambda>ident.
                 bindR (load_client w c) (\<lambda>cl.
                 bindR (store_client w c (cl\<lparr>cl_id := Some ident\<rparr>)) (\<lambda>w.
                 add_client w c)))))
            else add_client w c) (\<lambda>w.
     bindR (set_ack_reply w c CONNACK rc) (\<lambda>w.
     bindR (update_client_last_action w c) (\<lambda>w.
     bindR (free_connect (hp_pkts w) (cl_ptr cl)) (\<lambda>(h, _).
     Inr (w\<lparr>hp_pkts := h\<rparr>, 0)))))))"

definition publish_handler :: "server \<Rightarrow> ptr \<Rightarrow> cerr + (server \<times> int)" where
  "publish_handler w c =
     bindR (load_client w c) (\<lambda>cl.
     bindR (pkt_publish w (cl_ptr cl)) (\<lambda>pkt.
     bindR (if pb_topic_len pkt = 0 then Inr w
            else store_client w c (cl\<lparr>cl_reply := Some \<lparr>rp_opcode = PUBLISH, rp_fd = cl_fd cl,
                   rp_body = Published (cl_ptr cl), rp_retained = None\<rparr>\<rparr>)) (\<lambda>w.
     Inr (w, 1))))"

definition pingreq_handler :: "server \<Rightarrow> ptr \<Rightarrow> cerr + (server \<times> int)" where
  "pingreq_handler w c =
     bindR (set_ack_reply w c PINGRESP 0) (\<lambda>w.
     bindR (update_client_last_action w c) (\<lambda>w.
     bindR (load_client w c) (\<lambda>cl.
     bindR (free_ack (hp_pkts w) (cl_ptr cl)) (\<lambda>(h, _).
     Inr (w\<lparr>hp_pkts := h\<rparr>, 1)))))"

definition subscribe_handler :: "server \<Rightarrow> ptr \<Rightarrow> cerr + (server \<times> int)" where
  "subscribe_handler w c =
     bindR (load_client w c) (\<lambda>cl0.
     bindR (pkt_subscribe w (cl_ptr cl0)) (\<lambda>pkt.
     bindR (if sb_topic_len pkt = 0 then set_ack_reply w c SUBACK 1
            else
              bindR (topic_for w (sb_topic pkt)) (\<lambda>(w, t).
              bindR (set_ack_reply w c SUBACK 0) (\<lambda>w.
              bindR (load_topic w t) (\<lambda>tp.
              bindR (create_subscription w c (tp_name tp) (sb_qos pkt)) (\<lambda>(w, s).
              bindR (add_subscriber w s) (\<lambda>w.
              bindR (load_topic w t) (\<lambda>tp.
              bindR (load_client w c) (\<lambda>cl.
              (case cl_reply cl of
                 None \<Rightarrow> Inl NullDeref
               | Some r \<Rightarrow> store_client w c (cl\<lparr>cl_reply := Some (r\<lparr>rp_retained := Some (tp_retained tp)\<rparr>)\<rparr>))))))))))  (\<lambda>w.
     bindR (free_subscribe (hp_pkts w) (cl_ptr cl0)) (\<lambda>(h, _).
     Inr (w\<lparr>hp_pkts := h\<rparr>, 0)))))"

text \<open>The subscription of \<open>unsubscribe_handler\<close> is an automatic variable: it is gone at the end.\<close>

definition unsubscribe_handler :: "server \<Rightarrow> ptr \<Rightarrow> cerr + (server \<times> int)" where
  "unsubscribe_handler w c =
     bindR (load_client w c) (\<lambda>cl0.
     bindR (pkt_unsubscribe w (cl_ptr cl0)) (\<lambda>pkt.
     bindR (if us_topic_len pkt = 0 then set_ack_reply w c UNSUBACK 1
            else
              bindR (set_ack_reply w c UNSUBACK 0) (\<lambda>w.
              let a = h_brk (hp_subs w);
                  w = w\<lparr>hp_subs := (h_upd (hp_subs w) a
                        (Some \<lparr>sn_client = c, sn_topic = us_topic pkt, sn_qos = 0\<rparr>))\<lparr>h_brk := Suc a\<rparr>\<rparr> in
              bindR (del_subscriber w (Some a)) (\<lambda>w.
              Inr (w\<lparr>hp_subs := h_upd (hp_subs w) a None\<rparr>)))) (\<lambda>w.
     bindR (free_unsubscribe (hp_pkts w) (cl_ptr cl0)) (\<lambda>(h, _).
     Inr (w\<lparr>hp_pkts := h\<rparr>, 0)))))"

section \<open>Requests\<close>

type_synonym command = "u8 \<times> (server \<Rightarrow> ptr \<Rightarrow> cerr + (server \<times> int))"

definition commands_hashmap :: "command list" where
  "commands_hashmap =
     [(CONNECT, connect_handler), (PUBLISH, publish_handler), (PINGREQ, pingreq_handler),
      (SUBSCRIBE, subscribe_handler), (UNSUBSCRIBE, unsubscribe_handler), (DISCONNECT, disconnect_handler)]"

definition alloc_pkt :: "server \<Rightarrow> packet \<Rightarrow> cerr + (server \<times> ptr)" where
  "alloc_pkt w p = (case h_alloc (hp_pkts w) p of
     None \<Rightarrow> Inl AssertFailed | Some (a, h) \<Rightarrow> Inr (w\<lparr>hp_pkts := h\<rparr>, Some a))"

text \<open>
  \<open>unpack_packet\<close>; a failed allocation of the packet ends in the assertion of the unpack
  function.  The header allocation succeeds, so every unpack function returns a packet.
\<close>

definition unpack_packet :: "server \<Rightarrow> u8 \<Rightarrow> buffer \<Rightarrow> cerr + (server \<times> ptr)" where
  "unpack_packet w opcode b =
     (if opcode = CONNECT then
        bindR (unpack_connect True b) (\<lambda>(_, p, _). case p of None \<Rightarrow> Inl UninitRead | Some x \<Rightarrow> alloc_pkt w (PConnect x))
      else if opcode = SUBSCRIBE then
        bindR (unpack_subscribe True b) (\<lambda>(_, p, _). case p of None \<Rightarrow> Inl UninitRead | Some x \<Rightarrow> alloc_pkt w (PSubscribe x))
      else if opcode = PUBLISH then
        bindR (unpack_publish True b) (\<lambda>(_, p, _). case p of None \<Rightarrow> Inl UninitRead | Some x \<Rightarrow> alloc_pkt w (PPublish x))
      else if opcode = SUBACK \<or> opcode = PUBACK \<or> opcode = PINGREQ then
        bindR (unpack_ack True b) (\<lambda>(_, p, _). case p of None \<Rightarrow> Inl UninitRead | Some x \<Rightarrow> alloc_pkt w (PAck x))
      else Inr (w, None))"

text \<open>The loop over the command table: the state, \<open>free_reply\<close> and \<open>executed\<close>.\<close>

fun run_commands :: "command list \<Rightarrow> u8 \<Rightarrow> ptr \<Rightarrow> server \<times> int \<times> bool \<Rightarrow> cerr + (server \<times> int \<times> bool)" where
  "run_commands [] opcode c s = Inr s"
| "run_commands ((ctype, handler) # cmds) opcode c (w, fr, executed) =
     (if ctype = opcode
      then bindR (handler w c) (\<lambda>(w, rc). run_commands cmds opcode c (w, rc, True))
      else run_commands cmds opcode c (w, fr, executed))"

definition set_handler :: "server \<Rightarrow> ptr \<Rightarrow> ctx_handler \<Rightarrow> cerr + server" where
  "set_handler w c hn = bindR (load_client w c) (\<lambda>cl. store_client w c (cl\<lparr>cl_ctx_handler := hn\<rparr>))"

definition RBUF_SIZE :: nat where "RBUF_SIZE = ONEMB * 2"

definition request_handler :: "nat \<Rightarrow> server \<Rightarrow> nat \<Rightarrow> cerr + (server \<times> int)" where
  "request_handler fuel w c =
     bindR (load_client w (Some c)) (\<lambda>cl.
     let clientfd = cl_fd cl in
     bindR (ringbuf_init True (Some (map (sv_junk w) [0..<RBUF_SIZE])) (of_nat RBUF_SIZE)) (\<lambda>rbuf.
     bindR (recv_packet fuel (sv_junk w) (sv_rx w clientfd) rbuf) (\<lambda>(es, rbuf, res).
     let w = set_rx w clientfd es in
     (case res of
        None \<Rightarrow>
          bindR (set_handler w (Some c) RequestHandler) (\<lambda>w.
          Inr (set_epoll w (mod_epoll (sv_epoll w) clientfd EPOLLIN (Some c)), 0))
      | Some (b, opcode) \<Rightarrow>
          bindR (unpack_packet w opcode b) (\<lambda>(w, pkt).
          bindR (buffer_destroy (Some b)) (\<lambda>_.
          if pkt = None then Inr (w, -1)
          else
            bindR (update_client_last_action w (Some c)) (\<lambda>w.
            bindR (load_client w (Some c)) (\<lambda>cl.
            bindR (store_client w (Some c) (cl\<lparr>cl_ptr := pkt\<rparr>)) (\<lambda>w.
            bindR (run_commands commands_hashmap opcode (Some c) (w, -1, False)) (\<lambda>(w, fr, executed).
            bindR (set_handler w (Some c) ReplyHandler) (\<lambda>w.
            if opcode \<noteq> PUBREC \<or> \<not> executed
            then Inr (set_epoll w (mod_epoll (sv_epoll w) clientfd EPOLLOUT (Some c)), 0)
            else
              bindR (set_handler w (Some c) RequestHandler) (\<lambda>w.
              let w = set_epoll w (mod_epoll (sv_epoll w) clientfd EPOLLIN (Some c)) in
              bindR (load_client w (Some c)) (\<lambda>cl.
              bindR (if executed \<and> fr > -1 \<and> cl_reply cl \<noteq> None
                     then store_client w (Some c) (cl\<lparr>cl_reply := None\<rparr>) else Inr w) (\<lambda>w.
              Inr (w, 0))))))))))))))) "

section \<open>Replying\<close>

text \<open>
  The three branches of \<open>reply_handler\<close>, each with the new return code.  The retained message of
  a reply may be indeterminate; comparing it with NULL then is undefined.
\<close>

definition reply_publish :: "server \<Rightarrow> ptr \<Rightarrow> reply \<Rightarrow> cerr + (server \<times> int)" where
  "reply_publish w c reply =
     bindR (case rp_body reply of Published p \<Rightarrow> pkt_publish w p | Payload _ \<Rightarrow> Inl Dangling) (\<lambda>p.
     bindR (topic_for w (pb_topic p)) (\<lambda>(w, t).
     bindR (load_client w c) (\<lambda>cl.
     bindR (case cl_id cl of None \<Rightarrow> Inl NullDeref | Some s \<Rightarrow> c_strdup s) (\<lambda>sender.
     bindR (publish_message w t p (Some sender)) (\<lambda>(w, sent).
     bindR (update_client_last_action w c) (\<lambda>w.
     if pb_qos p = 1
     then
       bindR (ack_pkt True PUBACK 0 0) (\<lambda>ack.
       bindR (buffer_init True True (sv_junk w) (ucast (hd_size (ak_header ack)))) (\<lambda>res.
       bindR (pack_ack res ack) (\<lambda>res.
       bindR (send_fd w (rp_fd reply) (b_data res) (unat (b_size res))) (\<lambda>(w, _, rc).
       bindR (buffer_destroy (Some res)) (\<lambda>_.
       Inr (w, if rc < 0 then -1 else 0))))))
     else Inr (w, 0)))))))"

definition send_payload :: "server \<Rightarrow> reply \<Rightarrow> cerr + (server \<times> int)" where
  "send_payload w reply =
     (case rp_body reply of
        Payload (Some b) \<Rightarrow>
          bindR (send_fd w (rp_fd reply) (b_data b) (unat (b_size b))) (\<lambda>(w, _, rc).
          Inr (w, if rc < 0 then -1 else 0))
      | Payload None \<Rightarrow> Inl NullDeref
      | Published _ \<Rightarrow> Inl Dangling)"

definition reply_retained :: "server \<Rightarrow> ptr \<Rightarrow> reply \<Rightarrow> ptr \<Rightarrow> cerr + (server \<times> int)" where
  "reply_retained w c reply m =
     bindR (send_payload w reply) (\<lambda>(w, ret).
     bindR (h_load (hp_msgs w) m) (\<lambda>r.
     bindR (c_strdup (mg_topic r)) (\<lambda>tp.
     bindR (c_strdup (mg_payload r)) (\<lambda>pl.
     bindR (publish_pkt True (Some tp) (Some pl) (mg_qos r) 1 0) (\<lambda>msg.
     bindR (buffer_init True True (sv_junk w) (ucast (hd_size (pb_header msg)))) (\<lambda>b.
     bindR (pack_publish b msg) (\<lambda>b.
     bindR (send_fd w (rp_fd reply) (b_data b) (unat (b_size b))) (\<lambda>(w, _, rc).
     bindR (update_client_last_action w c) (\<lambda>w.
     bindR (buffer_destroy (Some b)) (\<lambda>_.
     Inr (w, if rc < 0 then -1 else ret)))))))))))"

definition reply_handler :: "server \<Rightarrow> nat \<Rightarrow> cerr + (server \<times> int)" where
  "reply_handler w c =
     bindR (load_client w (Some c)) (\<lambda>cl.
     (case cl_reply cl of
        None \<Rightarrow> Inr (w, 0)
      | Some reply \<Rightarrow>
          bindR (if rp_opcode reply = PUBLISH then reply_publish w (Some c) reply
                 else if rp_opcode reply = SUBACK
                 then (case rp_retained reply of
                     None \<Rightarrow> Inl UninitRead
                   | Some None \<Rightarrow> send_payload w reply
                   | Some (Some m) \<Rightarrow> reply_retained w (Some c) reply (Some m))
                 else send_payload w reply) (\<lambda>(w, ret).
          bindR (free_reply w (Some reply)) (\<lambda>(w, r).
          bindR (load_client w (Some c)) (\<lambda>cl.
          bindR (store_client w (Some c) (cl\<lparr>cl_reply := r, cl_ctx_handler := RequestHandler\<rparr>)) (\<lambda>w.
          Inr (set_epoll w (mod_epoll (sv_epoll w) (cl_fd cl) EPOLLIN (Some c)), ret)))))))"

section \<open>Accepting\<close>

text \<open>
  The outcomes of the system calls of \<open>accept_handler\<close>, and the values \<open>rand\<close> returns.  The port
  of the listening socket is in network byte order.
\<close>

record accept_env =
  ae_accept :: int
  ae_getfl :: "u32 option"
  ae_setfl :: "u32 \<Rightarrow> bool"
  ae_ntop :: bool
  ae_getpeername :: bool
  ae_addr :: "block option"
  ae_getsockname :: bool
  ae_sin_port :: u16
  ae_rands :: "nat list"

definition accept_handler :: "accept_env \<Rightarrow> server \<Rightarrow> nat \<Rightarrow> cerr + (server \<times> int)" where
  "accept_handler e w sv =
     bindR (load_client w (Some sv)) (\<lambda>svr.
     let fd = cl_fd svr; (_, clientsock, _) = accept_connection (ae_accept e) (ae_getfl e) (ae_setfl e) (ae_ntop e) [] in
     if clientsock = -1 then Inr (w, -1)
     else if \<not> ae_getpeername e then Inr (w, -1)
     else (case ae_addr e of
         None \<Rightarrow> Inr (w, -1)
       | Some ip \<Rightarrow>
           if \<not> ae_getsockname e then Inr (w, -1)
           else
             bindR (c_strdup ip) (\<lambda>addr.
             bindR (random_name (sv_junk w) (ae_rands e) 16) (\<lambda>(ident, _).
             case h_alloc (hp_clients w)
                 \<lparr>cl_status = ONLINE, cl_keepalive = ucast (sv_config_keepalive w), cl_last_action_time = db_now w,
                   cl_addr = Some addr, cl_fd = clientsock, cl_ctx_handler = RequestHandler,
                   cl_id = Some ident, cl_reply = None, cl_ptr = None\<rparr> of
               None \<Rightarrow> Inl ExitFailure
             | Some (c, h) \<Rightarrow>
                 let w = w\<lparr>hp_clients := h\<rparr> in
                 bindR (if uint (ae_sin_port e) = db_bus_port w
                        then bindR (list_head_insert (hp_nodes w) (db_peers w) (Some c)) (\<lambda>(hn, l).
                             Inr (w\<lparr>hp_nodes := hn, db_peers := l\<rparr>))
                        else Inr w) (\<lambda>w.
                 let ep = add_epoll (sv_epoll w) clientsock (Some c);
                     ep = mod_epoll ep fd EPOLLIN (Some sv)
                 in Inr (set_epoll w ep, 0))))))"

section \<open>Keepalive\<close>

definition check_client_status :: "unit \<Rightarrow> hashmap_entry \<Rightarrow> server \<Rightarrow> cerr + (server \<times> int)" where
  "check_client_status t1 kv w =
     (if he_val kv = None then Inr (w, HASHMAP_OK)
      else bindR (load_client w (he_val kv)) (\<lambda>c.
        if cl_status c = ONLINE \<and> ucast (cl_keepalive c) \<le> db_now w - cl_last_action_time c
        then bindR (store_client (close_fd w (cl_fd c)) (he_val kv) (c\<lparr>cl_status := OFFLINE\<rparr>)) (\<lambda>w.
             Inr (w, HASHMAP_OK))
        else Inr (w, HASHMAP_ERR)))"

text \<open>One round of the keepalive thread.\<close>

definition keepalive_round :: "server \<Rightarrow> cerr + (server \<times> int)" where
  "keepalive_round w = hashmap_iterate2 (db_clients w) check_client_status () w"

section \<open>Dispatch\<close>

text \<open>
  What a worker does with one event.  The data word is a union: for an entry registered with a
  pointer, reading \<open>data.fd\<close> gives the low half of the address, \<open>lo32\<close>.  \<open>None\<close> tells the worker
  to stop.
\<close>

definition data_fd :: "(nat \<Rightarrow> int) \<Rightarrow> nat ep_data \<Rightarrow> int" where
  "data_fd lo32 d = (case d of EpFd fd \<Rightarrow> fd | EpPtr p \<Rightarrow> lo32 p)"

definition dispatch :: "nat \<Rightarrow> accept_env \<Rightarrow> server \<Rightarrow> nat \<Rightarrow> cerr + (server \<times> int)" where
  "dispatch fuel e w c =
     bindR (load_client w (Some c)) (\<lambda>cl.
     case cl_ctx_handler cl of
       AcceptHandler \<Rightarrow> accept_handler e w c
     | RequestHandler \<Rightarrow> request_handler fuel w c
     | ReplyHandler \<Rightarrow> reply_handler w c)"

definition worker_event ::
  "nat \<Rightarrow> accept_env \<Rightarrow> (nat \<Rightarrow> int) \<Rightarrow> server \<Rightarrow> u32 \<Rightarrow> nat ep_data \<Rightarrow> cerr + server option" where
  "worker_event fuel e lo32 w evs d =
     (if evs AND EPOLLERR \<noteq> 0 \<or> evs AND EPOLLHUP \<noteq> 0 \<or> (evs AND EPOLLIN = 0 \<and> evs AND EPOLLOUT = 0)
      then bindR (hashmap_iterate2 (db_topics w) close_socket None w) (\<lambda>(w, _).
           Inr (Some (close_fd w (data_fd lo32 d))))
      else if data_fd lo32 d = uint (sv_config_run w) then Inr None
      else (case d of
          EpFd _ \<Rightarrow> Inl Dangling
        | EpPtr c \<Rightarrow> bindR (dispatch fuel e w c) (\<lambda>(w, _). Inr (Some w))))"

text \<open>
  The events of one \<open>epoll_wait\<close>, each with the outcomes of the system calls its handler may make, and
  the whole worker over what \<open>epoll_wait\<close> returns, which ends when a worker is told to stop or when the
  call returns no event.  The flag of the result says whether the worker was stopped.
\<close>

type_synonym batch = "(accept_env \<times> u32 \<times> nat ep_data) list"

fun worker_batch :: "nat \<Rightarrow> (nat \<Rightarrow> int) \<Rightarrow> server \<Rightarrow> batch \<Rightarrow> cerr + (server \<times> bool)" where
  "worker_batch fuel lo32 w [] = Inr (w, False)"
| "worker_batch fuel lo32 w ((e, evs, d) # es) =
     bindR (worker_event fuel e lo32 w evs d) (\<lambda>r.
     case r of None \<Rightarrow> Inr (w, True) | Some w \<Rightarrow> worker_batch fuel lo32 w es)"

fun worker :: "bool \<Rightarrow> nat \<Rightarrow> (nat \<Rightarrow> int) \<Rightarrow> server \<Rightarrow> batch list \<Rightarrow> cerr + server" where
  "worker False fuel lo32 w bs = Inr w"
| "worker True fuel lo32 w [] = Inr w"
| "worker True fuel lo32 w (b # bs) =
     (if b = [] then Inr w
      else bindR (worker_batch fuel lo32 w b) (\<lambda>(w, stopped).
           if stopped then Inr w else worker True fuel lo32 w bs))"

text \<open>
  The keepalive thread, over the results of \<open>eventfd_read\<close>: \<open>None\<close> for a call that fails because nothing was written, which
  leaves \<open>val\<close> as it was.  \<open>val\<close> is not initialised.
\<close>

fun keepalive :: "u64 option \<Rightarrow> server \<Rightarrow> u64 option list \<Rightarrow> cerr + server" where
  "keepalive val w [] = Inr w"
| "keepalive val w (r # rs) =
     (case (case r of None \<Rightarrow> val | Some v \<Rightarrow> Some v) of
        None \<Rightarrow> Inl UninitRead
      | Some v \<Rightarrow> if v = 1 then Inr w
          else bindR (keepalive_round w) (\<lambda>(w, _). keepalive (Some v) w rs))"

section \<open>Clean-up\<close>

definition free_client :: "server \<Rightarrow> ptr \<Rightarrow> cerr + (server \<times> ptr)" where
  "free_client w c =
     (if c = None then Inr (w, None)
      else bindR (load_client w c) (\<lambda>cl.
           bindR (free_reply w (cl_reply cl)) (\<lambda>(w, _).
           bindR (h_free (hp_clients w) c) (\<lambda>h.
           Inr (w\<lparr>hp_clients := h\<rparr>, None)))))"

definition destroy_clients :: "unit \<Rightarrow> hashmap_entry \<Rightarrow> server \<Rightarrow> cerr + (server \<times> int)" where
  "destroy_clients t1 kv w =
     (if he_val kv = None then Inr (w, HASHMAP_OK)
      else bindR (free_client w (he_val kv)) (\<lambda>(w, _). Inr (w, HASHMAP_OK)))"

definition destroy_topics :: "unit \<Rightarrow> hashmap_entry \<Rightarrow> server \<Rightarrow> cerr + (server \<times> int)" where
  "destroy_topics t1 kv w =
     (if he_val kv = None then Inr (w, HASHMAP_OK)
      else bindR (destroy_topic w (he_val kv)) (\<lambda>(w, _). Inr (w, HASHMAP_OK)))"

text \<open>The items of a queue and the messages they point to; the fuel bounds the number of items.\<close>

fun destroy_items :: "nat \<Rightarrow> server \<Rightarrow> ptr \<Rightarrow> cerr + server" where
  "destroy_items fuel w item =
     (case item of
        None \<Rightarrow> Inr w
      | Some _ \<Rightarrow> (case fuel of
            0 \<Rightarrow> Inl Diverges
          | Suc f \<Rightarrow>
              bindR (h_load (hp_nodes w) item) (\<lambda>it.
              bindR (destroy_message w (c_data it)) (\<lambda>(w, _).
              bindR (h_load (hp_nodes w) item) (\<lambda>it.
              destroy_items f w (c_next it))))))"

declare destroy_items.simps [simp del]

definition destroy_queue_data :: "unit \<Rightarrow> hashmap_entry \<Rightarrow> server \<Rightarrow> cerr + (server \<times> int)" where
  "destroy_queue_data t1 kv w =
     (if he_val kv = None then Inr (w, HASHMAP_OK)
      else bindR (load_topic w (he_val kv)) (\<lambda>tp.
        (case tp_messages tp of
           None \<Rightarrow> Inl NullDeref
         | Some q \<Rightarrow> bindR (destroy_items (unat (q_len q)) w (q_front q)) (\<lambda>w. Inr (w, HASHMAP_OK)))))"

text \<open>
  The end of \<open>start_server\<close>: peers are released with their data, the clients they point to.  What remains are the
  objects that were not freed, in the heaps, and of the maps nothing.
\<close>

record remains =
  rm_heaps :: server
  rm_topics :: "hashmap option"
  rm_clients :: "hashmap option"
  rm_ack_waiting :: "hashmap option"

definition server_cleanup :: "server \<Rightarrow> cerr + remains" where
  "server_cleanup w =
     bindR (hashmap_release_map (db_topics w) destroy_topics w) (\<lambda>(w, topics).
     bindR (hashmap_release_map (db_clients w) destroy_clients w) (\<lambda>(w, clients).
     bindR (hashmap_release (db_ack_waiting w)) (\<lambda>(_, ack_waiting).
     bindR (list_release (hp_nodes w) (Some (db_peers w)) 1) (\<lambda>(h, ds).
     bindR (free_all (hp_clients w) ds) (\<lambda>hc.
     Inr \<lparr>rm_heaps = w\<lparr>hp_nodes := h, hp_clients := hc\<rparr>, rm_topics = topics, rm_clients = clients,
       rm_ack_waiting = ack_waiting\<rparr>)))))"

section \<open>Accessors\<close>

lemma set_rx_sel [simp]:
  "hp_nodes (set_rx w fd es) = hp_nodes w"
  "hp_clients (set_rx w fd es) = hp_clients w"
  "hp_topics (set_rx w fd es) = hp_topics w"
  "hp_subs (set_rx w fd es) = hp_subs w"
  "hp_msgs (set_rx w fd es) = hp_msgs w"
  "hp_pkts (set_rx w fd es) = hp_pkts w"
  "db_bus_port (set_rx w fd es) = db_bus_port w"
  "db_topics (set_rx w fd es) = db_topics w"
  "db_ack_waiting (set_rx w fd es) = db_ack_waiting w"
  "db_clients (set_rx w fd es) = db_clients w"
  "db_peers (set_rx w fd es) = db_peers w"
  "db_locked (set_rx w fd es) = db_locked w"
  "db_now (set_rx w fd es) = db_now w"
  "sv_junk (set_rx w fd es) = sv_junk w"
  "sv_config_keepalive (set_rx w fd es) = sv_config_keepalive w"
  "sv_config_run (set_rx w fd es) = sv_config_run w"
  "sv_bepoll (set_rx w fd es) = sv_bepoll w"
  "sv_rx (set_rx w fd es) = (sv_rx w)(fd := es)"
  "sv_epoll (set_rx w fd es) = sv_epoll w"
  "sv_tx (set_rx w fd es) = sv_tx w"
  "sv_wire (set_rx w fd es) = sv_wire w"
  by (simp_all add: set_rx_def)

lemma set_epoll_sel [simp]:
  "hp_nodes (set_epoll w ep) = hp_nodes w"
  "hp_clients (set_epoll w ep) = hp_clients w"
  "hp_topics (set_epoll w ep) = hp_topics w"
  "hp_subs (set_epoll w ep) = hp_subs w"
  "hp_msgs (set_epoll w ep) = hp_msgs w"
  "hp_pkts (set_epoll w ep) = hp_pkts w"
  "db_bus_port (set_epoll w ep) = db_bus_port w"
  "db_topics (set_epoll w ep) = db_topics w"
  "db_ack_waiting (set_epoll w ep) = db_ack_waiting w"
  "db_clients (set_epoll w ep) = db_clients w"
  "db_peers (set_epoll w ep) = db_peers w"
  "db_locked (set_epoll w ep) = db_locked w"
  "db_now (set_epoll w ep) = db_now w"
  "sv_junk (set_epoll w ep) = sv_junk w"
  "sv_config_keepalive (set_epoll w ep) = sv_config_keepalive w"
  "sv_config_run (set_epoll w ep) = sv_config_run w"
  "sv_bepoll (set_epoll w ep) = sv_bepoll w"
  "sv_rx (set_epoll w ep) = sv_rx w"
  "sv_epoll (set_epoll w ep) = ep"
  "sv_tx (set_epoll w ep) = sv_tx w"
  "sv_wire (set_epoll w ep) = sv_wire w"
  by (simp_all add: set_epoll_def)

lemma put_sent_sel [simp]:
  "hp_nodes (put_sent w fd evs bytes) = hp_nodes w"
  "hp_clients (put_sent w fd evs bytes) = hp_clients w"
  "hp_topics (put_sent w fd evs bytes) = hp_topics w"
  "hp_subs (put_sent w fd evs bytes) = hp_subs w"
  "hp_msgs (put_sent w fd evs bytes) = hp_msgs w"
  "hp_pkts (put_sent w fd evs bytes) = hp_pkts w"
  "db_bus_port (put_sent w fd evs bytes) = db_bus_port w"
  "db_topics (put_sent w fd evs bytes) = db_topics w"
  "db_ack_waiting (put_sent w fd evs bytes) = db_ack_waiting w"
  "db_clients (put_sent w fd evs bytes) = db_clients w"
  "db_peers (put_sent w fd evs bytes) = db_peers w"
  "db_locked (put_sent w fd evs bytes) = db_locked w"
  "db_now (put_sent w fd evs bytes) = db_now w"
  "sv_junk (put_sent w fd evs bytes) = sv_junk w"
  "sv_config_keepalive (put_sent w fd evs bytes) = sv_config_keepalive w"
  "sv_config_run (put_sent w fd evs bytes) = sv_config_run w"
  "sv_bepoll (put_sent w fd evs bytes) = sv_bepoll w"
  "sv_rx (put_sent w fd evs bytes) = sv_rx w"
  "sv_epoll (put_sent w fd evs bytes) = sv_epoll w"
  "sv_tx (put_sent w fd evs bytes) = (sv_tx w)(fd := evs)"
  "sv_wire (put_sent w fd evs bytes) = (sv_wire w)(fd := sv_wire w fd @ bytes)"
  by (simp_all add: put_sent_def)

section \<open>Acknowledgements\<close>

lemmas opcode_defs = CONNECT_def CONNACK_def PUBLISH_def PUBACK_def PUBREC_def SUBSCRIBE_def SUBACK_def
  UNSUBSCRIBE_def UNSUBACK_def PINGREQ_def PINGRESP_def DISCONNECT_def

text \<open>The eight bytes of an acknowledgement with packet identifier zero.\<close>

definition ack_bytes :: "u8 \<Rightarrow> u8 \<Rightarrow> block" where
  "ack_bytes opcode rc = [opcode, 0, 0, 0, 8, 0, 0, rc]"

definition ack_reply :: "client \<Rightarrow> u8 \<Rightarrow> u8 \<Rightarrow> reply" where
  "ack_reply cl opcode rc = \<lparr>rp_opcode = opcode, rp_fd = cl_fd cl,
     rp_body = Payload (Some \<lparr>b_size = 8, b_pos = 8, b_data = ack_bytes opcode rc\<rparr>), rp_retained = None\<rparr>"

lemma pack_ack_bytes:
  "bindR (ack_pkt True opcode 0 rc) (\<lambda>ack.
     bindR (buffer_init True True junk (ucast (hd_size (ak_header ack)))) (\<lambda>b. bindR (pack_ack b ack) f)) =
   f \<lparr>b_size = 8, b_pos = 8, b_data = ack_bytes opcode rc\<rparr>"
proof -
  let ?p = "\<lparr>ak_header = \<lparr>hd_opcode = opcode, hd_size = 8\<rparr>, ak_id = 0, ak_rc = rc\<rparr>"
  have w: "wire_ack 8 ?p = ack_bytes opcode rc"
    by (simp add: wire_ack_def wire_header_def store32_def store16_def ack_bytes_def)
  have "pack_ack (buf_at 8 [] (map junk [0..<8])) ?p = Inr (buf_at 8 (ack_bytes opcode rc) [])"
    using ack_fmt.pack_wire [of "map junk [0..<8]" 8 ?p] unfolding w by (simp add: ack_bytes_def)
  then show ?thesis
    by (simp add: ack_pkt_def HEADERLEN_def buffer_init_at) (simp add: buf_at_def ack_bytes_def)
qed

lemma set_ack_reply_eq:
  assumes "h_cells (hp_clients w) c = Some cl"
  shows "set_ack_reply w (Some c) opcode rc =
    store_client w (Some c) (cl\<lparr>cl_reply := Some (ack_reply cl opcode rc)\<rparr>)"
  unfolding set_ack_reply_def pack_ack_bytes
  using assms by (simp add: set_reply_def object_simps ack_reply_def)

end
