(* ===== verification/Sz_Start.thy ===== *)
theory Sz_Start
  imports Sz_Server
begin

text \<open>
  Starting the broker: the set-up part of \<open>start_server\<close> in \<^verbatim>\<open>server.c\<close>, up to the point where the
  workers run, and the command line of \<^verbatim>\<open>main.c\<close>.
\<close>

section \<open>Setting up\<close>

text \<open>
  The environment of \<open>start_server\<close>: the outcomes of its system calls, with \<open>se_resolve\<close> the
  addresses \<open>getaddrinfo\<close> finds for a port, the memory that is left, and what the sockets
  will do.
\<close>

record start_env =
  se_eventfd :: int
  se_epoll_create :: int
  se_bepoll_create :: int
  se_resolve :: "block \<Rightarrow> addr_outcome list option"
  se_getfl :: "u32 option"
  se_setfl :: "u32 \<Rightarrow> bool"
  se_listens :: bool
  se_avail :: nat
  se_rx :: "int \<Rightarrow> recv_ev list"
  se_tx :: "int \<Rightarrow> send_ev list"
  se_junk :: "nat \<Rightarrow> u8"
  se_now :: u64

definition keepalive_default :: u64 where "keepalive_default = 60"

text \<open>The three clients of \<open>start_server\<close> are automatic variables; they live as long as the server.\<close>

definition own_client :: "block \<Rightarrow> int \<Rightarrow> ctx_handler \<Rightarrow> block \<Rightarrow> client" where
  "own_client addr fd handler ident =
     \<lparr>cl_status = ONLINE, cl_keepalive = ucast keepalive_default, cl_last_action_time = 0, cl_addr = Some addr,
       cl_fd = fd, cl_ctx_handler = handler, cl_id = Some ident, cl_reply = None, cl_ptr = None\<rparr>"

abbreviation server_addr :: nat where "server_addr \<equiv> 0"
abbreviation bus_addr :: nat where "bus_addr \<equiv> 1"
abbreviation node_addr :: nat where "node_addr \<equiv> 2"

definition own_clients :: "nat \<Rightarrow> client \<Rightarrow> client \<Rightarrow> client \<Rightarrow> client heap" where
  "own_clients n server bus node =
     \<lparr>h_cells = [server_addr \<mapsto> server, bus_addr \<mapsto> bus, node_addr \<mapsto> node], h_brk = 3, h_avail = n\<rparr>"

text \<open>The client for the node to join.\<close>

abbreviation node_client :: "block \<Rightarrow> int \<Rightarrow> client" where
  "node_client addr fd \<equiv> own_client addr fd RequestHandler [110, 111, 100, 101, 0]"

text \<open>The database as \<open>start_server\<close> initialises it, before any socket exists.\<close>

definition initial_db :: "start_env \<Rightarrow> cerr + server" where
  "initial_db e =
     bindR (hashmap_create True True) (\<lambda>topics.
     bindR (hashmap_create True True) (\<lambda>ack_waiting.
     bindR (hashmap_create True True) (\<lambda>clients.
     bindR (list_create True) (\<lambda>peers.
     Inr \<lparr>hp_nodes = empty_heap (se_avail e), hp_clients = empty_heap (se_avail e),
       hp_topics = empty_heap (se_avail e), hp_subs = empty_heap (se_avail e), hp_msgs = empty_heap (se_avail e),
       hp_pkts = empty_heap (se_avail e), db_bus_port = 0, db_topics = the topics, db_ack_waiting = the ack_waiting,
       db_clients = the clients, db_peers = peers, db_locked = False, db_now = se_now e,
       sv_epoll = Map.empty, sv_bepoll = Map.empty, sv_rx = se_rx e, sv_tx = se_tx e, sv_wire = (\<lambda>_. []),
       sv_junk = se_junk e, sv_config_run = of_int (se_eventfd e), sv_config_keepalive = keepalive_default\<rparr>))))"

text \<open>\<open>EPOLL_CTL_ADD\<close> of the event descriptor, level triggered and carrying the descriptor.\<close>

definition add_run :: "nat epoll \<Rightarrow> u8 \<Rightarrow> nat epoll" where
  "add_run ep run =
     (if uint run \<in> dom ep then ep else ep(uint run \<mapsto> (EPOLLIN, EpFd (uint run))))"

text \<open>
  The result is the state the workers start from, or \<open>None\<close> when an epoll instance could not be
  created and the function goes to its clean-up.
\<close>

definition start_server :: "start_env \<Rightarrow> block \<Rightarrow> block \<Rightarrow> int \<Rightarrow> cerr + server option" where
  "start_server e addr port node =
     bindR (initial_db e) (\<lambda>w.
     if se_epoll_create e = -1 \<or> se_bepoll_create e = -1
     then bindR (server_cleanup w) (\<lambda>_. Inr None)
     else
       bindR (make_listen (se_resolve e port) (se_getfl e) (se_setfl e) (se_listens e) []) (\<lambda>(fds, fd, _).
       bindR (c_atoi port) (\<lambda>p.
       bindR (guardR (int_range (p + 10000)) SignedOverflow) (\<lambda>_.
       let bport = p + 10000 in
       bindR (make_listen (se_resolve e (c_itoa bport)) (se_getfl e) (se_setfl e) (se_listens e) fds) (\<lambda>(fds, bfd, _).
       let w = w\<lparr>db_bus_port := bport,
             hp_clients := own_clients (se_avail e) (own_client addr fd AcceptHandler [115, 101, 114, 118, 101, 114, 0])
               (own_client addr bfd AcceptHandler [98, 117, 115, 0]) (node_client addr node),
             sv_epoll := add_epoll (add_run (sv_epoll w) (sv_config_run w)) fd (Some server_addr),
             sv_bepoll := add_epoll (add_run (sv_bepoll w) (sv_config_run w)) bfd (Some bus_addr)\<rparr>
       in Inr (Some w))))))"

section \<open>The command line\<close>

text \<open>
  What \<open>getopt\<close> returns for an option, with its argument: \<open>-a\<close>, \<open>-p\<close>, \<open>-v\<close>, \<open>-n\<close>, or an error.
\<close>

datatype opt = OptA block | OptP block | OptV | OptN block | OptBad

record options =
  op_addr :: block
  op_port :: block
  op_debug :: bool
  op_workers :: int

definition default_options :: options where
  "default_options = \<lparr>op_addr = [49, 50, 55, 46, 48, 46, 48, 46, 49, 0], op_port = [57, 48, 57, 48, 0],
     op_debug = True, op_workers = 4\<rparr>"

text \<open>The option loop: the case \<open>'n'\<close> has no \<open>break\<close> and runs into the default.\<close>

fun parse_options :: "opt list \<Rightarrow> options \<Rightarrow> cerr + options" where
  "parse_options [] s = Inr s"
| "parse_options (OptA a # os) s = parse_options os (s\<lparr>op_addr := a\<rparr>)"
| "parse_options (OptP p # os) s = parse_options os (s\<lparr>op_port := p\<rparr>)"
| "parse_options (OptV # os) s = parse_options os (s\<lparr>op_debug := True\<rparr>)"
| "parse_options (OptN n # os) s = bindR (c_atoi n) (\<lambda>_. Inl ExitFailure)"
| "parse_options (OptBad # os) s = Inl ExitFailure"

definition c_tolower :: "u8 \<Rightarrow> u8" where
  "c_tolower c = (if 65 \<le> c \<and> c \<le> 90 then c + 32 else c)"

text \<open>\<open>strncasecmp(arg, "join", strlen(arg)) == 0\<close>.\<close>

definition is_join :: "block \<Rightarrow> bool" where
  "is_join arg = (let s = map c_tolower (c_str arg) in take (length s) ([106, 111, 105, 110] @ [0]) = s)"

text \<open>
  The arguments behind the options: \<open>join\<close>, a host and a port.  \<open>argv\<close> ends with a NULL pointer,
  which \<open>atoi\<close> dereferences; beyond it there is nothing.  \<open>net\<close> gives, for a port, the outcomes of
  the system calls of \<open>make_connection\<close>; the result of \<open>set_nonblocking\<close> is not used.
\<close>

definition join_node :: "block list \<Rightarrow> (int \<Rightarrow> int \<times> bool \<times> bool) \<Rightarrow> cerr + int" where
  "join_node args net =
     (case args of
        [] \<Rightarrow> Inr (-1)
      | arg # rest \<Rightarrow>
          bindR (c_strlen arg) (\<lambda>_.
          if \<not> is_join arg then Inr (-1)
          else (case rest of
              [] \<Rightarrow> Inl OutOfBounds
            | [target] \<Rightarrow> Inl NullDeref
            | target # port # _ \<Rightarrow>
                bindR (c_atoi port) (\<lambda>p.
                bindR (guardR (int_range (p + 10000)) SignedOverflow) (\<lambda>_.
                let (sock, host, conn) = net (p + 10000) in
                bindR (make_connection sock host conn []) (\<lambda>(_, fd). Inr fd))))))"

definition main :: "opt list \<Rightarrow> block list \<Rightarrow> (int \<Rightarrow> int \<times> bool \<times> bool) \<Rightarrow> start_env \<Rightarrow> cerr + server option" where
  "main opts args net e =
     bindR (parse_options opts default_options) (\<lambda>s.
     bindR (join_node args net) (\<lambda>fd.
     start_server e (op_addr s) (op_port s) fd))"

section \<open>The state the workers start from\<close>

text \<open>The effect of a successful set-up, with the descriptors of the two listening sockets.\<close>

definition started :: "start_env \<Rightarrow> block \<Rightarrow> int \<Rightarrow> int \<Rightarrow> int \<Rightarrow> int \<Rightarrow> server" where
  "started e addr fd bfd bport node =
     (let run = of_int (se_eventfd e); l = \<lparr>l_head = None, l_tail = None, l_len = 0\<rparr> in
      \<lparr>hp_nodes = empty_heap (se_avail e),
       hp_clients = own_clients (se_avail e) (own_client addr fd AcceptHandler [115, 101, 114, 118, 101, 114, 0])
         (own_client addr bfd AcceptHandler [98, 117, 115, 0]) (node_client addr node),
       hp_topics = empty_heap (se_avail e), hp_subs = empty_heap (se_avail e), hp_msgs = empty_heap (se_avail e),
       hp_pkts = empty_heap (se_avail e), db_bus_port = bport, db_topics = hm0, db_ack_waiting = hm0,
       db_clients = hm0, db_peers = l, db_locked = False, db_now = se_now e,
       sv_epoll = add_epoll (add_run Map.empty run) fd (Some server_addr),
       sv_bepoll = add_epoll (add_run Map.empty run) bfd (Some bus_addr), sv_rx = se_rx e, sv_tx = se_tx e,
       sv_wire = (\<lambda>_. []), sv_junk = se_junk e, sv_config_run = run, sv_config_keepalive = keepalive_default\<rparr>)"

lemma start_server_started:
  assumes "start_server e addr port node = Inr (Some w)"
  obtains fds fd flags fds' bfd flags' p where
    "make_listen (se_resolve e port) (se_getfl e) (se_setfl e) (se_listens e) [] = Inr (fds, fd, flags)"
    "c_atoi port = Inr p" "int_range (p + 10000)"
    "make_listen (se_resolve e (c_itoa (p + 10000))) (se_getfl e) (se_setfl e) (se_listens e) fds = Inr (fds', bfd, flags')"
    "w = started e addr fd bfd (p + 10000) node"
  using assms
  by (auto simp: start_server_def initial_db_def hashmap_create_hm0 list_create_def res_simps Let_def started_def
      split: if_splits)

lemma own_clients_sel [simp]:
  "h_cells (own_clients n a b c) = [0 \<mapsto> a, 1 \<mapsto> b, 2 \<mapsto> c]" "h_avail (own_clients n a b c) = n"
  "heap_ok (own_clients n a b c)"
  by (simp_all add: own_clients_def heap_ok_def)

section \<open>An example\<close>

text \<open>A broker that listens on port 9090 with descriptor 6, its bus on 7.\<close>

definition env0 :: start_env where
  "env0 = \<lparr>se_eventfd = 3, se_epoll_create = 4, se_bepoll_create = 5,
     se_resolve = (\<lambda>port. Some [\<lparr>ao_socket = if port = [57, 48, 57, 48, 0] then 6 else 7, ao_bind = True\<rparr>]),
     se_getfl = Some 2, se_setfl = (\<lambda>_. True), se_listens = True, se_avail = 100, se_rx = (\<lambda>_. []), se_tx = (\<lambda>_. []),
     se_junk = (\<lambda>_. 0), se_now = 1000\<rparr>"

definition broker0 :: server where
  "broker0 = started env0 [49, 0] 6 7 19090 (-1)"

lemma atoi_9090: "c_atoi [57, 48, 57, 48, 0] = Inr 9090"
  by (simp add: c_atoi_def c_strlen_def c_str_def c_isspace_def digits_value_def c_isdigit_def int_range_def)

lemma broker0_started: "start_server env0 [49, 0] [57, 48, 57, 48, 0] (-1) = Inr (Some broker0)"
proof -
  have "c_itoa 19090 \<noteq> [57, 48, 57, 48, 0]"
    by (simp add: c_itoa_def dec_digits.simps)
  then show ?thesis
    by (simp add: start_server_def initial_db_def hashmap_create_hm0 list_create_def Let_def make_listen_def
        create_and_bind_def set_nonblocking_def atoi_9090 int_range_def broker0_def started_def env0_def)
qed

lemma broker0_listens: "sv_epoll broker0 6 = Some (EPOLLIN OR EPOLLET OR EPOLLONESHOT, EpPtr 0)"
  by (simp add: broker0_def started_def Let_def env0_def add_epoll_def add_run_def ep_union_def)

end
