(* ===== verification/Sz_Handlers.thy ===== *)
theory Sz_Handlers
  imports Sz_Start
begin

text \<open>
  What the handlers of the broker do: the effect of a request on the database and on the reply of
  its client, delivery to subscribers, retained messages, and the cases that leave a client
  without service.
\<close>

section \<open>Receiving a request\<close>

lemma request_ring:
  obtains r where "ringbuf_init True (Some (map junk [0..<RBUF_SIZE])) (of_nat RBUF_SIZE) = Inr r" "ring_inv r"
    "ring_contents r = []" "unat (rb_max r) = RBUF_SIZE"
proof -
  have n: "unat (of_nat RBUF_SIZE :: size_t) = RBUF_SIZE" "(of_nat RBUF_SIZE :: size_t) \<noteq> 0"
    by (simp_all add: RBUF_SIZE_def ONEMB_def)
  then show thesis
    using ringbuf_init_ok [of "of_nat RBUF_SIZE" "map junk [0..<RBUF_SIZE]"] that by auto
qed

text \<open>A complete packet at the front of the input of a client.\<close>

definition packet_ready :: "server \<Rightarrow> int \<Rightarrow> block \<Rightarrow> bool" where
  "packet_ready w fd p \<longleftrightarrow> Chunk [] \<notin> set (sv_rx w fd) \<and> (\<exists>rest. ready (sv_rx w fd) = p @ rest) \<and>
     packet_block p \<and> length p \<le> RBUF_SIZE"

text \<open>\<open>request_handler\<close> from the unpacked packet on.\<close>

definition run_request :: "server \<Rightarrow> nat \<Rightarrow> int \<Rightarrow> u8 \<Rightarrow> ptr \<Rightarrow> cerr + (server \<times> int)" where
  "run_request w c fd opcode pkt =
     bindR (update_client_last_action w (Some c)) (\<lambda>w.
     bindR (load_client w (Some c)) (\<lambda>cl.
     bindR (store_client w (Some c) (cl\<lparr>cl_ptr := pkt\<rparr>)) (\<lambda>w.
     bindR (run_commands commands_hashmap opcode (Some c) (w, -1, False)) (\<lambda>(w, fr, executed).
     bindR (set_handler w (Some c) ReplyHandler) (\<lambda>w.
     Inr (set_epoll w (mod_epoll (sv_epoll w) fd EPOLLOUT (Some c)), 0))))))"

lemma request_receives:
  assumes "h_cells (hp_clients w) c = Some cl" and "packet_ready w (cl_fd cl) p" and "p ! 0 \<noteq> PUBREC"
  obtains es where "request_handler (Suc f) w c =
      bindR (unpack_packet (set_rx w (cl_fd cl) es) (p ! 0) \<lparr>b_size = of_nat (length p), b_pos = 0, b_data = p\<rparr>) (\<lambda>(w, pkt).
      if pkt = None then Inr (w, -1) else run_request w c (cl_fd cl) (p ! 0) pkt)"
    "ready (sv_rx w (cl_fd cl)) = p @ ready es" "Chunk [] \<notin> set es"
proof -
  obtain r where r: "ringbuf_init True (Some (map (sv_junk w) [0..<RBUF_SIZE])) (of_nat RBUF_SIZE) = Inr r" "ring_inv r"
      "ring_contents r = []" "unat (rb_max r) = RBUF_SIZE"
    by (rule request_ring)
  obtain rest where p: "Chunk [] \<notin> set (sv_rx w (cl_fd cl))" "ready (sv_rx w (cl_fd cl)) = p @ rest"
      "packet_block p" "length p \<le> unat (rb_max r)"
    using assms(2) r(4) by (auto simp: packet_ready_def)
  obtain es r' where es: "recv_packet (Suc f) (sv_junk w) (sv_rx w (cl_fd cl)) r =
      Inr (es, r', Some (\<lparr>b_size = of_nat (length p), b_pos = 0, b_data = p\<rparr>, p ! 0))"
      "ready es = rest" "Chunk [] \<notin> set es"
    by (rule recv_packet_ready [OF r(2,3) p])
  have "request_handler (Suc f) w c =
      bindR (unpack_packet (set_rx w (cl_fd cl) es) (p ! 0) \<lparr>b_size = of_nat (length p), b_pos = 0, b_data = p\<rparr>) (\<lambda>(w, pkt).
      if pkt = None then Inr (w, -1) else run_request w c (cl_fd cl) (p ! 0) pkt)"
    using assms(3)
    by (simp add: request_handler_def load_client_Some [OF assms(1)] r(1) es(1) buffer_destroy_def run_request_def Let_def
        cong: if_cong)
  then show thesis
    by (rule that) (use p es in auto)
qed

section \<open>Answering a ping\<close>

lemma unpack_ack_wire:
  assumes "opcode \<in> {SUBACK, PUBACK, PINGREQ}"
  shows "unpack_packet w opcode \<lparr>b_size = 8, b_pos = 0, b_data = wire_ack 8 \<lparr>ak_header = \<lparr>hd_opcode = opcode, hd_size = 8\<rparr>, ak_id = i, ak_rc = rc\<rparr>\<rparr> =
    alloc_pkt w (PAck \<lparr>ak_header = \<lparr>hd_opcode = opcode, hd_size = 8\<rparr>, ak_id = i, ak_rc = rc\<rparr>)"
proof -
  let ?p = "\<lparr>ak_header = \<lparr>hd_opcode = opcode, hd_size = 8\<rparr>, ak_id = i, ak_rc = rc\<rparr>"
  have "length (wire_ack 8 ?p) = 8"
    by (simp add: wire_ack_def)
  then have "unpack_ack True (buf_at 8 [] (wire_ack 8 ?p)) = Inr (buf_at 8 (wire_ack 8 ?p) [], Some ?p, 0)"
    using ack_fmt.unpack_wire [of 8 ?p "[]"] by simp
  then have "unpack_ack True \<lparr>b_size = 8, b_pos = 0, b_data = wire_ack 8 ?p\<rparr> = Inr (buf_at 8 (wire_ack 8 ?p) [], Some ?p, 0)"
    by (simp add: buf_at_def)
  then show ?thesis
    using assms by (auto simp: unpack_packet_def opcode_defs)
qed

lemma run_ping:
  assumes "h_cells (hp_clients w) c = Some cl" and "h_cells (hp_pkts w) q = Some (PAck a)"
  shows "run_request w c fd PINGREQ (Some q) =
    Inr (set_epoll (w\<lparr>hp_pkts := h_upd (hp_pkts w) q None,
      hp_clients := h_upd (hp_clients w) c (Some (cl\<lparr>cl_ptr := Some q,
        cl_reply := Some (ack_reply cl PINGRESP 0), cl_last_action_time := db_now w, cl_ctx_handler := ReplyHandler\<rparr>))\<rparr>)
      (mod_epoll (sv_epoll w) fd EPOLLOUT (Some c)), 0)"
  using assms
  by (simp add: run_request_def update_client_last_action_def object_simps commands_hashmap_def opcode_defs
      pingreq_handler_def set_ack_reply_eq ack_reply_def free_ack_def free_packet_def heap_simps set_handler_def)

section \<open>Sending a reply\<close>

text \<open>A socket that takes at least one byte at every call, for enough calls to send \<open>n\<close> bytes.\<close>

definition accepts :: "send_ev list \<Rightarrow> nat \<Rightarrow> bool" where
  "accepts evs n \<longleftrightarrow> n \<le> length evs \<and> (\<forall>ev\<in>set evs. \<exists>k. ev = Accept (Suc k))"

lemma sendall_accepts:
  assumes "accepts evs n" and "n \<le> length buf" and "n \<le> INT_MAX"
  obtains evs' where "sendall evs buf n = Inr (evs', take n buf, n, 0)"
  using sendall_loop_complete [of n buf 0 evs 0] assms by (auto simp: sendall_def accepts_def)

lemma send_fd_ok:
  assumes "n \<le> length buf" and "n \<le> INT_MAX"
  obtains evs t where "send_fd w fd buf n = Inr (put_sent w fd evs (take t buf), t, if t < n then -1 else 0)" "t \<le> n"
    "accepts (sv_tx w fd) n \<longrightarrow> t = n"
proof -
  obtain evs t rc where s: "sendall (sv_tx w fd) buf n = Inr (evs, take t buf, t, rc)" "t \<le> n" "rc = (if t < n then -1 else 0)"
    by (rule sendall_ok [OF assms])
  have "send_fd w fd buf n = Inr (put_sent w fd evs (take t buf), t, if t < n then -1 else 0)"
    unfolding send_fd_def s by simp
  moreover have "t = n" if "accepts (sv_tx w fd) n"
    using sendall_accepts [OF that assms] s(1) by fastforce
  ultimately show thesis
    using s(2) that by blast
qed

lemma length_ack_bytes [simp]: "length (ack_bytes opcode rc) = 8"
  by (simp add: ack_bytes_def)

lemma send_ack_payload:
  assumes "rp_body r = Payload (Some \<lparr>b_size = 8, b_pos = 8, b_data = ack_bytes opcode rc\<rparr>)"
  obtains evs t where
    "send_payload w r = Inr (put_sent w (rp_fd r) evs (take t (ack_bytes opcode rc)), if t < 8 then -1 else 0)" "t \<le> 8"
    "accepts (sv_tx w (rp_fd r)) 8 \<longrightarrow> t = 8"
proof -
  have len: "8 \<le> length (ack_bytes opcode rc)" "(8::nat) \<le> INT_MAX"
    by simp_all
  obtain evs t where s: "send_fd w (rp_fd r) (ack_bytes opcode rc) 8 =
      Inr (put_sent w (rp_fd r) evs (take t (ack_bytes opcode rc)), t, if t < 8 then -1 else 0)" "t \<le> 8"
      "accepts (sv_tx w (rp_fd r)) 8 \<longrightarrow> t = 8"
    by (rule send_fd_ok [OF len])
  have "send_payload w r = Inr (put_sent w (rp_fd r) evs (take t (ack_bytes opcode rc)), if t < 8 then -1 else 0)"
    unfolding send_payload_def assms by (simp add: s(1))
  then show thesis
    using s(2,3) by (rule that)
qed

text \<open>The end of \<open>reply_handler\<close> for a reply that holds a buffer.\<close>

definition replied :: "server \<Rightarrow> nat \<Rightarrow> client \<Rightarrow> server" where
  "replied w c cl = set_epoll
     (w\<lparr>hp_clients := h_upd (hp_clients w) c (Some (cl\<lparr>cl_reply := None, cl_ctx_handler := RequestHandler\<rparr>))\<rparr>)
     (mod_epoll (sv_epoll w) (cl_fd cl) EPOLLIN (Some c))"

lemma reply_ack:
  assumes "h_cells (hp_clients w) c = Some cl" and "cl_reply cl = Some r" and "rp_opcode r \<noteq> PUBLISH"
    and "rp_opcode r = SUBACK \<Longrightarrow> rp_retained r = Some None" and "rp_fd r = cl_fd cl"
    and "rp_body r = Payload (Some \<lparr>b_size = 8, b_pos = 8, b_data = ack_bytes opcode rc\<rparr>)"
  obtains evs t where "reply_handler w c =
      Inr (replied (put_sent w (cl_fd cl) evs (take t (ack_bytes opcode rc))) c cl, if t < 8 then -1 else 0)"
    "t \<le> 8" "accepts (sv_tx w (cl_fd cl)) 8 \<longrightarrow> t = 8"
proof -
  obtain evs t where s: "send_payload w r = Inr (put_sent w (cl_fd cl) evs (take t (ack_bytes opcode rc)), if t < 8 then -1 else 0)"
      "t \<le> 8" "accepts (sv_tx w (cl_fd cl)) 8 \<longrightarrow> t = 8"
    by (rule send_ack_payload [OF assms(6), of w, unfolded assms(5)])
  have "reply_handler w c = Inr (replied (put_sent w (cl_fd cl) evs (take t (ack_bytes opcode rc))) c cl, if t < 8 then -1 else 0)"
    using assms(1-4) by (auto simp: reply_handler_def object_simps s(1) free_reply_def assms(6) buffer_destroy_def replied_def)
  then show thesis
    using s(2,3) by (rule that)
qed

abbreviation ping :: "u16 \<Rightarrow> u8 \<Rightarrow> ack" where
  "ping i rc \<equiv> \<lparr>ak_header = \<lparr>hd_opcode = PINGREQ, hd_size = 8\<rparr>, ak_id = i, ak_rc = rc\<rparr>"

lemma length_wire_ack [simp]: "length (wire_ack sz p) = 8"
  by (simp add: wire_ack_def)

lemma wire_ack_opcode: "wire_ack sz p ! 0 = hd_opcode (ak_header p)"
  by (simp add: wire_ack_def wire_header_def)

lemma request_ping:
  assumes "h_cells (hp_clients w) c = Some cl" and "packet_ready w (cl_fd cl) (wire_ack 8 (ping i rc))"
    and "h_avail (hp_pkts w) > 0"
  obtains es q h where "request_handler (Suc f) w c =
      Inr (set_epoll ((set_rx w (cl_fd cl) es)\<lparr>hp_pkts := h,
        hp_clients := h_upd (hp_clients w) c (Some (cl\<lparr>cl_ptr := Some q,
          cl_reply := Some (ack_reply cl PINGRESP 0), cl_last_action_time := db_now w, cl_ctx_handler := ReplyHandler\<rparr>))\<rparr>)
        (mod_epoll (sv_epoll w) (cl_fd cl) EPOLLOUT (Some c)), 0)"
    "ready (sv_rx w (cl_fd cl)) = wire_ack 8 (ping i rc) @ ready es"
proof -
  have op: "wire_ack 8 (ping i rc) ! 0 \<noteq> PUBREC" and op0: "wire_ack 8 (ping i rc) ! 0 = PINGREQ"
    by (simp_all add: wire_ack_opcode opcode_defs)
  have len: "(of_nat (length (wire_ack 8 (ping i rc))) :: size_t) = 8"
    by simp
  obtain es where es: "request_handler (Suc f) w c =
      bindR (unpack_packet (set_rx w (cl_fd cl) es) PINGREQ \<lparr>b_size = 8, b_pos = 0, b_data = wire_ack 8 (ping i rc)\<rparr>) (\<lambda>(w, pkt).
      if pkt = None then Inr (w, -1) else run_request w c (cl_fd cl) PINGREQ pkt)"
    "ready (sv_rx w (cl_fd cl)) = wire_ack 8 (ping i rc) @ ready es"
    by (rule request_receives [OF assms(1,2) op, of f, unfolded op0 len])
  obtain q h where q: "h_alloc (hp_pkts w) (PAck (ping i rc)) = Some (q, h)" "h_cells h q = Some (PAck (ping i rc))"
    using assms(3) by (auto simp: h_alloc_def)
  have "unpack_packet (set_rx w (cl_fd cl) es) PINGREQ \<lparr>b_size = 8, b_pos = 0, b_data = wire_ack 8 (ping i rc)\<rparr> =
      Inr ((set_rx w (cl_fd cl) es)\<lparr>hp_pkts := h\<rparr>, Some q)"
    using unpack_ack_wire [of PINGREQ "set_rx w (cl_fd cl) es" i rc] q(1) by (simp add: alloc_pkt_def)
  with es run_ping [of "(set_rx w (cl_fd cl) es)\<lparr>hp_pkts := h\<rparr>" c cl q "ping i rc" "cl_fd cl"] assms(1) q(2)
  show thesis
    by (intro that) (auto simp: set_epoll_def set_rx_def)
qed

section \<open>Accepting a connection\<close>

text \<open>All system calls of \<open>accept_handler\<close> succeed and give the descriptor \<open>s\<close> and the address \<open>ip\<close>.\<close>

definition accept_succeeds :: "accept_env \<Rightarrow> int \<Rightarrow> block \<Rightarrow> bool" where
  "accept_succeeds e s ip \<longleftrightarrow> ae_accept e = s \<and> 0 \<le> s \<and> ae_ntop e \<and> ae_getpeername e \<and>
     ae_addr e = Some ip \<and> 0 \<in> set ip \<and> ae_getsockname e"

definition fresh_client :: "server \<Rightarrow> int \<Rightarrow> block \<Rightarrow> block \<Rightarrow> client" where
  "fresh_client w s ip ident =
     \<lparr>cl_status = ONLINE, cl_keepalive = ucast (sv_config_keepalive w), cl_last_action_time = db_now w,
       cl_addr = Some (c_str ip @ [0]), cl_fd = s, cl_ctx_handler = RequestHandler,
       cl_id = Some ident, cl_reply = None, cl_ptr = None\<rparr>"

text \<open>The state after an accepted connection that is not a peer.\<close>

definition accepted :: "server \<Rightarrow> nat \<Rightarrow> int \<Rightarrow> int \<Rightarrow> client \<Rightarrow> server" where
  "accepted w sv fd s cl = set_epoll
     (w\<lparr>hp_clients := (h_upd (hp_clients w) (h_brk (hp_clients w)) (Some cl))
        \<lparr>h_brk := Suc (h_brk (hp_clients w)), h_avail := h_avail (hp_clients w) - 1\<rparr>\<rparr>)
     (mod_epoll (add_epoll (sv_epoll w) s (Some (h_brk (hp_clients w)))) fd EPOLLIN (Some sv))"

lemma accept_connection_ok:
  assumes "accept_succeeds e s ip"
  obtains fds flags where "accept_connection (ae_accept e) (ae_getfl e) (ae_setfl e) (ae_ntop e) [] = (fds, s, flags)"
  using assms that
  by (cases "set_nonblocking (ae_getfl e) (ae_setfl e)") (auto simp: accept_succeeds_def accept_connection_def)

lemma accept_handler_eq:
  assumes "h_cells (hp_clients w) sv = Some svr" and "accept_succeeds e s ip" and "h_avail (hp_clients w) > 0"
    and "uint (ae_sin_port e) \<noteq> db_bus_port w" and "random_name (sv_junk w) (ae_rands e) 16 = Inr (ident, rest)"
  shows "accept_handler e w sv = Inr (accepted w sv (cl_fd svr) s (fresh_client w s ip ident), 0)"
proof -
  obtain fds flags where acc: "accept_connection (ae_accept e) (ae_getfl e) (ae_setfl e) (ae_ntop e) [] = (fds, s, flags)"
    by (rule accept_connection_ok [OF assms(2)])
  show ?thesis
    unfolding accept_handler_def load_client_Some [OF assms(1)] bindR.simps acc Let_def prod.case
    using assms(2-4) by (simp add: assms(5) accept_succeeds_def c_strdup_def h_alloc_def accepted_def fresh_client_def)
qed

lemma accept_handler_ok:
  assumes "h_cells (hp_clients w) sv = Some svr" and "accept_succeeds e s ip" and "h_avail (hp_clients w) > 0"
    and "uint (ae_sin_port e) \<noteq> db_bus_port w"
  obtains cs where "accept_handler e w sv = Inr (accepted w sv (cl_fd svr) s (fresh_client w s ip (cs @ [0])), 0)"
    "length cs = 16" "set cs \<subseteq> set pool"
  using accept_handler_eq [OF assms] random_name_ok [of "sv_junk w" "ae_rands e" 16] by metis

subsection \<open>An example\<close>

text \<open>A connection with descriptor 8, and the broker after it was accepted and sent a ping.\<close>

definition accept0 :: accept_env where
  "accept0 = \<lparr>ae_accept = 8, ae_getfl = Some 2, ae_setfl = (\<lambda>_. True), ae_ntop = True, ae_getpeername = True,
     ae_addr = Some [49, 0], ae_getsockname = True, ae_sin_port = 33315, ae_rands = []\<rparr>"

definition client1 :: client where
  "client1 = fresh_client broker0 8 [49, 0] (replicate 16 97 @ [0])"

definition broker1 :: server where
  "broker1 = accepted broker0 0 6 8 client1"

definition with_input :: "server \<Rightarrow> int \<Rightarrow> block \<Rightarrow> server" where
  "with_input w fd p = w\<lparr>sv_rx := (\<lambda>_. [])(fd := [Chunk p]), sv_tx := (\<lambda>_. replicate 64 (Accept 1)), db_now := 1010\<rparr>"

lemma broker0_client: "h_cells (hp_clients broker0) 0 = Some (own_client [49, 0] 6 AcceptHandler [115, 101, 114, 118, 101, 114, 0])"
  by (simp add: broker0_def started_def Let_def)

lemma random_name_a: "random_name (\<lambda>_. 0) [] 16 = Inr (replicate 16 97 @ [0], [])"
  by code_simp

lemma broker0_sel [simp]:
  "h_avail (hp_clients broker0) = 100" "h_brk (hp_clients broker0) = 3" "db_bus_port broker0 = 19090"
  "sv_junk broker0 = (\<lambda>_. 0)" "hp_pkts broker0 = empty_heap 100" "db_now broker0 = 1000" "sv_wire broker0 = (\<lambda>_. [])"
  by (simp_all add: broker0_def started_def Let_def env0_def own_clients_def)

lemma accept0_ok: "accept_succeeds accept0 8 [49, 0]" "ae_sin_port accept0 = 33315" "ae_rands accept0 = []"
  by (simp_all add: accept_succeeds_def accept0_def)

lemma accept_broker0: "accept_handler accept0 broker0 0 = Inr (broker1, 0)"
  using accept_handler_eq [OF broker0_client accept0_ok(1), of "replicate 16 97 @ [0]" "[]"] random_name_a
  by (simp add: accept0_ok broker1_def client1_def own_client_def)

lemma broker1_client: "h_cells (hp_clients broker1) 3 = Some client1"
  by (simp add: broker1_def accepted_def)

lemma client1_sel [simp]: "cl_fd client1 = 8" "cl_ctx_handler client1 = RequestHandler" "cl_reply client1 = None"
  "cl_id client1 = Some (replicate 16 97 @ [0])"
  by (simp_all add: client1_def fresh_client_def)

lemma broker1_epoll: "sv_epoll broker1 8 = Some (EPOLLIN OR EPOLLET OR EPOLLONESHOT, EpPtr 3)"
  by (simp add: broker1_def accepted_def broker0_def started_def Let_def add_epoll_def add_run_def mod_epoll_def ep_union_def
      env0_def own_clients_def)

lemma with_input_sel [simp]:
  "hp_clients (with_input w fd p) = hp_clients w" "hp_pkts (with_input w fd p) = hp_pkts w"
  "sv_epoll (with_input w fd p) = sv_epoll w" "sv_wire (with_input w fd p) = sv_wire w" "db_now (with_input w fd p) = 1010"
  "sv_rx (with_input w fd p) fd = [Chunk p]" "sv_tx (with_input w fd p) = (\<lambda>_. replicate 64 (Accept 1))"
  by (simp_all add: with_input_def)

lemma with_input_ready:
  assumes "packet_block p" and "length p \<le> 64"
  shows "packet_ready (with_input w fd p) fd p"
  using assms by (auto simp: packet_ready_def packet_block_def RBUF_SIZE_def ONEMB_def)

section \<open>Properties\<close>

text \<open>
  C13: Accepting a connection: when \<open>accept\<close>, \<open>inet_ntop\<close>, \<open>getpeername\<close> and \<open>getsockname\<close> succeed, memory is left and the
  socket is not the bus, \<open>accept_handler\<close> creates one new client, in the request phase, with the new
  descriptor and a 16-character name from the pool; it registers the new descriptor for one input event of that
  client and arms the listening socket again for its own; nothing else of the server changes.  Whether the socket
  could be made non-blocking makes no difference.  When one of the four calls fails, the handler returns \<open>-1\<close> and
  changes nothing, so a listening socket whose event it handled stays disarmed.\<close>

theorem accept_registers:
  assumes "h_cells (hp_clients w) sv = Some svr" and "cl_fd svr \<in> dom (sv_epoll w)" and "heap_ok (hp_clients w)"
  shows "(accept_succeeds e s ip \<longrightarrow> h_avail (hp_clients w) > 0 \<longrightarrow> uint (ae_sin_port e) \<noteq> db_bus_port w \<longrightarrow> s \<notin> dom (sv_epoll w) \<longrightarrow>
      (\<exists>w' c cs. accept_handler e w sv = Inr (w', 0) \<and> length cs = 16 \<and> set cs \<subseteq> set pool \<and>
        h_cells (hp_clients w) c = None \<and>
        h_cells (hp_clients w') = (h_cells (hp_clients w))(c \<mapsto>
          \<lparr>cl_status = ONLINE, cl_keepalive = ucast (sv_config_keepalive w), cl_last_action_time = db_now w,
            cl_addr = Some (c_str ip @ [0]), cl_fd = s, cl_ctx_handler = RequestHandler, cl_id = Some (cs @ [0]),
            cl_reply = None, cl_ptr = None\<rparr>) \<and>
        sv_epoll w' = (sv_epoll w)(s \<mapsto> (EPOLLIN OR EPOLLET OR EPOLLONESHOT, EpPtr c),
          cl_fd svr \<mapsto> (EPOLLIN OR EPOLLET OR EPOLLONESHOT, EpPtr sv)) \<and>
        w' = w\<lparr>hp_clients := hp_clients w', sv_epoll := sv_epoll w'\<rparr>)) \<and>
    (ae_accept e < 0 \<or> \<not> ae_ntop e \<or> \<not> ae_getpeername e \<or> ae_addr e = None \<or> \<not> ae_getsockname e \<longrightarrow>
      accept_handler e w sv = Inr (w, -1))"
proof (intro conjI impI)
  assume s: "accept_succeeds e s ip" "h_avail (hp_clients w) > 0" "uint (ae_sin_port e) \<noteq> db_bus_port w" "s \<notin> dom (sv_epoll w)"
  let ?w = "\<lambda>cs. accepted w sv (cl_fd svr) s (fresh_client w s ip (cs @ [0]))" and ?c = "h_brk (hp_clients w)"
  obtain cs where cs: "accept_handler e w sv = Inr (?w cs, 0)" "length cs = 16" "set cs \<subseteq> set pool"
    by (rule accept_handler_ok [OF assms(1) s(1-3)])
  have "h_cells (hp_clients w) ?c = None"
    using assms(3) by (auto simp: heap_ok_def)
  moreover have "sv_epoll (?w cs) = (sv_epoll w)(s \<mapsto> (EPOLLIN OR EPOLLET OR EPOLLONESHOT, EpPtr ?c),
      cl_fd svr \<mapsto> (EPOLLIN OR EPOLLET OR EPOLLONESHOT, EpPtr sv))"
    using s(4) assms(2) by (simp add: accepted_def add_epoll_def mod_epoll_def ep_union_def)
  moreover have "h_cells (hp_clients (?w cs)) = (h_cells (hp_clients w))(?c \<mapsto> fresh_client w s ip (cs @ [0]))"
    "?w cs = w\<lparr>hp_clients := hp_clients (?w cs), sv_epoll := sv_epoll (?w cs)\<rparr>"
    by (simp_all add: accepted_def set_epoll_def fun_upd_def)
  ultimately show "\<exists>w' c cs. accept_handler e w sv = Inr (w', 0) \<and> length cs = 16 \<and> set cs \<subseteq> set pool \<and>
        h_cells (hp_clients w) c = None \<and>
        h_cells (hp_clients w') = (h_cells (hp_clients w))(c \<mapsto>
          \<lparr>cl_status = ONLINE, cl_keepalive = ucast (sv_config_keepalive w), cl_last_action_time = db_now w,
            cl_addr = Some (c_str ip @ [0]), cl_fd = s, cl_ctx_handler = RequestHandler, cl_id = Some (cs @ [0]),
            cl_reply = None, cl_ptr = None\<rparr>) \<and>
        sv_epoll w' = (sv_epoll w)(s \<mapsto> (EPOLLIN OR EPOLLET OR EPOLLONESHOT, EpPtr c),
          cl_fd svr \<mapsto> (EPOLLIN OR EPOLLET OR EPOLLONESHOT, EpPtr sv)) \<and>
        w' = w\<lparr>hp_clients := hp_clients w', sv_epoll := sv_epoll w'\<rparr>"
    using cs unfolding fresh_client_def by blast
next
  assume "ae_accept e < 0 \<or> \<not> ae_ntop e \<or> \<not> ae_getpeername e \<or> ae_addr e = None \<or> \<not> ae_getsockname e"
  then show "accept_handler e w sv = Inr (w, -1)"
    by (auto simp: accept_handler_def load_client_Some [OF assms(1)] accept_connection_def Let_def
        split: prod.splits option.splits)
qed

lemma accept_registers_witness:
  "\<exists>w' c cl. accept_handler accept0 broker0 0 = Inr (w', 0) \<and> h_cells (hp_clients w') c = Some cl \<and> cl_fd cl = 8 \<and>
    sv_epoll w' 8 = Some (EPOLLIN OR EPOLLET OR EPOLLONESHOT, EpPtr c) \<and>
    sv_epoll w' 6 = Some (EPOLLIN OR EPOLLET OR EPOLLONESHOT, EpPtr 0)"
proof -
  let ?svr = "own_client [49, 0] 6 AcceptHandler [115, 101, 114, 118, 101, 114, 0]"
  have "8 \<notin> dom (sv_epoll broker0)" and fd: "cl_fd ?svr = 6" "cl_fd ?svr \<in> dom (sv_epoll broker0)"
    by (simp_all add: broker0_def started_def Let_def add_epoll_def add_run_def env0_def own_client_def)
  moreover have "heap_ok (hp_clients broker0)"
    by (simp add: broker0_def started_def Let_def own_clients_def heap_ok_def)
  moreover have "accept_succeeds accept0 8 [49, 0]" "h_avail (hp_clients broker0) > 0" "uint (ae_sin_port accept0) \<noteq> db_bus_port broker0"
    by (simp_all add: accept0_ok)
  ultimately obtain w' c cs where w': "accept_handler accept0 broker0 0 = Inr (w', 0)"
      "h_cells (hp_clients w') = (h_cells (hp_clients broker0))(c \<mapsto>
          \<lparr>cl_status = ONLINE, cl_keepalive = ucast (sv_config_keepalive broker0), cl_last_action_time = db_now broker0,
            cl_addr = Some (c_str [49, 0] @ [0]), cl_fd = 8, cl_ctx_handler = RequestHandler, cl_id = Some (cs @ [0]),
            cl_reply = None, cl_ptr = None\<rparr>)"
      "sv_epoll w' = (sv_epoll broker0)(8 \<mapsto> (EPOLLIN OR EPOLLET OR EPOLLONESHOT, EpPtr c),
          cl_fd ?svr \<mapsto> (EPOLLIN OR EPOLLET OR EPOLLONESHOT, EpPtr 0))"
    using accept_registers [OF broker0_client, of accept0 8 "[49, 0]"] by blast
  show ?thesis
    by (rule exI [of _ w'], rule exI [of _ c]) (simp add: w' fd)
qed

text \<open>
  C12: Every ping is answered: when a complete \<open>PINGREQ\<close> is ready on the socket of a registered client
  in the request phase, memory for the packet is left and the socket takes data, the request
  handler returns and arms the client for output, and the reply handler it then runs sends exactly
  the eight bytes of the \<open>PINGRESP\<close>, to that client only, and arms the client for input again;
  the bytes behind the request are still to be read and the time of last action is the present.\<close>

theorem ping_answered:
  assumes "h_cells (hp_clients w) c = Some cl" and "cl_ctx_handler cl = RequestHandler"
    and "packet_ready w (cl_fd cl) (wire_ack 8 (ping i rc))" and "h_avail (hp_pkts w) > 0"
    and "cl_fd cl \<in> dom (sv_epoll w)" and "accepts (sv_tx w (cl_fd cl)) 8"
  shows "\<exists>w1 w2. dispatch (Suc f) e w c = Inr (w1, 0) \<and> armed (sv_epoll w1) (cl_fd cl) EPOLLOUT \<and>
    dispatch f' e' w1 c = Inr (w2, 0) \<and> armed (sv_epoll w2) (cl_fd cl) EPOLLIN \<and>
    sv_wire w2 = (sv_wire w)(cl_fd cl := sv_wire w (cl_fd cl) @ ack_bytes PINGRESP 0) \<and>
    ready (sv_rx w (cl_fd cl)) = wire_ack 8 (ping i rc) @ ready (sv_rx w2 (cl_fd cl)) \<and>
    (\<exists>cl2. h_cells (hp_clients w2) c = Some cl2 \<and> cl_ctx_handler cl2 = RequestHandler \<and> cl_reply cl2 = None \<and>
      cl_last_action_time cl2 = db_now w)"
proof -
  let ?fd = "cl_fd cl"
  obtain es q h where req: "request_handler (Suc f) w c =
      Inr (set_epoll ((set_rx w ?fd es)\<lparr>hp_pkts := h,
        hp_clients := h_upd (hp_clients w) c (Some (cl\<lparr>cl_ptr := Some q,
          cl_reply := Some (ack_reply cl PINGRESP 0), cl_last_action_time := db_now w, cl_ctx_handler := ReplyHandler\<rparr>))\<rparr>)
        (mod_epoll (sv_epoll w) ?fd EPOLLOUT (Some c)), 0)" (is "_ = Inr (?w1, 0)")
      "ready (sv_rx w ?fd) = wire_ack 8 (ping i rc) @ ready es"
    by (rule request_ping [OF assms(1,3,4)])
  let ?cl1 = "cl\<lparr>cl_ptr := Some q, cl_reply := Some (ack_reply cl PINGRESP 0), cl_last_action_time := db_now w,
    cl_ctx_handler := ReplyHandler\<rparr>"
  have cl1: "h_cells (hp_clients ?w1) c = Some ?cl1" and tx: "accepts (sv_tx ?w1 (cl_fd ?cl1)) 8"
    using assms(6) by (simp_all add: set_rx_def)
  obtain evs t where rep: "reply_handler ?w1 c =
      Inr (replied (put_sent ?w1 (cl_fd ?cl1) evs (take t (ack_bytes PINGRESP 0))) c ?cl1, if t < 8 then -1 else 0)"
      "t \<le> 8" "accepts (sv_tx ?w1 (cl_fd ?cl1)) 8 \<longrightarrow> t = 8"
    by (rule reply_ack [OF cl1, of "ack_reply cl PINGRESP 0" PINGRESP 0])
      (simp_all add: ack_reply_def opcode_defs)
  have "t = 8"
    using rep(3) tx by blast
  then have "reply_handler ?w1 c = Inr (replied (put_sent ?w1 ?fd evs (ack_bytes PINGRESP 0)) c ?cl1, 0)"
    using rep(1) by simp
  moreover have "dispatch (Suc f) e w c = Inr (?w1, 0)" "dispatch f' e' ?w1 c = reply_handler ?w1 c"
    using assms(1,2) req(1) cl1 by (simp_all add: dispatch_def load_client_Some)
  ultimately show ?thesis
    using assms(5) req(2)
    by (intro exI [of _ ?w1] exI [of _ "replied (put_sent ?w1 ?fd evs (ack_bytes PINGRESP 0)) c ?cl1"])
      (simp add: replied_def set_rx_def)
qed

lemma ping_answered_witness:
  "\<exists>w1 w2. dispatch 1 accept0 (with_input broker1 8 (wire_ack 8 (ping 0 0))) 3 = Inr (w1, 0) \<and>
    dispatch 1 accept0 w1 3 = Inr (w2, 0) \<and> armed (sv_epoll w2) 8 EPOLLIN \<and> sv_wire w2 8 = [0xD0, 0, 0, 0, 8, 0, 0, 0]"
proof -
  let ?w = "with_input broker1 8 (wire_ack 8 (ping 0 0))"
  have "packet_block (wire_ack 8 (ping 0 0))"
    by (simp add: packet_block_def wire_ack_def wire_header_def store32_def store16_def load32_def)
  then have "packet_ready ?w (cl_fd client1) (wire_ack 8 (ping 0 0))"
    by (simp add: with_input_ready)
  moreover have "h_cells (hp_clients ?w) 3 = Some client1" "h_avail (hp_pkts ?w) > 0" "cl_fd client1 \<in> dom (sv_epoll ?w)"
      "accepts (sv_tx ?w (cl_fd client1)) 8" "sv_wire ?w = (\<lambda>_. [])"
    by (simp_all add: broker1_client broker1_epoll domIff accepts_def) (simp_all add: broker1_def accepted_def empty_heap_def)
  ultimately show ?thesis
    using ping_answered [of ?w 3 client1 0 0 0 accept0 1 accept0] by (auto simp: ack_bytes_def PINGRESP_def)
qed

end
