(* ===== verification/Sz_Ownership.thy ===== *)
theory Sz_Ownership
  imports Sz_Server
begin

text \<open>
  How the database changes while the broker runs: heaps that only grow, new topics, and who owns the
  objects of the heaps.
\<close>

section \<open>Changes that keep the database\<close>

text \<open>
  \<open>grows w w'\<close>: nodes and subscriptions are only added, no client goes away, topics keep their
  names and subscriber lists, and the table of topics is the same.
\<close>

definition topic_core :: "topic \<Rightarrow> block \<times> clist" where
  "topic_core tp = (tp_name tp, tp_subscribers tp)"

definition grows :: "'w sizigydb_scheme \<Rightarrow> 'w sizigydb_scheme \<Rightarrow> bool" where
  "grows w w' \<longleftrightarrow>
     h_ext (hp_nodes w) (hp_nodes w') \<and> heap_ok (hp_nodes w') \<and> h_avail (hp_nodes w') \<le> h_avail (hp_nodes w) \<and>
     h_ext (hp_subs w) (hp_subs w') \<and> heap_ok (hp_subs w') \<and>
     dom (h_cells (hp_clients w)) \<subseteq> dom (h_cells (hp_clients w')) \<and> heap_ok (hp_clients w') \<and>
     (\<forall>t. map_option topic_core (h_cells (hp_topics w') t) = map_option topic_core (h_cells (hp_topics w) t)) \<and>
     heap_ok (hp_topics w') \<and> db_topics w' = db_topics w \<and> hm_inv (db_clients w') \<and> \<not> db_locked w'"

text \<open>No list of subscribers can outgrow its length field while allocation succeeds.\<close>

definition lens_ok :: "'w sizigydb_scheme \<Rightarrow> bool" where
  "lens_ok w \<longleftrightarrow> (\<forall>t tp. h_cells (hp_topics w) t = Some tp \<longrightarrow>
     unat (l_len (tp_subscribers tp)) + h_avail (hp_nodes w) < 2 ^ 64) \<and> h_avail (hp_nodes w) < 2 ^ 64"

lemma sub_client_grows: "sub_ok w d \<Longrightarrow> grows w w' \<Longrightarrow> sub_client w' d = sub_client w d"
  by (auto simp: sub_ok_def sub_client_def grows_def h_ext_def split: option.splits)

lemma sub_ok_grows: "sub_ok w d \<Longrightarrow> grows w w' \<Longrightarrow> sub_ok w' d"
  using sub_client_grows [of w d w'] by (auto simp: sub_ok_def grows_def)

lemma topic_ok_grows:
  assumes "topic_ok w tp as" and "grows w w'" and "topic_core tp' = topic_core tp"
  shows "topic_ok w' tp' as"
    and "map (\<lambda>d. the (sub_client w' d)) (list_items (hp_nodes w', tp_subscribers tp')) =
      map (\<lambda>d. the (sub_client w d)) (list_items (hp_nodes w, tp_subscribers tp))"
proof -
  have lw: "list_weak (hp_nodes w) (tp_subscribers tp) as" and s: "tp_subscribers tp' = tp_subscribers tp"
    and d: "\<And>d. d \<in> set (chain_data (h_cells (hp_nodes w)) as) \<Longrightarrow> sub_ok w d"
    using assms(1,3) by (auto simp: topic_ok_def topic_core_def)
  have "h_ext (hp_nodes w) (hp_nodes w')" "heap_ok (hp_nodes w')"
    using assms(2) by (auto simp: grows_def)
  note ext = list_weak_ext [OF lw this]
  show "topic_ok w' tp' as"
    unfolding topic_ok_def ext(2) s using ext(1) sub_ok_grows [OF d assms(2)] by blast
  show "map (\<lambda>d. the (sub_client w' d)) (list_items (hp_nodes w', tp_subscribers tp')) =
      map (\<lambda>d. the (sub_client w d)) (list_items (hp_nodes w, tp_subscribers tp))"
    unfolding s ext(3) list_weak_items [OF lw] using sub_client_grows [OF d assms(2)] by simp
qed

lemma grows_topic:
  assumes "grows w w'"
  shows "h_cells (hp_topics w') t = Some tp' \<Longrightarrow> \<exists>tp. h_cells (hp_topics w) t = Some tp \<and> topic_core tp' = topic_core tp"
    and "h_cells (hp_topics w) t = Some tp \<Longrightarrow> \<exists>tp'. h_cells (hp_topics w') t = Some tp' \<and> topic_core tp' = topic_core tp"
    and "h_cells (hp_topics w') t = None \<longleftrightarrow> h_cells (hp_topics w) t = None"
proof -
  have eq: "map_option topic_core (h_cells (hp_topics w') t) = map_option topic_core (h_cells (hp_topics w) t)"
    using assms by (simp add: grows_def)
  show "h_cells (hp_topics w') t = Some tp' \<Longrightarrow> \<exists>tp. h_cells (hp_topics w) t = Some tp \<and> topic_core tp' = topic_core tp"
    using eq by (cases "h_cells (hp_topics w) t") auto
  show "h_cells (hp_topics w) t = Some tp \<Longrightarrow> \<exists>tp'. h_cells (hp_topics w') t = Some tp' \<and> topic_core tp' = topic_core tp"
    using eq by (cases "h_cells (hp_topics w') t") auto
  show "h_cells (hp_topics w') t = None \<longleftrightarrow> h_cells (hp_topics w) t = None"
    using eq by (metis map_option_is_None)
qed

lemma db_inv_topic:
  assumes "db_inv w" and "hm_lookup (db_topics w) k = Some t"
  obtains tp where "h_cells (hp_topics w) t = Some tp" "tp_name tp = k @ [0]" "0 \<notin> set k"
  using assms unfolding db_inv_def names_ok_def by blast

lemma grows_db:
  assumes "db_inv w" and "grows w w'"
  shows "db_inv w'" and "subscribers w' = subscribers w"
proof -
  obtain N where N: "topics_ok w N"
    using assms(1) by (auto simp: db_inv_def)
  have "topics_ok w' N"
    unfolding topics_ok_def
  proof (intro conjI allI impI)
    fix t tp' assume "h_cells (hp_topics w') t = Some tp'"
    then obtain tp where "h_cells (hp_topics w) t = Some tp" "topic_core tp' = topic_core tp"
      using grows_topic(1) [OF assms(2)] by blast
    then show "topic_ok w' tp' (N t)"
      using topic_ok_grows(1) [OF topics_ok_topic [OF N] assms(2)] by blast
  qed (use N grows_topic(3) [OF assms(2)] in \<open>auto simp: topics_ok_def\<close>)
  moreover have "names_ok w'"
    unfolding names_ok_def
  proof (intro allI impI)
    fix k t assume "hm_lookup (db_topics w') k = Some t"
    then have "hm_lookup (db_topics w) k = Some t"
      using assms(2) by (simp add: grows_def)
    then obtain tp where "h_cells (hp_topics w) t = Some tp" "tp_name tp = k @ [0]" "0 \<notin> set k"
      by (rule db_inv_topic [OF assms(1)])
    with grows_topic(2) [OF assms(2)] show "\<exists>tp. h_cells (hp_topics w') t = Some tp \<and> tp_name tp = k @ [0] \<and> 0 \<notin> set k"
      by (fastforce simp: topic_core_def)
  qed
  ultimately show "db_inv w'"
    using assms by (auto simp: db_inv_def grows_def)
  show "subscribers w' = subscribers w"
  proof
    fix t
    show "subscribers w' t = subscribers w t"
    proof (cases "h_cells (hp_topics w) t")
      case None
      then have "h_cells (hp_topics w') t = None"
        using grows_topic(3) [OF assms(2)] by blast
      with None show ?thesis
        by (simp add: subscribers_def)
    next
      case (Some tp)
      with grows_topic(2) [OF assms(2)] obtain tp' where
        "h_cells (hp_topics w') t = Some tp'" "topic_core tp' = topic_core tp"
        by blast
      then show ?thesis
        using Some topic_ok_grows(2) [OF topics_ok_topic [OF N Some] assms(2)] by (simp add: subscribers_def)
    qed
  qed
qed

lemma grows_lens:
  assumes "lens_ok w" and "grows w w'"
  shows "lens_ok w'"
  unfolding lens_ok_def
proof (intro conjI allI impI)
  have av: "h_avail (hp_nodes w') \<le> h_avail (hp_nodes w)"
    using assms(2) by (simp add: grows_def)
  then show "h_avail (hp_nodes w') < 2 ^ 64"
    using assms(1) by (simp add: lens_ok_def)
  fix t tp' assume "h_cells (hp_topics w') t = Some tp'"
  then obtain tp where "h_cells (hp_topics w) t = Some tp" "topic_core tp' = topic_core tp"
    using grows_topic(1) [OF assms(2)] by blast
  moreover from this have "unat (l_len (tp_subscribers tp)) + h_avail (hp_nodes w) < 2 ^ 64"
    using assms(1) by (auto simp: lens_ok_def)
  ultimately show "unat (l_len (tp_subscribers tp')) + h_avail (hp_nodes w') < 2 ^ 64"
    using av by (simp add: topic_core_def)
qed

text \<open>A new topic under a name that was free.\<close>

definition put_topic :: "'w sizigydb_scheme \<Rightarrow> nat \<Rightarrow> topic heap \<Rightarrow> hashmap \<Rightarrow> 'w sizigydb_scheme" where
  "put_topic w t h m = w\<lparr>hp_topics := h, db_topics := m\<rparr>"

definition new_topic :: "key \<Rightarrow> topic" where
  "new_topic k = \<lparr>tp_name = k @ [0], tp_subscribers = \<lparr>l_head = None, l_tail = None, l_len = 0\<rparr>,
     tp_messages = create_queue True, tp_retained = None\<rparr>"

lemma put_topic_sel [simp]:
  "hp_nodes (put_topic w t h m) = hp_nodes w" "hp_clients (put_topic w t h m) = hp_clients w"
  "hp_subs (put_topic w t h m) = hp_subs w" "hp_topics (put_topic w t h m) = h"
  "hp_msgs (put_topic w t h m) = hp_msgs w" "hp_pkts (put_topic w t h m) = hp_pkts w"
  "db_topics (put_topic w t h m) = m" "db_clients (put_topic w t h m) = db_clients w"
  "db_locked (put_topic w t h m) = db_locked w" "db_now (put_topic w t h m) = db_now w"
  by (simp_all add: put_topic_def)

lemma put_topic_ok:
  assumes "db_inv w" and "h_cells h = (h_cells (hp_topics w))(t := Some (new_topic k))" and "heap_ok h"
    and "h_cells (hp_topics w) t = None" and "hm_inv m" and "hm_lookup m = (hm_lookup (db_topics w))(k := Some t)"
    and "0 \<notin> set k"
  shows "db_inv (put_topic w t h m)" and "subscribers (put_topic w t h m) = subscribers w"
    and "lens_ok w \<Longrightarrow> lens_ok (put_topic w t h m)"
proof -
  let ?w = "put_topic w t h m"
  obtain N where N: "topics_ok w N"
    using assms(1) by (auto simp: db_inv_def)
  have subs: "sub_ok ?w d = sub_ok w d" "sub_client ?w d = sub_client w d" for d
    by (auto intro!: sub_ok_cong sub_client_cong)
  have "topic_ok ?w (new_topic k) []"
    using assms(1) by (simp add: topic_ok_def list_weak_def new_topic_def db_inv_def)
  moreover have "topic_ok ?w tp (N t')" if "h_cells (hp_topics w) t' = Some tp" for t' tp
    using topics_ok_topic [OF N that] by (simp add: topic_ok_def subs)
  ultimately have "topics_ok ?w (N(t := []))"
    using N by (auto simp: topics_ok_def assms(2))
  moreover have "names_ok ?w"
    unfolding names_ok_def
  proof (intro allI impI)
    fix k' t' assume a: "hm_lookup (db_topics ?w) k' = Some t'"
    show "\<exists>tp. h_cells (hp_topics ?w) t' = Some tp \<and> tp_name tp = k' @ [0] \<and> 0 \<notin> set k'"
    proof (cases "k' = k")
      case True
      with a show ?thesis
        by (simp add: assms(2,6,7) new_topic_def)
    next
      case False
      with a have "hm_lookup (db_topics w) k' = Some t'"
        by (simp add: assms(6))
      then obtain tp where "h_cells (hp_topics w) t' = Some tp" "tp_name tp = k' @ [0]" "0 \<notin> set k'"
        by (rule db_inv_topic [OF assms(1)])
      then show ?thesis
        using assms(4) by (auto simp: assms(2))
    qed
  qed
  ultimately show "db_inv ?w"
    using assms(1,3,5) by (auto simp: db_inv_def)
  show "subscribers ?w = subscribers w"
    by (auto simp: fun_eq_iff subscribers_def assms(2,4) subs new_topic_def list_items_def split: option.split)
  show "lens_ok ?w" if "lens_ok w"
    using that by (simp add: lens_ok_def assms(2) new_topic_def)
qed

section \<open>Ownership\<close>

text \<open>
  What a topic owns: the nodes of its list, exactly as many as the list records, the subscriptions they
  point to, an empty queue, and the retained message.
\<close>

definition items :: "'w sizigydb_scheme \<Rightarrow> topic \<Rightarrow> ptr list" where
  "items w tp = list_items (hp_nodes w, tp_subscribers tp)"

definition topic_owned :: "'w sizigydb_scheme \<Rightarrow> topic \<Rightarrow> bool" where
  "topic_owned w tp \<longleftrightarrow> length (items w tp) = unat (l_len (tp_subscribers tp)) \<and> distinct (items w tp) \<and>
     tp_messages tp = create_queue True \<and> (\<forall>m. tp_retained tp = Some m \<longrightarrow> h_cells (hp_msgs w) m \<noteq> None)"

definition apart :: "'w sizigydb_scheme \<Rightarrow> topic \<Rightarrow> topic \<Rightarrow> bool" where
  "apart w tp tp' \<longleftrightarrow> set (items w tp) \<inter> set (items w tp') = {} \<and> (tp_retained tp = None \<or> tp_retained tp \<noteq> tp_retained tp')"

text \<open>
  No two topics own the same object, every topic is in the table, and every message is retained by a
  topic.
\<close>

definition owned :: "'w sizigydb_scheme \<Rightarrow> bool" where
  "owned w \<longleftrightarrow> hm_tight (db_topics w) \<and> heap_ok (hp_msgs w) \<and>
     (\<forall>t tp. h_cells (hp_topics w) t = Some tp \<longrightarrow> topic_owned w tp \<and> (\<exists>k. hm_lookup (db_topics w) k = Some t)) \<and>
     (\<forall>t t' tp tp'. t \<noteq> t' \<longrightarrow> h_cells (hp_topics w) t = Some tp \<longrightarrow> h_cells (hp_topics w) t' = Some tp' \<longrightarrow> apart w tp tp') \<and>
     (\<forall>m. h_cells (hp_msgs w) m \<noteq> None \<longrightarrow> (\<exists>t tp. h_cells (hp_topics w) t = Some tp \<and> tp_retained tp = Some m))"

definition tidy :: "'w sizigydb_scheme \<Rightarrow> bool" where
  "tidy w \<longleftrightarrow> lens_ok w \<and> owned w"

lemma tidy_lens: "tidy w \<Longrightarrow> lens_ok w"
  by (simp add: tidy_def)

lemma ownedD:
  assumes "owned w" and "h_cells (hp_topics w) t = Some tp"
  shows "topic_owned w tp" and "\<exists>k. hm_lookup (db_topics w) k = Some t"
  using assms by (auto simp: owned_def)

lemma owned_apart:
  assumes "owned w" and "h_cells (hp_topics w) t = Some tp" and "h_cells (hp_topics w) t' = Some tp'" and "t \<noteq> t'"
  shows "apart w tp tp'"
  using assms unfolding owned_def by blast

lemma owned_cong:
  assumes "owned w" and "hp_topics w' = hp_topics w" and "hp_msgs w' = hp_msgs w" and "db_topics w' = db_topics w"
    and "\<And>t tp. h_cells (hp_topics w) t = Some tp \<Longrightarrow> items w' tp = items w tp"
  shows "owned w'"
  using assms by (simp add: owned_def topic_owned_def apart_def)

lemma grows_items:
  assumes "db_inv w" and "grows w w'" and "h_cells (hp_topics w) t = Some tp"
  shows "items w' tp = items w tp"
proof -
  obtain N where N: "topics_ok w N"
    using assms(1) by (auto simp: db_inv_def)
  have "list_weak (hp_nodes w) (tp_subscribers tp) (N t)"
    using topics_ok_topic [OF N assms(3)] by (simp add: topic_ok_def)
  then show ?thesis
    using list_weak_ext(3) assms(2) by (simp add: items_def grows_def)
qed

lemma grows_tidy:
  assumes "tidy w" and "db_inv w" and "grows w w'" and "hp_topics w' = hp_topics w" and "hp_msgs w' = hp_msgs w"
  shows "tidy w'"
  using assms owned_cong [OF _ assms(4,5)] grows_lens [OF _ assms(3)] grows_items [OF assms(2,3)]
  by (simp add: tidy_def grows_def)

text \<open>Subscriptions that are listed are live; one that is not can be listed.\<close>

lemma items_live:
  assumes "db_inv w" and "h_cells (hp_topics w) t = Some tp" and "Some s \<in> set (items w tp)"
  shows "h_cells (hp_subs w) s \<noteq> None"
proof -
  obtain N where N: "topics_ok w N"
    using assms(1) by (auto simp: db_inv_def)
  have ok: "topic_ok w tp (N t)"
    by (rule topics_ok_topic [OF N assms(2)])
  then have "sub_ok w (Some s)"
    using assms(3) by (auto simp: topic_ok_def items_def list_weak_items)
  then show ?thesis
    by (auto simp: sub_ok_def sub_client_def split: option.splits)
qed

lemma put_subs_owned:
  assumes "owned w" and "db_inv w" and "h_cells (hp_topics w) t = Some tp"
    and "list_items (h, l) = Some s # items w tp" and "unat (l_len l) = Suc (unat (l_len (tp_subscribers tp)))"
    and "h_ext (hp_nodes w) h" and "heap_ok h"
    and "\<And>t tp. h_cells (hp_topics w) t = Some tp \<Longrightarrow> Some s \<notin> set (items w tp)"
  shows "owned (put_subs w t tp h l)"
proof -
  let ?w = "put_subs w t tp h l" and ?tp = "tp\<lparr>tp_subscribers := l\<rparr>"
  have new: "items ?w ?tp = Some s # items w tp"
    using assms(4) by (simp add: items_def)
  have old: "items ?w tp' = items w tp'" if t': "h_cells (hp_topics w) t' = Some tp'" for t' tp'
  proof -
    obtain N where N: "topics_ok w N"
      using assms(2) by (auto simp: db_inv_def)
    have "list_weak (hp_nodes w) (tp_subscribers tp') (N t')"
      using topics_ok_topic [OF N t'] by (simp add: topic_ok_def)
    from list_weak_ext(3) [OF this assms(6,7)] show ?thesis
      by (simp add: items_def)
  qed
  have "topic_owned ?w ?tp"
    using ownedD(1) [OF assms(1,3)] assms(3,5,8) by (auto simp: topic_owned_def new)
  moreover have "topic_owned ?w tp'" if "h_cells (hp_topics w) t' = Some tp'" for t' tp'
    using ownedD(1) [OF assms(1) that] by (simp add: topic_owned_def old [OF that])
  moreover have "apart ?w tp1 tp2" if "h_cells (hp_topics w) t1 = Some tp1" "h_cells (hp_topics w) t2 = Some tp2" "t1 \<noteq> t2" for t1 t2 tp1 tp2
    using owned_apart [OF assms(1) that] by (simp add: apart_def old [OF that(1)] old [OF that(2)])
  moreover have "apart ?w ?tp tp'" "apart ?w tp' ?tp" if "h_cells (hp_topics w) t' = Some tp'" "t' \<noteq> t" for t' tp'
    using owned_apart [OF assms(1,3) that(1)] owned_apart [OF assms(1) that(1) assms(3)] that assms(8)
    by (auto simp: apart_def new old [OF that(1)])
  moreover have "\<exists>t' tp'. h_cells (hp_topics ?w) t' = Some tp' \<and> tp_retained tp' = Some m" if m: "h_cells (hp_msgs w) m \<noteq> None" for m
  proof -
    obtain t' tp' where "h_cells (hp_topics w) t' = Some tp'" "tp_retained tp' = Some m"
      using assms(1) m unfolding owned_def by blast
    then show ?thesis
      using assms(3) by (cases "t' = t") (auto intro: exI [of _ t] exI [of _ t'])
  qed
  ultimately show ?thesis
    using assms(1,3) unfolding owned_def by auto
qed

lemma put_topic_owned:
  assumes "owned w" and "h_cells h = (h_cells (hp_topics w))(t := Some (new_topic k))" and "h_cells (hp_topics w) t = None"
    and "hm_lookup m = (hm_lookup (db_topics w))(k := Some t)" and "hm_lookup (db_topics w) k = None" and "hm_tight m"
  shows "owned (put_topic w t h m)"
proof -
  let ?w = "put_topic w t h m"
  have items: "items ?w tp = items w tp" "items ?w (new_topic k) = []" for tp
    by (simp_all add: items_def list_items_def new_topic_def)
  have "topic_owned ?w (new_topic k)"
    by (simp only: topic_owned_def items(2)) (simp add: new_topic_def)
  moreover have "topic_owned ?w tp \<and> (\<exists>k. hm_lookup m k = Some t')" if t': "h_cells (hp_topics w) t' = Some tp" for t' tp
  proof -
    obtain k' where "hm_lookup (db_topics w) k' = Some t'"
      using ownedD(2) [OF assms(1) t'] by blast
    then have "hm_lookup m k' = Some t'"
      using assms(4,5) by auto
    then show ?thesis
      using ownedD(1) [OF assms(1) t'] by (auto simp: topic_owned_def items)
  qed
  moreover have "apart ?w tp1 tp2" if "h_cells (hp_topics w) t1 = Some tp1" "h_cells (hp_topics w) t2 = Some tp2" "t1 \<noteq> t2" for t1 t2 tp1 tp2
    using owned_apart [OF assms(1) that] by (simp add: apart_def items)
  moreover have "apart ?w (new_topic k) tp" "apart ?w tp (new_topic k)" for tp
    unfolding apart_def items(2) by (auto simp: new_topic_def)
  moreover have "\<exists>t' tp. h_cells h t' = Some tp \<and> tp_retained tp = Some x" if x: "h_cells (hp_msgs w) x \<noteq> None" for x
  proof -
    obtain t' tp where "h_cells (hp_topics w) t' = Some tp" "tp_retained tp = Some x"
      using assms(1) x unfolding owned_def by blast
    then show ?thesis
      using assms(2,3) by (intro exI [of _ t'] exI [of _ tp]) auto
  qed
  ultimately show ?thesis
    using assms(1,6) unfolding owned_def by (auto simp: assms(2,4))
qed

text \<open>Retaining: a new message takes the place of the old one, which is freed.\<close>

lemma retain_owned:
  assumes "owned w" and "h_cells (hp_topics w) t = Some tp" and "h_alloc (hp_msgs w) x = Some (m, h)"
    and "h_cells hm = (case tp_retained tp of None \<Rightarrow> h_cells (h_upd h m y) | Some old \<Rightarrow> (h_cells (h_upd h m y))(old := None))"
    and "y \<noteq> None" and "heap_ok hm"
  shows "owned (w\<lparr>hp_msgs := hm, hp_topics := h_upd (hp_topics w) t (Some (tp\<lparr>tp_retained := Some m\<rparr>))\<rparr>)" (is "owned ?w")
proof -
  let ?tp = "tp\<lparr>tp_retained := Some m\<rparr>"
  have ok: "heap_ok (hp_msgs w)"
    using assms(1) by (simp add: owned_def)
  note fresh = h_alloc_fresh [OF ok assms(3)]
  have items: "items ?w tp' = items w tp'" "items w ?tp = items w tp" for tp'
    by (simp_all add: items_def)
  have ret: "h_cells (hp_msgs w) r \<noteq> None" if "h_cells (hp_topics w) t' = Some tp'" "tp_retained tp' = Some r" for t' tp' r
    using ownedD(1) [OF assms(1) that(1)] that(2) by (auto simp: topic_owned_def)
  then have old: "tp_retained tp' \<noteq> Some m" if "h_cells (hp_topics w) t' = Some tp'" for t' tp'
    using that fresh(1) by blast
  have live: "h_cells hm m \<noteq> None"
    using old [OF assms(2)] assms(5) by (auto simp: assms(4) split: option.split)
  have keep: "h_cells hm r = h_cells (hp_msgs w) r" if "r \<noteq> m" "tp_retained tp \<noteq> Some r" for r
    using that by (auto simp: assms(4) fresh(2) split: option.split)
  have "topic_owned ?w ?tp"
    using ownedD(1) [OF assms(1,2)] live by (simp add: topic_owned_def items)
  moreover have "topic_owned ?w tp'" if t': "h_cells (hp_topics w) t' = Some tp'" "t' \<noteq> t" for t' tp'
  proof -
    have "h_cells hm r \<noteq> None" if "tp_retained tp' = Some r" for r
      using keep [of r] ret [OF t'(1) that] owned_apart [OF assms(1,2) t'(1)] old [OF t'(1)] t'(2) that by (auto simp: apart_def)
    then show ?thesis
      using ownedD(1) [OF assms(1) t'(1)] by (simp add: topic_owned_def items)
  qed
  moreover have "apart ?w ?tp tp'" "apart ?w tp' ?tp" if "h_cells (hp_topics w) t' = Some tp'" "t' \<noteq> t" for t' tp'
    using owned_apart [OF assms(1,2) that(1)] owned_apart [OF assms(1) that(1) assms(2)] that old [OF that(1)] by (auto simp: apart_def items)
  moreover have "apart ?w tp1 tp2" if "h_cells (hp_topics w) t1 = Some tp1" "h_cells (hp_topics w) t2 = Some tp2" "t1 \<noteq> t2" for t1 t2 tp1 tp2
    using owned_apart [OF assms(1) that] by (simp add: apart_def items)
  moreover have "\<exists>t' tp'. h_cells (hp_topics ?w) t' = Some tp' \<and> tp_retained tp' = Some r" if r: "h_cells hm r \<noteq> None" for r
  proof (cases "r = m")
    case True
    then show ?thesis
      by (intro exI [of _ t] exI [of _ ?tp]) simp
  next
    case False
    then have nr: "tp_retained tp \<noteq> Some r"
      using r by (auto simp: assms(4))
    then obtain t' tp' where "h_cells (hp_topics w) t' = Some tp'" "tp_retained tp' = Some r"
      using assms(1) r keep [OF False] unfolding owned_def by (metis (no_types))
    then show ?thesis
      using nr assms(2) by (intro exI [of _ t'] exI [of _ tp']) auto
  qed
  moreover have "hm_tight (db_topics ?w)" "\<exists>k. hm_lookup (db_topics ?w) k = Some t'" if "h_cells (hp_topics w) t' = Some tp'" for t' tp'
    using assms(1) ownedD(2) [OF assms(1) that] by (simp_all add: owned_def)
  ultimately show ?thesis
    using assms(1,2,6) unfolding owned_def by auto
qed

end
