(* ===== verification/Sz_Invariant.thy ===== *)
theory Sz_Invariant
  imports Sz_Ownership
begin

text \<open>
  The invariant of the running broker and its preservation by every handler.  It joins the
  consistency of the database with what the handlers rely on: registrations lead to live clients
  in the matching phase, and a pending reply has the shape its opcode announces.  The proofs
  follow the code with the rules for \<open>yields\<close>.
\<close>

section \<open>The invariant\<close>

text \<open>
  A pending reply holds a live publish packet of its own when its opcode is \<open>PUBLISH\<close>, and a buffer
  otherwise.  Only a client in the reply phase has one.
\<close>

definition owns :: "client \<Rightarrow> nat \<Rightarrow> bool" where
  "owns cl p \<longleftrightarrow> (\<exists>r. cl_reply cl = Some r \<and> rp_body r = Published (Some p))"

definition reply_ok :: "packet heap \<Rightarrow> client \<Rightarrow> bool" where
  "reply_ok h cl \<longleftrightarrow> (\<forall>r. cl_reply cl = Some r \<longrightarrow>
     (if rp_opcode r = PUBLISH then \<exists>p x. rp_body r = Published (Some p) \<and> h_cells h p = Some (PPublish x)
      else \<exists>b. rp_body r = Payload (Some b)))"

definition phase_ok :: "client \<Rightarrow> bool" where
  "phase_ok cl \<longleftrightarrow> (cl_ctx_handler cl \<noteq> ReplyHandler \<longrightarrow> cl_reply cl = None)"

text \<open>A registration waits for input before a request and for output before a reply.\<close>

definition mask_ok :: "u32 \<Rightarrow> client \<Rightarrow> bool" where
  "mask_ok m cl \<longleftrightarrow> (m = 0 \<or> m AND EPOLLONESHOT \<noteq> 0) \<and>
     (m AND EPOLLIN \<noteq> 0 \<longrightarrow> cl_ctx_handler cl \<noteq> ReplyHandler) \<and>
     (m AND EPOLLOUT \<noteq> 0 \<longrightarrow> cl_ctx_handler cl = ReplyHandler)"

text \<open>
  The invariant is indexed by the clients that are between two quiet states.  The first component are
  those whose handler is running: their phase is in transition.  The second maps those whose
  registration is disarmed, because an event was reported or because nobody armed it again, to the
  event that waits to be handled.
\<close>

type_synonym transit = "nat set \<times> (nat \<rightharpoonup> u32)"

definition fits :: "u32 \<Rightarrow> client \<Rightarrow> bool" where
  "fits evs cl \<longleftrightarrow> (evs AND EPOLLIN \<noteq> 0 \<longrightarrow> cl_ctx_handler cl \<noteq> ReplyHandler) \<and>
     (evs AND EPOLLOUT \<noteq> 0 \<longrightarrow> cl_ctx_handler cl = ReplyHandler)"

definition clients_ok :: "transit \<Rightarrow> server \<Rightarrow> bool" where
  "clients_ok X w \<longleftrightarrow> heap_ok (hp_pkts w) \<and>
     (\<forall>a cl. h_cells (hp_clients w) a = Some cl \<longrightarrow> reply_ok (hp_pkts w) cl \<and> (a \<notin> fst X \<longrightarrow> phase_ok cl)) \<and>
     (\<forall>a b cl cl' p. h_cells (hp_clients w) a = Some cl \<longrightarrow> h_cells (hp_clients w) b = Some cl' \<longrightarrow>
        owns cl p \<longrightarrow> owns cl' p \<longrightarrow> a = b)"

definition waiting_ok :: "transit \<Rightarrow> server \<Rightarrow> bool" where
  "waiting_ok X w \<longleftrightarrow> fst X \<subseteq> dom (snd X) \<and>
     (\<forall>a evs. snd X a = Some evs \<longrightarrow> (\<exists>cl. h_cells (hp_clients w) a = Some cl \<and> (a \<notin> fst X \<longrightarrow> fits evs cl)))"

definition epoll_ok :: "transit \<Rightarrow> server \<Rightarrow> bool" where
  "epoll_ok X w \<longleftrightarrow> waiting_ok X w \<and> (\<forall>fd m d. sv_epoll w fd = Some (m, d) \<longrightarrow>
     (case d of
        EpFd r \<Rightarrow> r = uint (sv_config_run w)
      | EpPtr a \<Rightarrow> (\<exists>cl. h_cells (hp_clients w) a = Some cl \<and> cl_fd cl = fd \<and>
          (if a \<in> dom (snd X) then m = 0 else mask_ok m cl))))"

lemma clients_okD:
  assumes "clients_ok X w" and "h_cells (hp_clients w) a = Some cl"
  shows "reply_ok (hp_pkts w) cl" and "a \<notin> fst X \<Longrightarrow> phase_ok cl"
  using assms unfolding clients_ok_def by (blast, blast)

lemma epoll_okI:
  assumes "waiting_ok X w"
    and "\<And>fd m d. sv_epoll w fd = Some (m, d) \<Longrightarrow> case d of EpFd r \<Rightarrow> r = uint (sv_config_run w)
      | EpPtr a \<Rightarrow> (\<exists>cl. h_cells (hp_clients w) a = Some cl \<and> cl_fd cl = fd \<and> (if a \<in> dom (snd X) then m = 0 else mask_ok m cl))"
  shows "epoll_ok X w"
  using assms unfolding epoll_ok_def by blast

lemma epoll_okD:
  "epoll_ok X w \<Longrightarrow> sv_epoll w fd = Some (m, d) \<Longrightarrow> case d of EpFd r \<Rightarrow> r = uint (sv_config_run w)
    | EpPtr a \<Rightarrow> (\<exists>cl. h_cells (hp_clients w) a = Some cl \<and> cl_fd cl = fd \<and> (if a \<in> dom (snd X) then m = 0 else mask_ok m cl))"
  unfolding epoll_ok_def by blast

lemma epoll_ok_waiting: "epoll_ok X w \<Longrightarrow> waiting_ok X w"
  by (simp add: epoll_ok_def)

lemma waiting_in: "waiting_ok X w \<Longrightarrow> a \<in> fst X \<Longrightarrow> a \<in> dom (snd X)"
  by (auto simp: waiting_ok_def)

lemma waiting_ok_mono:
  assumes "waiting_ok X w"
    and "\<And>a cl. h_cells (hp_clients w) a = Some cl \<Longrightarrow>
      \<exists>cl'. h_cells (hp_clients w') a = Some cl' \<and> (a \<in> fst X \<or> cl_ctx_handler cl' = cl_ctx_handler cl)"
  shows "waiting_ok X w'"
  unfolding waiting_ok_def
proof (intro conjI allI impI)
  fix a evs assume "snd X a = Some evs"
  then obtain cl where "h_cells (hp_clients w) a = Some cl" "a \<notin> fst X \<longrightarrow> fits evs cl"
    using assms(1) unfolding waiting_ok_def by blast
  with assms(2) show "\<exists>cl'. h_cells (hp_clients w') a = Some cl' \<and> (a \<notin> fst X \<longrightarrow> fits evs cl')"
    by (fastforce simp: fits_def)
qed (use assms(1) in \<open>simp add: waiting_ok_def\<close>)

definition busy :: "transit \<Rightarrow> server \<Rightarrow> bool" where
  "busy X w \<longleftrightarrow> db_inv w \<and> tidy w \<and> clients_ok X w \<and> epoll_ok X w"

abbreviation server_inv :: "server \<Rightarrow> bool" where
  "server_inv \<equiv> busy ({}, Map.empty)"

subsection \<open>Steps that keep it\<close>

text \<open>Clients that differ only in what the invariant does not mention.\<close>

definition same_client :: "transit \<Rightarrow> nat \<Rightarrow> client \<Rightarrow> client \<Rightarrow> bool" where
  "same_client X a cl cl' \<longleftrightarrow> cl_fd cl' = cl_fd cl \<and> cl_reply cl' = cl_reply cl \<and>
     (a \<in> fst X \<or> cl_ctx_handler cl' = cl_ctx_handler cl)"

lemma clients_ok_same:
  assumes "clients_ok X w" and "hp_pkts w' = hp_pkts w"
    and "\<And>a cl'. h_cells (hp_clients w') a = Some cl' \<Longrightarrow>
      \<exists>cl. h_cells (hp_clients w) a = Some cl \<and> same_client X a cl cl'"
  shows "clients_ok X w'"
proof -
  have same: "owns cl' p = owns cl p" "reply_ok h cl' = reply_ok h cl" "a \<notin> fst X \<Longrightarrow> phase_ok cl' = phase_ok cl"
    if "same_client X a cl cl'" for a cl cl' p h
    using that by (auto simp: same_client_def owns_def reply_ok_def phase_ok_def)
  show ?thesis
    unfolding clients_ok_def assms(2)
  proof (intro conjI allI impI)
    show "heap_ok (hp_pkts w)"
      using assms(1) by (simp add: clients_ok_def)
  next
    fix a cl' assume "h_cells (hp_clients w') a = Some cl'"
    then obtain cl where "h_cells (hp_clients w) a = Some cl" "same_client X a cl cl'"
      using assms(3) by blast
    then show "reply_ok (hp_pkts w) cl'" "a \<notin> fst X \<Longrightarrow> phase_ok cl'"
      using assms(1) same by (auto simp: clients_ok_def)
  next
    fix a b cla clb p
    assume ab: "h_cells (hp_clients w') a = Some cla" "h_cells (hp_clients w') b = Some clb" "owns cla p" "owns clb p"
    obtain cl1 cl2 where "h_cells (hp_clients w) a = Some cl1" "same_client X a cl1 cla"
        "h_cells (hp_clients w) b = Some cl2" "same_client X b cl2 clb"
      using assms(3) ab(1,2) by blast
    then show "a = b"
      using assms(1) ab(3,4) same(1) unfolding clients_ok_def by blast
  qed
qed

lemma epoll_ok_same:
  assumes "epoll_ok X w" and "sv_epoll w' \<subseteq>\<^sub>m sv_epoll w" and "sv_config_run w' = sv_config_run w"
    and "\<And>a cl. h_cells (hp_clients w) a = Some cl \<Longrightarrow>
      \<exists>cl'. h_cells (hp_clients w') a = Some cl' \<and> same_client X a cl cl'"
  shows "epoll_ok X w'"
proof (rule epoll_okI)
  show "waiting_ok X w'"
    by (rule waiting_ok_mono [OF epoll_ok_waiting [OF assms(1)]]) (use assms(4) in \<open>fastforce simp: same_client_def\<close>)
next
  fix fd m d assume "sv_epoll w' fd = Some (m, d)"
  then have e: "sv_epoll w fd = Some (m, d)"
    using assms(2) by (auto simp: map_le_def dom_def)
  show "case d of EpFd r \<Rightarrow> r = uint (sv_config_run w')
      | EpPtr a \<Rightarrow> (\<exists>cl. h_cells (hp_clients w') a = Some cl \<and> cl_fd cl = fd \<and> (if a \<in> dom (snd X) then m = 0 else mask_ok m cl))"
  proof (cases d)
    case (EpFd r)
    with assms(3) epoll_okD [OF assms(1) e] show ?thesis
      by simp
  next
    case (EpPtr a)
    with epoll_okD [OF assms(1) e] obtain cl where cl: "h_cells (hp_clients w) a = Some cl" "cl_fd cl = fd"
        "if a \<in> dom (snd X) then m = 0 else mask_ok m cl"
      by auto
    with assms(4) obtain cl' where "h_cells (hp_clients w') a = Some cl'" "same_client X a cl cl'"
      by blast
    then show ?thesis
      using waiting_in [OF epoll_ok_waiting [OF assms(1)]] cl EpPtr by (auto simp: same_client_def mask_ok_def split: if_splits)
  qed
qed

lemma busy_frame:
  assumes "busy X w" and "grows w w'" and "hp_pkts w' = hp_pkts w" and "sv_epoll w' \<subseteq>\<^sub>m sv_epoll w"
    and "sv_config_run w' = sv_config_run w" and "hp_topics w' = hp_topics w" and "hp_msgs w' = hp_msgs w"
    and "\<And>a. rel_option (same_client X a) (h_cells (hp_clients w) a) (h_cells (hp_clients w') a)"
  shows "busy X w'"
proof -
  have b: "db_inv w" "tidy w" "clients_ok X w" "epoll_ok X w"
    using assms(1) by (auto simp: busy_def)
  have "clients_ok X w'"
    by (rule clients_ok_same [OF b(3) assms(3)]) (metis assms(8) option_rel_Some2)
  moreover have "epoll_ok X w'"
    by (rule epoll_ok_same [OF b(4) assms(4,5)]) (metis assms(8) option_rel_Some1)
  ultimately show ?thesis
    using grows_db(1) [OF b(1) assms(2)] grows_tidy [OF b(2,1) assms(2,6,7)] by (simp add: busy_def)
qed

lemma same_client_refl [simp]: "same_client X a cl cl"
  by (simp add: same_client_def)

lemma rel_same_refl [simp]: "rel_option (same_client X a) x x"
  by (cases x) simp_all

text \<open>The frame of a step that leaves nodes, subscriptions and topics alone.\<close>

lemma grows_frame:
  assumes "db_inv w" and "hp_nodes w' = hp_nodes w" and "hp_subs w' = hp_subs w" and "hp_topics w' = hp_topics w"
    and "db_topics w' = db_topics w" and "hm_inv (db_clients w')" and "db_locked w' = db_locked w"
    and "heap_ok (hp_clients w')" and "dom (h_cells (hp_clients w)) \<subseteq> dom (h_cells (hp_clients w'))"
  shows "grows w w'"
  using assms by (simp add: grows_def db_inv_def)

lemma busy_db: "busy X w \<Longrightarrow> db_inv w"
  by (simp add: busy_def)

lemma busy_store:
  assumes "busy X w" and "h_cells (hp_clients w) a = Some cl" and "same_client X a cl cl'"
  shows "busy X (w\<lparr>hp_clients := h_upd (hp_clients w) a (Some cl')\<rparr>)"
proof (rule busy_frame [OF assms(1)])
  have "heap_ok (hp_clients w)" "hm_inv (db_clients w)"
    using busy_db [OF assms(1)] by (auto simp: db_inv_def)
  then show "grows w (w\<lparr>hp_clients := h_upd (hp_clients w) a (Some cl')\<rparr>)"
    using assms(2) by (intro grows_frame busy_db [OF assms(1)]) auto
qed (use assms(2,3) in auto)

lemma store_client_yields:
  assumes "busy X w" and "h_cells (hp_clients w) a = Some cl" and "same_client X a cl cl'"
  shows "yields (busy X) (store_client w (Some a) cl')"
  unfolding store_client_Some [OF assms(2)] by (rule yields_Inr) (rule busy_store [OF assms])

lemma load_client_yields: "yields (\<lambda>cl. \<exists>a. p = Some a \<and> h_cells (hp_clients w) a = Some cl) (load_client w p)"
  by (auto simp: yields_def load_client_def res_simps)

text \<open>\<open>touched w w'\<close>: of the clients only times of last action changed, of the packets nothing.\<close>

definition touched :: "'w sizigydb_scheme \<Rightarrow> 'w sizigydb_scheme \<Rightarrow> bool" where
  "touched w w' \<longleftrightarrow> hp_pkts w' = hp_pkts w \<and>
     (\<forall>a. rel_option (\<lambda>cl cl'. \<exists>n. cl' = cl\<lparr>cl_last_action_time := n\<rparr>)
       (h_cells (hp_clients w) a) (h_cells (hp_clients w') a))"

lemma touched_eq: "hp_clients w' = hp_clients w \<Longrightarrow> hp_pkts w' = hp_pkts w \<Longrightarrow> touched w w'"
proof -
  have "\<exists>n. cl = cl\<lparr>cl_last_action_time := n\<rparr>" for cl :: client
    by (rule exI [of _ "cl_last_action_time cl"]) simp
  then have "rel_option (\<lambda>cl cl'. \<exists>n. cl' = cl\<lparr>cl_last_action_time := n\<rparr>) x x" for x :: "client option"
    by (cases x) simp_all
  then show "hp_clients w' = hp_clients w \<Longrightarrow> hp_pkts w' = hp_pkts w \<Longrightarrow> touched w w'"
    by (simp add: touched_def)
qed

lemma touched_refl [simp]: "touched w w"
  by (rule touched_eq) simp_all

lemma touched_trans: "touched w w' \<Longrightarrow> touched w' w'' \<Longrightarrow> touched w w''"
proof -
  assume a: "touched w w'" "touched w' w''"
  have "rel_option (\<lambda>cl cl'. \<exists>n. cl' = cl\<lparr>cl_last_action_time := n\<rparr>) x z"
    if "rel_option (\<lambda>cl cl'. \<exists>n. cl' = cl\<lparr>cl_last_action_time := n\<rparr>) x y"
      "rel_option (\<lambda>cl cl'. \<exists>n. cl' = cl\<lparr>cl_last_action_time := n\<rparr>) y z" for x y z :: "client option"
    using that by (cases x; cases y; cases z) auto
  with a show ?thesis
    unfolding touched_def by (intro conjI allI) (simp, blast)
qed

lemma touched_client:
  assumes "touched w w'" and "h_cells (hp_clients w) a = Some cl"
  obtains n where "h_cells (hp_clients w') a = Some (cl\<lparr>cl_last_action_time := n\<rparr>)"
proof -
  have "rel_option (\<lambda>cl cl'. \<exists>n. cl' = cl\<lparr>cl_last_action_time := n\<rparr>) (h_cells (hp_clients w) a) (h_cells (hp_clients w') a)"
    using assms(1) unfolding touched_def by blast
  then show thesis
    using that by (cases "h_cells (hp_clients w') a") (auto simp: assms(2))
qed

lemma touched_client_back:
  assumes "touched w w'" and "h_cells (hp_clients w') a = Some cl'"
  obtains cl n where "h_cells (hp_clients w) a = Some cl" "cl' = cl\<lparr>cl_last_action_time := n\<rparr>"
proof -
  have "rel_option (\<lambda>cl cl'. \<exists>n. cl' = cl\<lparr>cl_last_action_time := n\<rparr>) (h_cells (hp_clients w) a) (h_cells (hp_clients w') a)"
    using assms(1) unfolding touched_def by blast
  then show thesis
    using that by (cases "h_cells (hp_clients w) a") (auto simp: assms(2))
qed

lemma update_yields:
  assumes "busy X w"
  shows "yields (\<lambda>w'. busy X w' \<and> touched w w') (update_client_last_action w p)"
proof -
  have same: "same_client X a cl (cl\<lparr>cl_last_action_time := n\<rparr>)" for a cl n
    by (simp add: same_client_def)
  have touch: "touched w (w\<lparr>hp_clients := h_upd (hp_clients w) a (Some (cl\<lparr>cl_last_action_time := n\<rparr>))\<rparr>)"
    if "h_cells (hp_clients w) a = Some cl" for a cl n
    using that touched_refl [of w] unfolding touched_def by auto
  show ?thesis
    unfolding update_client_last_action_def
    by (auto simp: yields_def res_simps object_simps load_client_def intro!: busy_store [OF assms] same touch)
qed

lemma busy_set_rx: "busy X w \<Longrightarrow> busy X (set_rx w fd es)"
  by (rule busy_frame, assumption, rule grows_frame) (auto simp: busy_def db_inv_def)

lemma busy_put_sent: "busy X w \<Longrightarrow> busy X (put_sent w fd evs bs)"
  by (rule busy_frame, assumption, rule grows_frame) (auto simp: busy_def db_inv_def)

lemma busy_close_fd: "busy X w \<Longrightarrow> busy X (close_fd w fd)"
  unfolding close_fd_def
  by (rule busy_frame, assumption, rule grows_frame)
    (auto simp: busy_def db_inv_def del_epoll_def map_le_def)

lemma send_fd_yields:
  assumes "busy X w"
  shows "yields (\<lambda>(w', sent, rc). busy X w' \<and> touched w w') (send_fd w fd buf len)"
  using busy_put_sent [OF assms] by (auto simp: send_fd_def yields_def res_simps intro: touched_eq)

text \<open>A running handler gives its client another reply.\<close>

lemma busy_reply:
  assumes "busy X w" and "h_cells (hp_clients w) c = Some cl" and "c \<in> fst X" and "cl_fd cl' = cl_fd cl"
    and "reply_ok (hp_pkts w) cl'"
    and "\<And>p a cla. owns cl' p \<Longrightarrow> a \<noteq> c \<Longrightarrow> h_cells (hp_clients w) a = Some cla \<Longrightarrow> \<not> owns cla p"
  shows "busy X (w\<lparr>hp_clients := h_upd (hp_clients w) c (Some cl')\<rparr>)"
proof -
  let ?w = "w\<lparr>hp_clients := h_upd (hp_clients w) c (Some cl')\<rparr>"
  have b: "db_inv w" "tidy w" "clients_ok X w" "epoll_ok X w"
    using assms(1) by (auto simp: busy_def)
  have g: "grows w ?w"
    using b(1) assms(2) by (intro grows_frame) (auto simp: db_inv_def)
  have "clients_ok X ?w"
    unfolding clients_ok_def
  proof (intro conjI allI impI)
    fix a cla assume "h_cells (hp_clients ?w) a = Some cla"
    then show "reply_ok (hp_pkts ?w) cla" "a \<notin> fst X \<Longrightarrow> phase_ok cla"
      using b(3) assms(3,5) by (auto simp: clients_ok_def split: if_splits)
  next
    fix a a' cla cla' p
    assume "h_cells (hp_clients ?w) a = Some cla" "h_cells (hp_clients ?w) a' = Some cla'" "owns cla p" "owns cla' p"
    then show "a = a'"
      using b(3) assms(6) [of p a cla] assms(6) [of p a' cla']
      by (cases "a = c"; cases "a' = c") (auto simp: clients_ok_def)
  qed (use b(3) in \<open>simp add: clients_ok_def\<close>)
  moreover have "epoll_ok X ?w"
  proof (rule epoll_okI)
    show "waiting_ok X ?w"
      by (rule waiting_ok_mono [OF epoll_ok_waiting [OF b(4)]]) (use assms(2,3) in auto)
  next
    fix fd m d assume "sv_epoll ?w fd = Some (m, d)"
    then have "case d of EpFd r \<Rightarrow> r = uint (sv_config_run w)
      | EpPtr a \<Rightarrow> (\<exists>cl. h_cells (hp_clients w) a = Some cl \<and> cl_fd cl = fd \<and> (if a \<in> dom (snd X) then m = 0 else mask_ok m cl))"
      using epoll_okD [OF b(4), of fd m d] by simp
    then show "case d of EpFd r \<Rightarrow> r = uint (sv_config_run ?w)
      | EpPtr a \<Rightarrow> (\<exists>cl. h_cells (hp_clients ?w) a = Some cl \<and> cl_fd cl = fd \<and> (if a \<in> dom (snd X) then m = 0 else mask_ok m cl))"
      using assms(2-4) waiting_in [OF epoll_ok_waiting [OF b(4)]] by (cases d) (auto split: if_splits)
  qed
  ultimately show ?thesis
    using grows_db(1) [OF b(1) g] grows_tidy [OF b(2,1) g] by (simp add: busy_def)
qed

lemma ack_reply_shape:
  "opcode \<noteq> PUBLISH \<Longrightarrow> reply_ok h (cl\<lparr>cl_reply := Some (ack_reply cl opcode rc)\<rparr>)"
  "\<not> owns (cl\<lparr>cl_reply := Some (ack_reply cl opcode rc)\<rparr>) p"
  by (simp_all add: reply_ok_def owns_def ack_reply_def)

lemma set_ack_reply_yields:
  assumes "busy X w" and "h_cells (hp_clients w) c = Some cl" and "c \<in> fst X" and "opcode \<noteq> PUBLISH"
  shows "yields (\<lambda>w'. busy X w' \<and> w' = w\<lparr>hp_clients := h_upd (hp_clients w) c
      (Some (cl\<lparr>cl_reply := Some (ack_reply cl opcode rc)\<rparr>))\<rparr>) (set_ack_reply w (Some c) opcode rc)"
  unfolding set_ack_reply_eq [OF assms(2)] store_client_Some [OF assms(2)]
  by (auto intro!: yields_Inr busy_reply [OF assms(1-3)] simp: ack_reply_shape assms(4))

text \<open>Operations on the tables.\<close>

lemma hashmap_put_yields:
  assumes "hm_inv m"
  shows "yields (\<lambda>(m', rc). hm_inv m' \<and> hm_lookup m' = (hm_lookup m)(k := v) \<and> (hm_tight m \<longrightarrow> hm_tight m')) (hashmap_put 2 True m k v)"
proof (cases "hm_room m k")
  case True
  with hashmap_put_room [OF assms True, of 1 True v] show ?thesis
    by (auto simp: yields_def numeral_2_eq_2)
next
  case False
  then show ?thesis
    using hashmap_put_full [OF assms, of k 0 True v] by (simp add: hm_room_def numeral_2_eq_2)
qed

lemma hashmap_del_yields:
  assumes "hm_inv m"
  shows "yields (\<lambda>(m', rc). hm_inv m') (hashmap_del m k)"
  using hm_inv_cleared [OF assms] assms
  by (auto simp: hashmap_del_find [OF assms] yields_def split: option.splits)

lemma busy_clients_table:
  assumes "busy X w" and "hm_inv m"
  shows "busy X (w\<lparr>db_clients := m\<rparr>)"
  using assms by (intro busy_frame [OF assms(1)] grows_frame) (auto simp: busy_def db_inv_def)

lemma add_client_yields:
  assumes "busy X w"
  shows "yields (\<lambda>w'. busy X w' \<and> hp_clients w' = hp_clients w \<and> hp_pkts w' = hp_pkts w) (add_client w p)"
  unfolding add_client_def
  using hashmap_put_yields [of "db_clients w"] busy_clients_table [OF assms] assms
  by (fastforce simp: yields_def res_simps busy_def db_inv_def)

lemma del_client_yields:
  assumes "busy X w"
  shows "yields (\<lambda>w'. busy X w' \<and> hp_clients w' = hp_clients w \<and> hp_pkts w' = hp_pkts w) (del_client w p)"
  unfolding del_client_def
  using hashmap_del_yields [of "db_clients w"] busy_clients_table [OF assms] assms
  by (fastforce simp: yields_def res_simps busy_def db_inv_def)

lemma create_topic_eq:
  "create_topic w name = (if 0 \<in> set name
     then (case h_alloc (hp_topics w) (new_topic (c_str name)) of None \<Rightarrow> Inl ExitFailure
           | Some (a, h) \<Rightarrow> Inr (w\<lparr>hp_topics := h\<rparr>, Some a))
     else Inl OutOfBounds)"
  by (simp add: create_topic_def c_strdup_def list_create_def new_topic_def)

lemma busy_put_topic:
  assumes "busy X w" and "h_cells h = (h_cells (hp_topics w))(t := Some (new_topic k))" and "heap_ok h"
    and "h_cells (hp_topics w) t = None" and "hm_inv m" and "hm_lookup m = (hm_lookup (db_topics w))(k := Some t)"
    and "0 \<notin> set k" and "hm_lookup (db_topics w) k = None" and "hm_tight (db_topics w) \<longrightarrow> hm_tight m"
  shows "busy X (put_topic w t h m)"
proof -
  have b: "db_inv w" "tidy w" "clients_ok X w" "epoll_ok X w"
    using assms(1) by (auto simp: busy_def)
  note put = put_topic_ok [OF b(1) assms(2-7)]
  have "clients_ok X (put_topic w t h m)"
    by (rule clients_ok_same [OF b(3)]) auto
  moreover have "epoll_ok X (put_topic w t h m)"
    by (rule epoll_ok_same [OF b(4)]) (auto simp: put_topic_def)
  moreover have "owned w" "hm_tight m"
    using b(2) assms(9) by (auto simp: tidy_def owned_def)
  then have "tidy (put_topic w t h m)"
    using put(3) b(2) put_topic_owned [OF _ assms(2,4,6,8)] by (simp add: tidy_def)
  ultimately show ?thesis
    using put(1) by (simp add: busy_def)
qed

lemma topic_for_yields:
  assumes "busy X w"
  shows "yields (\<lambda>(w', t). busy X w' \<and> hp_clients w' = hp_clients w \<and> hp_pkts w' = hp_pkts w \<and>
      subscribers w' = subscribers w \<and> t \<noteq> None \<and> hm_lookup (db_topics w') (c_str name) = t) (topic_for w name)"
proof -
  let ?k = "c_str name"
  have inv: "hm_inv (db_topics w)" "heap_ok (hp_topics w)"
    using assms by (auto simp: busy_def db_inv_def)
  have same: "w\<lparr>db_topics := db_topics w\<rparr> = w"
    by simp
  show ?thesis
  proof (cases "hm_lookup (db_topics w) ?k")
    case (Some t)
    then show ?thesis
      using assms by (auto simp: topic_for_def key_of_def hm.get_ok [OF inv(1)] yields_def)
  next
    case None
    have "busy X w' \<and> hp_clients w' = hp_clients w \<and> hp_pkts w' = hp_pkts w \<and>
        subscribers w' = subscribers w \<and> t \<noteq> None \<and> hm_lookup (db_topics w') ?k = t"
      if r: "topic_for w name = Inr (w', t)" for w' t
    proof -
      obtain a h m rc where a: "h_alloc (hp_topics w) (new_topic ?k) = Some (a, h)" "0 \<in> set name"
          "hashmap_put 2 True (db_topics w) ?k (Some a) = Inr (m, rc)" "w' = put_topic w a h m" "t = Some a"
        using r None
        by (auto simp: topic_for_def key_of_def hm.get_ok [OF inv(1)] res_simps create_topic_eq put_topic_def
            split: option.splits if_splits)
      have m: "hm_inv m" "hm_lookup m = (hm_lookup (db_topics w))(?k := Some a)" "hm_tight (db_topics w) \<longrightarrow> hm_tight m"
        using yieldsD [OF hashmap_put_yields [OF inv(1)] a(3)] by auto
      note fresh = h_alloc_fresh [OF inv(2) a(1)]
      note put = busy_put_topic [OF assms fresh(2,3,1) m(1,2) c_str_no_nul None m(3)]
        put_topic_ok(2) [OF busy_db [OF assms] fresh(2,3,1) m(1,2) c_str_no_nul]
      then show ?thesis
        by (simp add: a(4,5) m(2))
    qed
    then show ?thesis
      by (auto simp: yields_def)
  qed
qed

text \<open>Subscribing and delivering.\<close>

lemma busy_same_clients:
  assumes "clients_ok X w" and "epoll_ok X w" and "hp_clients w' = hp_clients w" and "hp_pkts w' = hp_pkts w"
    and "sv_epoll w' = sv_epoll w" and "sv_config_run w' = sv_config_run w" and "db_inv w'" and "tidy w'"
  shows "busy X w'"
proof -
  have "clients_ok X w'"
    by (rule clients_ok_same [OF assms(1,4)]) (auto simp: assms(3))
  moreover have "epoll_ok X w'"
    by (rule epoll_ok_same [OF assms(2)]) (auto simp: assms)
  ultimately show ?thesis
    using assms(7,8) by (simp add: busy_def)
qed

lemma create_subscription_yields:
  assumes "busy X w"
  shows "yields (\<lambda>(w', s). busy X w' \<and> hp_clients w' = hp_clients w \<and> hp_pkts w' = hp_pkts w \<and>
      db_topics w' = db_topics w \<and> hp_topics w' = hp_topics w \<and> subscribers w' = subscribers w \<and>
      (\<exists>a. s = Some a \<and> h_cells (hp_subs w') a = Some \<lparr>sn_client = c, sn_topic = name, sn_qos = qos\<rparr> \<and>
        (\<forall>t tp. h_cells (hp_topics w') t = Some tp \<longrightarrow> Some a \<notin> set (items w' tp))))
    (create_subscription w c name qos)"
proof -
  have inv: "heap_ok (hp_subs w)" and db: "db_inv w"
    using assms by (auto simp: busy_def db_inv_def)
  show ?thesis
    unfolding yields_def
  proof (clarify, goal_cases)
    case (1 w' s)
    then obtain a h where a: "h_alloc (hp_subs w) \<lparr>sn_client = c, sn_topic = name, sn_qos = qos\<rparr> = Some (a, h)"
        "w' = w\<lparr>hp_subs := h\<rparr>" "s = Some a"
      by (auto simp: create_subscription_def split: option.splits)
    note fresh = h_alloc_fresh [OF inv a(1)] h_ext_alloc [OF inv a(1)]
    have g: "grows w w'"
      using db fresh(3,4) by (auto simp: grows_def db_inv_def a(2))
    have "busy X w'"
      by (rule busy_frame [OF assms g]) (simp_all add: a(2))
    moreover have "Some a \<notin> set (items w' tp)" if "h_cells (hp_topics w') t = Some tp" for t tp
      using items_live [OF db, of t tp a] that fresh(1) by (auto simp: items_def a(2))
    ultimately show ?case
      using grows_db(2) [OF db g] fresh(2) by (simp add: a(2,3))
  qed
qed

lemma add_subscriber_yields:
  assumes "busy X w" and "h_cells (hp_subs w) s = Some sub" and "sn_client sub = Some c"
    and "h_cells (hp_clients w) c \<noteq> None" and "sn_topic sub = k @ [0]" and "0 \<notin> set k"
    and "hm_lookup (db_topics w) k = Some t" and "\<And>t tp. h_cells (hp_topics w) t = Some tp \<Longrightarrow> Some s \<notin> set (items w tp)"
  shows "yields (\<lambda>w'. busy X w' \<and> hp_clients w' = hp_clients w \<and> hp_pkts w' = hp_pkts w \<and>
      subscribers w' = (subscribers w)(t := c # subscribers w t)) (add_subscriber w (Some s))"
proof -
  have b: "db_inv w" "tidy w" "clients_ok X w" "epoll_ok X w"
    using assms(1) by (auto simp: busy_def)
  obtain tp where tp: "h_cells (hp_topics w) t = Some tp"
    by (rule db_inv_topic [OF b(1) assms(7)])
  show ?thesis
  proof (cases "h_avail (hp_nodes w) = 0")
    case True
    then have "add_subscriber w (Some s) = Inl ExitFailure"
      using b(1) assms tp
      by (simp add: add_subscriber_def h_load_def db_inv_def hm.get_ok db_lock_def object_simps list_head_insert_def h_alloc_def)
    then show ?thesis
      by simp
  next
    case False
    have len: "unat (l_len (tp_subscribers tp)) + h_avail (hp_nodes w) < 2 ^ 64"
      using tidy_lens [OF b(2)] tp by (auto simp: lens_ok_def)
    then have "list_slots (hp_nodes w, tp_subscribers tp) > 0"
      using False by (simp add: list_slots_def)
    then obtain h l where add: "add_subscriber w (Some s) = Inr (put_subs w t tp h l)" "db_inv (put_subs w t tp h l)"
      "subscribers (put_subs w t tp h l) = (subscribers w)(t := c # subscribers w t)"
      "unat (l_len l) = Suc (unat (l_len (tp_subscribers tp)))" "h_avail h = h_avail (hp_nodes w) - 1"
      "list_items (h, l) = Some s # list_items (hp_nodes w, tp_subscribers tp)" "h_ext (hp_nodes w) h" "heap_ok h"
      by (rule add_subscriber_ok [OF b(1) assms(2-7) tp])
    have "lens_ok (put_subs w t tp h l)"
      using tidy_lens [OF b(2)] len False add(4,5) by (fastforce simp: lens_ok_def split: if_splits)
    moreover have "owned (put_subs w t tp h l)"
      using b(2) add(6) by (intro put_subs_owned [OF _ b(1) tp _ add(4,7,8) assms(8)]) (simp_all add: tidy_def items_def)
    ultimately have "tidy (put_subs w t tp h l)"
      by (simp add: tidy_def)
    then have "busy X (put_subs w t tp h l)"
      using b add(2) by (intro busy_same_clients [OF b(3,4)]) (simp_all add: put_subs_def)
    with add show ?thesis
      by (auto intro: yields_Inr)
  qed
qed

lemma retain_message_yields:
  assumes "busy X w"
  shows "yields (\<lambda>w'. busy X w' \<and> hp_clients w' = hp_clients w \<and> hp_pkts w' = hp_pkts w)
    (retain_message w t msg sender)"
  unfolding yields_def
proof (intro allI impI, goal_cases)
  case (1 w')
  then obtain a tp x m h y hm where a: "t = Some a" "h_cells (hp_topics w) a = Some tp" "h_alloc (hp_msgs w) x = Some (m, h)"
      "hm = (case tp_retained tp of None \<Rightarrow> h_upd h m (Some y) | Some old \<Rightarrow> h_upd (h_upd h m (Some y)) old None)"
      "w' = w\<lparr>hp_msgs := hm, hp_topics := h_upd (hp_topics w) a (Some (tp\<lparr>tp_retained := Some m\<rparr>))\<rparr>" (is "_ = ?w")
    by (auto simp: retain_message_def create_message_def destroy_message_def store_topic_def load_topic_def
        h_free_def Let_def res_simps split: option.splits if_splits)
  have b: "db_inv w" "tidy w" "clients_ok X w" "epoll_ok X w"
    using assms by (auto simp: busy_def)
  have o: "owned w" "heap_ok (hp_msgs w)"
    using b(2) by (auto simp: tidy_def owned_def)
  note fresh = h_alloc_fresh [OF o(2) a(3)]
  have ok: "heap_ok hm"
    using fresh by (auto simp: a(4) heap_ok_def split: option.split)
  have "grows w ?w"
    using b(1) a(2) by (auto simp: grows_def db_inv_def topic_core_def)
  moreover have "owned ?w"
    by (rule retain_owned [OF o(1) a(2,3) _ _ ok, of "Some y"]) (simp_all add: a(4) split: option.split)
  ultimately have "db_inv ?w" "tidy ?w"
    using grows_db(1) [OF b(1)] grows_lens [OF tidy_lens [OF b(2)]] by (auto simp: tidy_def)
  then have "busy X ?w"
    by (intro busy_same_clients [OF b(3,4)]) simp_all
  then show ?case
    by (simp add: a(5))
qed

lemma publish_loop_yields:
  assumes "busy X w"
  shows "yields (\<lambda>(w', tot). busy X w' \<and> touched w w') (publish_loop fuel w cursor b tot)"
  using assms
proof (induction fuel arbitrary: w cursor tot)
  case 0
  then show ?case
    by (simp add: publish_loop.simps yields_def split: option.split)
next
  case (Suc fuel)
  show ?case
  proof (cases cursor)
    case None
    then show ?thesis
      using Suc.prems by (simp add: publish_loop.simps yields_def)
  next
    case (Some a)
    have "yields (\<lambda>(w', tot). busy X w' \<and> touched w w')
        (bindR (send_fd w fd (b_data b) n) (\<lambda>(w, sent, _).
         bindR (update_client_last_action w c) (\<lambda>w.
         bindR (guardR (tot + sent \<le> INT_MAX) SignedOverflow) (\<lambda>_. publish_loop fuel w next b (tot + sent)))))"
      for fd n c "next"
    proof (rule yields_bindR [OF send_fd_yields [OF Suc.prems]], clarify)
      fix w1 sent assume w1: "busy X w1" "touched w w1"
      show "yields (\<lambda>(w', tot). busy X w' \<and> touched w w')
        (bindR (update_client_last_action w1 c) (\<lambda>w.
         bindR (guardR (tot + sent \<le> INT_MAX) SignedOverflow) (\<lambda>_. publish_loop fuel w next b (tot + sent))))"
      proof (rule yields_bindR [OF update_yields [OF w1(1)]], rule yields_step)
        fix w2 assume w2: "busy X w2 \<and> touched w1 w2"
        then show "yields (\<lambda>(w', tot). busy X w' \<and> touched w w') (publish_loop fuel w2 next b (tot + sent))"
          using Suc.IH [of w2] w1(2) touched_trans by (blast intro: yields_mono)
      qed
    qed
    note rest = this
    show ?thesis
      unfolding publish_loop.simps [of "Suc fuel"] Some option.case nat.case
      by (rule yields_step, rule yields_step, rule yields_step, rule rest)
  qed
qed

lemma publish_message_yields:
  assumes "busy X w"
  shows "yields (\<lambda>(w', tot). busy X w' \<and> touched w w') (publish_message w t msg sender)"
proof -
  have retain: "yields (\<lambda>w'. busy X w' \<and> touched w w')
      (if pb_retain msg \<noteq> 0 then retain_message w t msg sender else Inr w)"
    using retain_message_yields [OF assms, of t msg sender] assms by (auto simp: yields_def intro: touched_eq)
  show ?thesis
    unfolding publish_message_def
  proof (rule yields_step, rule yields_step, rule yields_bindR [OF retain], rule yields_step, goal_cases)
    case (1 _ b w1 tp)
    show ?case
      by (rule yields_bindR [OF publish_loop_yields [of X w1]])
        (use 1 touched_trans in \<open>auto simp: buffer_destroy_def yields_def\<close>)
  qed
qed

text \<open>Packets.\<close>

lemma owns_live:
  assumes "clients_ok X w" and "h_cells (hp_clients w) a = Some cl" and "owns cl p"
  obtains x where "h_cells (hp_pkts w) p = Some (PPublish x)"
proof -
  have "reply_ok (hp_pkts w) cl"
    using assms(1,2) by (simp add: clients_ok_def)
  with assms(3) that show thesis
    by (auto simp: owns_def reply_ok_def split: if_splits)
qed

lemma busy_pkts:
  assumes "busy X w" and "heap_ok h"
    and "\<And>a cl p. h_cells (hp_clients w) a = Some cl \<Longrightarrow> owns cl p \<Longrightarrow> h_cells h p = h_cells (hp_pkts w) p"
  shows "busy X (w\<lparr>hp_pkts := h\<rparr>)"
proof -
  have b: "db_inv w" "tidy w" "clients_ok X w" "epoll_ok X w"
    using assms(1) by (auto simp: busy_def)
  have g: "grows w (w\<lparr>hp_pkts := h\<rparr>)"
    using b(1) by (intro grows_frame) (auto simp: db_inv_def)
  have "reply_ok h cl" if "h_cells (hp_clients w) a = Some cl" for a cl
  proof -
    have "reply_ok (hp_pkts w) cl"
      using b(3) that by (simp add: clients_ok_def)
    moreover have "h_cells h p = h_cells (hp_pkts w) p" if "cl_reply cl = Some r" "rp_body r = Published (Some p)" for r p
      using assms(3) [OF \<open>h_cells (hp_clients w) a = Some cl\<close>] that by (simp add: owns_def)
    ultimately show ?thesis
      unfolding reply_ok_def by fastforce
  qed
  then have "clients_ok X (w\<lparr>hp_pkts := h\<rparr>)"
    using b(3) assms(2) by (simp add: clients_ok_def)
  moreover have "epoll_ok X (w\<lparr>hp_pkts := h\<rparr>)"
    by (rule epoll_ok_same [OF b(4)]) auto
  ultimately show ?thesis
    using grows_db(1) [OF b(1) g] grows_tidy [OF b(2,1) g] by (simp add: busy_def)
qed

lemma free_packet_yields:
  assumes "busy X w" and "\<And>x. \<not> kind (PPublish x)"
  shows "yields (\<lambda>(h, _). busy X (w\<lparr>hp_pkts := h\<rparr>)) (free_packet kind (hp_pkts w) p)"
proof (cases p)
  case None
  with assms(1) show ?thesis
    by (simp add: free_packet_def yields_def)
next
  case (Some a)
  have c: "clients_ok X w"
    using assms(1) by (simp add: busy_def)
  have "busy X (w\<lparr>hp_pkts := h_upd (hp_pkts w) a None\<rparr>)" if "h_cells (hp_pkts w) a = Some k" "kind k" for k
  proof (rule busy_pkts [OF assms(1)])
    show "heap_ok (h_upd (hp_pkts w) a None)"
      using c by (auto simp: clients_ok_def)
    fix a' cl p assume "h_cells (hp_clients w) a' = Some cl" "owns cl p"
    then obtain x where "h_cells (hp_pkts w) p = Some (PPublish x)"
      by (rule owns_live [OF c])
    with that assms(2) show "h_cells (h_upd (hp_pkts w) a None) p = h_cells (hp_pkts w) p"
      by auto
  qed
  then show ?thesis
    using Some by (auto simp: free_packet_def yields_def res_simps heap_simps)
qed

lemmas free_kinds = free_ack_def free_connect_def free_subscribe_def free_unsubscribe_def

lemma alloc_pkt_yields:
  assumes "busy X w"
  shows "yields (\<lambda>(w', p). busy X w' \<and> hp_clients w' = hp_clients w \<and>
      (\<exists>a. p = Some a \<and> h_cells (hp_pkts w') a = Some k \<and> (\<forall>c cl. h_cells (hp_clients w') c = Some cl \<longrightarrow> \<not> owns cl a)))
    (alloc_pkt w k)"
  unfolding yields_def
proof (clarify, goal_cases)
  case (1 w' p)
  then obtain a h where a: "h_alloc (hp_pkts w) k = Some (a, h)" "w' = w\<lparr>hp_pkts := h\<rparr>" "p = Some a"
    by (auto simp: alloc_pkt_def split: option.splits)
  have c: "clients_ok X w"
    using assms by (simp add: busy_def)
  then have "heap_ok (hp_pkts w)"
    by (simp add: clients_ok_def)
  note fresh = h_alloc_fresh [OF this a(1)]
  have free: "\<not> owns cl a" if "h_cells (hp_clients w) c = Some cl" for c cl
    using owns_live [OF c that] fresh(1) by fastforce
  then have "busy X w'"
    unfolding a(2) by (intro busy_pkts [OF assms fresh(3)]) (auto simp: fresh(2))
  with free show ?case
    using fresh(2) by (simp add: a(2,3))
qed

subsection \<open>Handlers\<close>

text \<open>While the handler of \<open>c\<close> runs, its client keeps its descriptor.\<close>

definition serving :: "(nat \<rightharpoonup> u32) \<Rightarrow> nat \<Rightarrow> int \<Rightarrow> server \<Rightarrow> bool" where
  "serving D c fd w \<longleftrightarrow> c \<notin> dom D \<and> busy ({c}, D(c \<mapsto> 0)) w \<and> (\<exists>cl. h_cells (hp_clients w) c = Some cl \<and> cl_fd cl = fd)"

lemma serving_busy: "serving D c fd w \<Longrightarrow> busy ({c}, D(c \<mapsto> 0)) w"
  by (simp add: serving_def)

lemma serving_client:
  assumes "serving D c fd w"
  obtains cl where "h_cells (hp_clients w) c = Some cl" "cl_fd cl = fd"
  using assms by (auto simp: serving_def)

lemma serving_keep:
  "serving D c fd w \<Longrightarrow> busy ({c}, D(c \<mapsto> 0)) w' \<Longrightarrow> hp_clients w' = hp_clients w \<Longrightarrow> serving D c fd w'"
  by (simp add: serving_def)

lemma serving_touched:
  assumes "serving D c fd w" and "busy ({c}, D(c \<mapsto> 0)) w'" and "touched w w'"
  shows "serving D c fd w'"
proof -
  obtain cl where "h_cells (hp_clients w) c = Some cl" "cl_fd cl = fd"
    using assms(1) by (rule serving_client)
  moreover from this obtain n where "h_cells (hp_clients w') c = Some (cl\<lparr>cl_last_action_time := n\<rparr>)"
    by (blast elim: touched_client [OF assms(3)])
  ultimately show ?thesis
    using assms(1,2) by (simp add: serving_def)
qed

lemma serving_update: "serving D c fd w \<Longrightarrow> yields (serving D c fd) (update_client_last_action w p)"
  using update_yields [OF serving_busy] serving_touched by (blast intro: yields_mono)

lemma serving_set_ack:
  assumes "serving D c fd w" and "opcode \<noteq> PUBLISH"
  shows "yields (serving D c fd) (set_ack_reply w (Some c) opcode rc)"
proof -
  obtain cl where "h_cells (hp_clients w) c = Some cl" "cl_fd cl = fd"
    using assms(1) by (rule serving_client)
  then show ?thesis
    by (intro yields_mono [OF set_ack_reply_yields [OF serving_busy [OF assms(1)]]])
      (use assms(1) in \<open>auto simp: serving_def assms(2)\<close>)
qed

lemma serving_store:
  assumes "serving D c fd w" and "h_cells (hp_clients w) c = Some cl" and "cl_fd cl' = fd" and "cl_reply cl' = cl_reply cl"
  shows "yields (serving D c fd) (store_client w (Some c) cl')"
proof -
  have "cl_fd cl = fd"
    using assms(1,2) by (auto simp: serving_def)
  then have "busy ({c}, D(c \<mapsto> 0)) (w\<lparr>hp_clients := h_upd (hp_clients w) c (Some cl')\<rparr>)"
    by (intro busy_store [OF serving_busy [OF assms(1)] assms(2)]) (simp add: same_client_def assms(3,4))
  then show ?thesis
    unfolding store_client_Some [OF assms(2)] using assms(1) by (intro yields_Inr) (simp add: serving_def assms(3))
qed

lemma serving_free:
  assumes "serving D c fd w" and "\<And>x. \<not> kind (PPublish x)"
  shows "yields (\<lambda>(w', _). serving D c fd w')
    (bindR (free_packet kind (hp_pkts w) p) (\<lambda>(h, _). Inr (w\<lparr>hp_pkts := h\<rparr>, rc)))"
proof -
  have "yields (\<lambda>(h, _). busy ({c}, D(c \<mapsto> 0)) (w\<lparr>hp_pkts := h\<rparr>)) (free_packet kind (hp_pkts w) p)"
    by (rule free_packet_yields) (use assms serving_busy in auto)
  then show ?thesis
    by (rule yields_bindR) (use assms(1) in \<open>auto simp: yields_def serving_def\<close>)
qed

lemma pingreq_yields:
  assumes "serving D c fd w"
  shows "yields (\<lambda>(w', _). serving D c fd w') (pingreq_handler w (Some c))"
  unfolding pingreq_handler_def free_kinds
  by (rule yields_bindR [OF serving_set_ack [OF assms]], simp add: opcode_defs,
      rule yields_bindR [OF serving_update], assumption, rule yields_step, rule serving_free) simp_all

lemma connect_yields:
  assumes "serving D c fd w"
  shows "yields (\<lambda>(w', _). serving D c fd w') (connect_handler w (Some c))"
proof -
  have add: "yields (serving D c fd) (add_client w' (Some c))" if "serving D c fd w'" for w'
    using that by (intro yields_mono [OF add_client_yields [OF serving_busy]]) (auto intro: serving_keep)
  have clean: "yields (serving D c fd) (bindR (del_client w (Some c)) (\<lambda>w. bindR (free_id w (Some c) cl0) (\<lambda>_. bindR (c_strdup s) (\<lambda>ident.
      bindR (load_client w (Some c)) (\<lambda>cl. bindR (store_client w (Some c) (cl\<lparr>cl_id := Some ident\<rparr>)) (\<lambda>w.
      add_client w (Some c)))))))" for s cl0
  proof (rule yields_bindR [OF del_client_yields [OF serving_busy [OF assms]]],
      rule yields_step, rule yields_step, rule yields_bindR [OF load_client_yields], goal_cases)
    case (1 w1 _ ident cl)
    then have "serving D c fd w1"
      using serving_keep [OF assms] by blast
    moreover have "cl_fd cl = fd"
      using 1 assms by (auto simp: serving_def)
    ultimately show ?case
      using 1 add by (intro yields_bindR [OF serving_store]) auto
  qed
  show ?thesis
    unfolding connect_handler_def free_kinds Let_def
  proof (rule yields_step, rule yields_step, goal_cases)
    case (1 cl pkt)
    have "yields (serving D c fd) (if cn_idlen pkt = 0 then Inr w
        else if cn_clean_session pkt = 1
        then bindR (del_client w (Some c)) (\<lambda>w. bindR (free_id w (Some c) cl) (\<lambda>_. bindR (c_strdup (cn_id pkt)) (\<lambda>ident.
          bindR (load_client w (Some c)) (\<lambda>cl. bindR (store_client w (Some c) (cl\<lparr>cl_id := Some ident\<rparr>)) (\<lambda>w.
          add_client w (Some c))))))
        else add_client w (Some c))"
      using assms clean add by (auto intro: yields_Inr)
    then show ?case
      by (rule yields_bindR)
        (rule yields_bindR [OF serving_set_ack], assumption, simp add: opcode_defs,
          rule yields_bindR [OF serving_update], assumption, rule serving_free, simp_all)
  qed
qed

text \<open>The part of \<open>subscribe_handler\<close> that registers the client with its topic.\<close>

lemma subscribe_step_yields:
  assumes "serving D c fd w" and "hm_lookup (db_topics w) k = Some t" and "h_cells (hp_topics w) t = Some tp"
  shows "yields (\<lambda>w'. serving D c fd w' \<and> hp_clients w' = hp_clients w \<and>
      subscribers w' = (subscribers w)(t := c # subscribers w t))
    (bindR (create_subscription w (Some c) (tp_name tp) qos) (\<lambda>(w, s). add_subscriber w s))"
proof (rule yields_bindR [OF create_subscription_yields [OF serving_busy [OF assms(1)]]], clarify, goal_cases)
  case (1 w1 p s)
  obtain tp' where "h_cells (hp_topics w) t = Some tp'" "tp_name tp' = k @ [0]" "0 \<notin> set k"
    using busy_db [OF serving_busy [OF assms(1)]] assms(2) by (rule db_inv_topic)
  then have name: "tp_name tp = k @ [0]" "0 \<notin> set k"
    using assms(3) by auto
  have "h_cells (hp_clients w1) c \<noteq> None"
    using assms(1) 1 by (auto simp: serving_def)
  with 1 name assms(2) show ?case
    by (intro yields_mono [OF add_subscriber_yields [OF 1(1) 1(7), of c k t]])
      (auto intro: serving_keep [OF assms(1)])
qed

lemma serving_retained:
  assumes "serving D c fd w" and "h_cells (hp_clients w) c = Some cl"
  shows "yields (serving D c fd) (case cl_reply cl of None \<Rightarrow> Inl NullDeref
    | Some r \<Rightarrow> store_client w (Some c) (cl\<lparr>cl_reply := Some (r\<lparr>rp_retained := m\<rparr>)\<rparr>))"
proof (cases "cl_reply cl")
  case (Some r)
  let ?cl = "cl\<lparr>cl_reply := Some (r\<lparr>rp_retained := m\<rparr>)\<rparr>"
  have ok: "clients_ok ({c}, D(c \<mapsto> 0)) w"
    using serving_busy [OF assms(1)] by (simp add: busy_def)
  have o: "owns ?cl p \<longleftrightarrow> owns cl p" for p
    by (simp add: owns_def Some)
  have "reply_ok (hp_pkts w) ?cl"
    using ok assms(2) Some by (fastforce simp: clients_ok_def reply_ok_def)
  moreover have "\<not> owns cla p" if "owns ?cl p" "a \<noteq> c" "h_cells (hp_clients w) a = Some cla" for p a cla
    using ok assms(2) that unfolding o clients_ok_def by blast
  ultimately have "busy ({c}, D(c \<mapsto> 0)) (w\<lparr>hp_clients := h_upd (hp_clients w) c (Some ?cl)\<rparr>)"
    using assms(2) by (intro busy_reply [OF serving_busy [OF assms(1)] assms(2)]) auto
  with assms Some show ?thesis
    by (auto simp: store_client_Some serving_def intro!: yields_Inr)
qed simp

lemma subscribe_yields:
  assumes "serving D c fd w"
  shows "yields (\<lambda>(w', _). serving D c fd w') (subscribe_handler w (Some c))"
proof -
  have sub: "yields (serving D c fd) (bindR (topic_for w name) (\<lambda>(w, t).
      bindR (set_ack_reply w (Some c) SUBACK 0) (\<lambda>w. bindR (load_topic w t) (\<lambda>tp.
      bindR (create_subscription w (Some c) (tp_name tp) qos) (\<lambda>(w, s). bindR (add_subscriber w s) (\<lambda>w.
      bindR (load_topic w t) (\<lambda>tp. bindR (load_client w (Some c)) (\<lambda>cl.
      (case cl_reply cl of None \<Rightarrow> Inl NullDeref
       | Some r \<Rightarrow> store_client w (Some c) (cl\<lparr>cl_reply := Some (r\<lparr>rp_retained := Some (tp_retained tp)\<rparr>)\<rparr>))))))))))"
    for name qos
  proof (rule yields_bindR [OF topic_for_yields [OF serving_busy [OF assms]]], clarify, goal_cases)
    case (1 w1 p t)
    then have w1: "serving D c fd w1"
      using serving_keep [OF assms] by blast
    obtain cl where cl: "h_cells (hp_clients w1) c = Some cl"
      using w1 by (rule serving_client)
    have ack: "yields (\<lambda>w'. serving D c fd w' \<and> db_topics w' = db_topics w1) (set_ack_reply w1 (Some c) SUBACK 0)"
      using serving_set_ack [OF w1, of SUBACK 0]
      by (auto simp: set_ack_reply_eq [OF cl] store_client_Some [OF cl] yields_def opcode_defs)
    show ?case
    proof (rule yields_bindR [OF ack], rule yields_step, goal_cases)
      case (1 w2 tp)
      then have "h_cells (hp_topics w2) t = Some tp" "hm_lookup (db_topics w2) (c_str name) = Some t"
        using \<open>hm_lookup (db_topics w1) (c_str name) = Some t\<close> by (auto simp: load_topic_def res_simps)
      then have "yields (serving D c fd) (bindR (create_subscription w2 (Some c) (tp_name tp) qos) (\<lambda>(w, s). add_subscriber w s))"
        using 1 by (intro yields_mono [OF subscribe_step_yields]) auto
      then have "yields (serving D c fd) (bindR (bindR (create_subscription w2 (Some c) (tp_name tp) qos) (\<lambda>(w, s). add_subscriber w s)) (\<lambda>w.
         bindR (load_topic w (Some t)) (\<lambda>tp. bindR (load_client w (Some c)) (\<lambda>cl.
         (case cl_reply cl of None \<Rightarrow> Inl NullDeref
          | Some r \<Rightarrow> store_client w (Some c) (cl\<lparr>cl_reply := Some (r\<lparr>rp_retained := Some (tp_retained tp)\<rparr>)\<rparr>))))))"
        by (rule yields_bindR, intro yields_step yields_bindR [OF load_client_yields]) (auto intro: serving_retained)
      then show ?case
        by (simp add: bindR_assoc case_prod_unfold \<open>hm_lookup (db_topics w1) (c_str name) = Some t\<close>)
    qed
  qed
  show ?thesis
    unfolding subscribe_handler_def free_kinds
  proof (rule yields_step, rule yields_step, goal_cases)
    case (1 cl pkt)
    show ?case
      by (rule yields_bindR [where P = "serving D c fd"],
          rule yields_if [OF serving_set_ack [OF assms] sub], simp add: opcode_defs, rule serving_free, simp_all)
  qed
qed

lemma publish_handler_yields:
  assumes "serving D c fd w" and "h_cells (hp_clients w) c = Some cl" and "cl_ptr cl = Some p"
    and "\<And>a cla. h_cells (hp_clients w) a = Some cla \<Longrightarrow> \<not> owns cla p"
  shows "yields (\<lambda>(w', _). serving D c fd w') (publish_handler w (Some c))"
proof -
  let ?cl = "cl\<lparr>cl_reply := Some \<lparr>rp_opcode = PUBLISH, rp_fd = cl_fd cl, rp_body = Published (Some p), rp_retained = None\<rparr>\<rparr>"
  have "yields (serving D c fd) (store_client w (Some c) ?cl)" if pub: "pkt_publish w (Some p) = Inr pkt" for pkt
  proof -
    obtain k where "h_cells (hp_pkts w) p = Some k" "(case k of PPublish x \<Rightarrow> Inr x | _ \<Rightarrow> Inl Dangling) = Inr pkt"
      using pub by (auto simp: pkt_publish_def res_simps)
    then have "h_cells (hp_pkts w) p = Some (PPublish pkt)"
      by (cases k) auto
    then have "reply_ok (hp_pkts w) ?cl"
      by (simp add: reply_ok_def)
    then have "busy ({c}, D(c \<mapsto> 0)) (w\<lparr>hp_clients := h_upd (hp_clients w) c (Some ?cl)\<rparr>)"
      by (intro busy_reply [OF serving_busy [OF assms(1)] assms(2)]) (auto simp: owns_def dest: assms(4))
    then show ?thesis
      using assms(1,2) by (auto simp: store_client_Some [OF assms(2)] serving_def intro!: yields_Inr)
  qed
  then show ?thesis
    unfolding publish_handler_def load_client_Some [OF assms(2)] bindR.simps assms(3)
    by (intro yields_step yields_bindR [where P = "serving D c fd" and m = "if _ then _ else _"] yields_if)
      (auto intro: yields_Inr assms(1))
qed

text \<open>The handler of an opcode the broker can unpack.\<close>

lemma run_commands_yields:
  assumes "serving D c fd w" and "h_cells (hp_clients w) c = Some cl" and "cl_ptr cl = Some p"
    and "\<And>a cla. h_cells (hp_clients w) a = Some cla \<Longrightarrow> \<not> owns cla p"
    and "opcode \<in> {CONNECT, SUBSCRIBE, PUBLISH, SUBACK, PUBACK, PINGREQ}"
  shows "yields (\<lambda>(w', _, _). serving D c fd w') (run_commands commands_hashmap opcode (Some c) (w, fr, ex))"
proof -
  have one: "yields (\<lambda>(w', _, _). serving D c fd w') (bindR m (\<lambda>(w, rc). Inr (w, rc, True)))"
    if "yields (\<lambda>(w', _). serving D c fd w') m" for m :: "cerr + (server \<times> int)"
    using that by (auto simp: yields_def res_simps)
  note handlers = connect_yields [OF assms(1)] subscribe_yields [OF assms(1)] pingreq_yields [OF assms(1)]
    publish_handler_yields [OF assms(1-4)]
  consider "opcode = CONNECT" | "opcode = SUBSCRIBE" | "opcode = PUBLISH" | "opcode = PINGREQ"
    | "opcode = SUBACK \<or> opcode = PUBACK"
    using assms(5) by blast
  then show ?thesis
  proof cases
    case 5
    then show ?thesis
      using assms(1) by (auto simp: commands_hashmap_def opcode_defs intro: yields_Inr)
  qed (use handlers [THEN one] in \<open>simp_all add: commands_hashmap_def opcode_defs\<close>)
qed

text \<open>A handler ends: its client gets a phase and the matching registration.\<close>

lemma waiting_leave:
  assumes "waiting_ok ({c}, D(c \<mapsto> 0)) w" and "c \<notin> dom D"
    and "\<And>a. a \<noteq> c \<Longrightarrow> h_cells (hp_clients w') a = h_cells (hp_clients w) a"
  shows "waiting_ok ({}, D) w'"
  unfolding waiting_ok_def
proof (intro conjI allI impI)
  fix a evs assume a: "snd ({}, D) a = Some evs"
  with assms(2) have "a \<noteq> c"
    by auto
  then have "(D(c \<mapsto> 0)) a = Some evs"
    using a by simp
  then have "\<exists>cl. h_cells (hp_clients w) a = Some cl \<and> (a \<notin> {c} \<longrightarrow> fits evs cl)"
    using assms(1) unfolding waiting_ok_def by simp
  with \<open>a \<noteq> c\<close> assms(3) show "\<exists>cl. h_cells (hp_clients w') a = Some cl \<and> (a \<notin> fst ({}, D) \<longrightarrow> fits evs cl)"
    by simp
qed simp

lemma finish:
  assumes "serving D c fd w" and "h_cells (hp_clients w) c = Some cl" and "cl' = cl\<lparr>cl_ctx_handler := h, cl_reply := r\<rparr>"
    and "r = cl_reply cl \<or> r = None" and "h \<noteq> ReplyHandler \<longrightarrow> r = None"
    and "evs = (if h = ReplyHandler then EPOLLOUT else EPOLLIN)"
  shows "busy ({}, D) (set_epoll (w\<lparr>hp_clients := h_upd (hp_clients w) c (Some cl')\<rparr>)
    (mod_epoll (sv_epoll w) fd evs (Some c)))" (is "busy ({}, D) ?w")
proof -
  have b: "db_inv w" "tidy w" "clients_ok ({c}, D(c \<mapsto> 0)) w" "epoll_ok ({c}, D(c \<mapsto> 0)) w"
    using assms(1) by (auto simp: serving_def busy_def)
  have fd: "cl_fd cl' = fd" "cl_fd cl = fd"
    using assms(1,2,3) by (auto simp: serving_def)
  have g: "grows w ?w"
    using b(1) assms(2) by (intro grows_frame) (auto simp: db_inv_def)
  have "cl_reply cl' = cl_reply cl \<or> cl_reply cl' = None"
    using assms(3,4) by auto
  then have o: "owns cl' p \<Longrightarrow> owns cl p" "reply_ok h' cl \<Longrightarrow> reply_ok h' cl'" for p h'
    unfolding owns_def reply_ok_def by (elim disjE; simp)+
  have "clients_ok ({}, D) ?w"
    unfolding clients_ok_def
  proof (intro conjI allI impI)
    fix a cla assume "h_cells (hp_clients ?w) a = Some cla"
    then have a: "(if a = c then cl' = cla else h_cells (hp_clients w) a = Some cla)"
      by (simp split: if_splits)
    have others: "reply_ok (hp_pkts w) x" "a' \<noteq> c \<Longrightarrow> phase_ok x" if "h_cells (hp_clients w) a' = Some x" for a' x
      using clients_okD [OF b(3) that] by simp_all
    have "phase_ok cl'"
      using assms(3,5) by (simp add: phase_ok_def)
    then show "reply_ok (hp_pkts ?w) cla" "a \<notin> fst ({} :: nat set, D) \<Longrightarrow> phase_ok cla"
      using a others o(2) [OF others(1) [OF assms(2)]] by (cases "a = c"; simp)+
  next
    fix a a' cla cla' p
    assume "h_cells (hp_clients ?w) a = Some cla" "h_cells (hp_clients ?w) a' = Some cla'" "owns cla p" "owns cla' p"
    then show "a = a'"
      using b(3) assms(2) o(1) unfolding clients_ok_def by (cases "a = c"; cases "a' = c") (simp, fastforce+)
  qed (use b(3) in \<open>simp add: clients_ok_def\<close>)
  moreover have "epoll_ok ({}, D) ?w"
  proof (rule epoll_okI)
    show "waiting_ok ({}, D) ?w"
      by (rule waiting_leave [OF epoll_ok_waiting [OF b(4)]]) (use assms(1) in \<open>auto simp: serving_def\<close>)
  next
    fix fd' m d assume e: "sv_epoll ?w fd' = Some (m, d)"
    show "case d of EpFd r \<Rightarrow> r = uint (sv_config_run ?w)
      | EpPtr a \<Rightarrow> (\<exists>cl. h_cells (hp_clients ?w) a = Some cl \<and> cl_fd cl = fd' \<and> (if a \<in> dom (snd ({} :: nat set, D)) then m = 0 else mask_ok m cl))"
    proof (cases "fd' = fd \<and> fd \<in> dom (sv_epoll w)")
      case True
      with e have "d = EpPtr c" "m = evs OR EPOLLET OR EPOLLONESHOT"
        by (auto simp: mod_epoll_def ep_union_def)
      moreover have "mask_ok (evs OR EPOLLET OR EPOLLONESHOT) cl'"
        by (simp add: mask_ok_def assms(3,6) epoll_masks)
      ultimately show ?thesis
        using fd True assms(1) by (simp add: serving_def)
    next
      case False
      with e have e': "sv_epoll w fd' = Some (m, d)"
        by (auto simp: mod_epoll_def split: if_splits)
      show ?thesis
      proof (cases d)
        case (EpFd r)
        then show ?thesis
          using epoll_okD [OF b(4) e'] by auto
      next
        case (EpPtr a)
        then obtain cla where cla: "h_cells (hp_clients w) a = Some cla" "cl_fd cla = fd'"
            "if a \<in> dom (snd ({c}, D(c \<mapsto> 0))) then m = 0 else mask_ok m cla"
          using epoll_okD [OF b(4) e'] by auto
        then have "a \<noteq> c"
          using False e' assms(2) fd by auto
        with cla EpPtr show ?thesis
          by auto
      qed
    qed
  qed
  ultimately show ?thesis
    using grows_db(1) [OF b(1) g] grows_tidy [OF b(2,1) g] by (simp add: busy_def)
qed

lemma set_handler_eq:
  "h_cells (hp_clients w) c = Some cl \<Longrightarrow>
    set_handler w (Some c) h = Inr (w\<lparr>hp_clients := h_upd (hp_clients w) c (Some (cl\<lparr>cl_ctx_handler := h\<rparr>))\<rparr>)"
  by (simp add: set_handler_def object_simps)

definition fresh_packet :: "u8 \<Rightarrow> server \<Rightarrow> ptr \<Rightarrow> bool" where
  "fresh_packet opcode w pkt \<longleftrightarrow> (pkt \<noteq> None \<longrightarrow>
      opcode \<in> {CONNECT, SUBSCRIBE, PUBLISH, SUBACK, PUBACK, PINGREQ} \<and>
      (\<forall>a cl. h_cells (hp_clients w) a = Some cl \<longrightarrow> \<not> owns cl (the pkt)))"

lemma unpack_one_yields:
  assumes "serving D c fd w" and "opcode \<in> {CONNECT, SUBSCRIBE, PUBLISH, SUBACK, PUBACK, PINGREQ}"
  shows "yields (\<lambda>(w', pkt). serving D c fd w' \<and> fresh_packet opcode w' pkt)
    (bindR u (\<lambda>(_, p, _). case p of None \<Rightarrow> Inl UninitRead | Some x \<Rightarrow> alloc_pkt w (K x)))"
proof (rule yields_step, clarify)
  fix p
  show "yields (\<lambda>(w', pkt). serving D c fd w' \<and> fresh_packet opcode w' pkt)
      (case p of None \<Rightarrow> Inl UninitRead | Some x \<Rightarrow> alloc_pkt w (K x))"
  proof (cases p)
    case (Some x)
    show ?thesis
      unfolding Some option.case
      by (rule yields_mono [OF alloc_pkt_yields [OF serving_busy [OF assms(1)]]])
        (use assms in \<open>auto simp: fresh_packet_def intro: serving_keep\<close>)
  qed simp
qed

lemma unpack_yields:
  assumes "serving D c fd w"
  shows "yields (\<lambda>(w', pkt). serving D c fd w' \<and> fresh_packet opcode w' pkt) (unpack_packet w opcode b)"
  unfolding unpack_packet_def
  by (intro yields_if unpack_one_yields [OF assms] yields_Inr) (auto simp: fresh_packet_def assms)

lemma serving_done:
  assumes "serving D c fd w" and "h_cells (hp_clients w) c = Some cl" and "phase_ok cl"
  shows "busy ({}, D) w"
proof -
  have b: "db_inv w" "tidy w" "clients_ok ({c}, D(c \<mapsto> 0)) w" "epoll_ok ({c}, D(c \<mapsto> 0)) w"
    using assms(1) by (auto simp: serving_def busy_def)
  have "phase_ok cla" if "h_cells (hp_clients w) a = Some cla" "a \<notin> fst ({} :: nat set, D)" for a cla
    using that b(3) assms(2,3) by (cases "a = c") (auto simp: clients_ok_def)
  then have "clients_ok ({}, D) w"
    using b(3) unfolding clients_ok_def by blast
  moreover have "epoll_ok ({}, D) w"
  proof (rule epoll_okI)
    show "waiting_ok ({}, D) w"
      by (rule waiting_leave [OF epoll_ok_waiting [OF b(4)]]) (use assms(1) in \<open>auto simp: serving_def\<close>)
  next
    fix fd' m d assume "sv_epoll w fd' = Some (m, d)"
    then have "case d of EpFd r \<Rightarrow> r = uint (sv_config_run w)
      | EpPtr a \<Rightarrow> (\<exists>cl. h_cells (hp_clients w) a = Some cl \<and> cl_fd cl = fd' \<and> (if a \<in> dom (snd ({c}, D(c \<mapsto> 0))) then m = 0 else mask_ok m cl))"
      by (rule epoll_okD [OF b(4)])
    then show "case d of EpFd r \<Rightarrow> r = uint (sv_config_run w)
      | EpPtr a \<Rightarrow> (\<exists>cl. h_cells (hp_clients w) a = Some cl \<and> cl_fd cl = fd' \<and> (if a \<in> dom (snd ({} :: nat set, D)) then m = 0 else mask_ok m cl))"
      by (cases d) (auto simp: mask_ok_def split: if_splits)
  qed
  ultimately show ?thesis
    using b by (simp add: busy_def)
qed

text \<open>From the unpacked packet to the end of \<open>request_handler\<close>.\<close>

lemma run_request_yields:
  assumes "serving D c fd w" and "fresh_packet opcode w (Some p)"
  shows "yields (\<lambda>(w', _). busy ({}, D) w') (
    bindR (update_client_last_action w (Some c)) (\<lambda>w.
    bindR (load_client w (Some c)) (\<lambda>cl.
    bindR (store_client w (Some c) (cl\<lparr>cl_ptr := Some p\<rparr>)) (\<lambda>w.
    bindR (run_commands commands_hashmap opcode (Some c) (w, -1, False)) (\<lambda>(w, fr, executed).
    bindR (set_handler w (Some c) ReplyHandler) (\<lambda>w.
    Inr (set_epoll w (mod_epoll (sv_epoll w) fd EPOLLOUT (Some c)), 0)))))))"
proof (rule yields_bindR [OF update_yields [OF serving_busy [OF assms(1)]]], rule yields_bindR [OF load_client_yields],
    rule yields_bindR [where P = "\<lambda>w'. serving D c fd w' \<and> (\<exists>cl. h_cells (hp_clients w') c = Some cl \<and> cl_ptr cl = Some p) \<and>
      (\<forall>a cla. h_cells (hp_clients w') a = Some cla \<longrightarrow> \<not> owns cla p)"], goal_cases)
  case (1 w1 cl)
  then have w1: "serving D c fd w1" and cl: "h_cells (hp_clients w1) c = Some cl"
    using serving_touched [OF assms(1)] by auto
  have "\<not> owns cla p" if cla: "h_cells (hp_clients w1) a = Some cla" for a cla
  proof -
    obtain cla' n where "h_cells (hp_clients w) a = Some cla'" "cla = cla'\<lparr>cl_last_action_time := n\<rparr>"
      using 1(1) cla by (blast elim: touched_client_back)
    then show ?thesis
      using assms(2) by (auto simp: fresh_packet_def owns_def)
  qed
  moreover have "owns (cl\<lparr>cl_ptr := q\<rparr>) p \<longleftrightarrow> owns cl p" for q
    by (simp add: owns_def)
  moreover have "cl_fd cl = fd"
    using w1 cl by (auto simp: serving_def)
  ultimately show ?case
    using yieldsD [OF serving_store [OF w1 cl, of "cl\<lparr>cl_ptr := Some p\<rparr>"]] cl
    by (auto simp: yields_def store_client_Some)
next
  case (2 w1 cl0 w2)
  then obtain cl where w2: "serving D c fd w2" "h_cells (hp_clients w2) c = Some cl" "cl_ptr cl = Some p"
      "\<And>a cla. h_cells (hp_clients w2) a = Some cla \<Longrightarrow> \<not> owns cla p"
    by blast
  have op: "opcode \<in> {CONNECT, SUBSCRIBE, PUBLISH, SUBACK, PUBACK, PINGREQ}"
    using assms(2) by (simp add: fresh_packet_def)
  have run: "yields (\<lambda>(w', _, _). serving D c fd w') (run_commands commands_hashmap opcode (Some c) (w2, -1, False))"
    by (rule run_commands_yields [OF w2(1-3) _ op]) (rule w2(4))
  show ?case
  proof (rule yields_bindR [OF run], clarify, goal_cases)
    case (1 w3 fr ex)
    then obtain cl where cl: "h_cells (hp_clients w3) c = Some cl"
      by (rule serving_client)
    have "cl\<lparr>cl_ctx_handler := ReplyHandler\<rparr> = cl\<lparr>cl_ctx_handler := ReplyHandler, cl_reply := cl_reply cl\<rparr>"
      by simp
    then show ?case
      unfolding set_handler_eq [OF cl] using finish [OF 1 cl, of _ "cl_reply cl" ReplyHandler EPOLLOUT]
      by (auto intro!: yields_Inr)
  qed
qed

lemma unpack_packet_None:
  assumes "pkt = None" and "unpack_packet w opcode b = Inr (w', pkt)"
  shows "w' = w"
  using assms by (auto simp: unpack_packet_def alloc_pkt_def res_simps split: if_splits option.splits)

lemma request_yields:
  assumes "serving D c fd w" and "h_cells (hp_clients w) c = Some cl" and "cl_reply cl = None" and "cl_ctx_handler cl \<noteq> ReplyHandler"
  shows "yields (\<lambda>(w', _). busy ({}, D) w') (request_handler fuel w c)"
proof -
  have fd: "cl_fd cl = fd"
    using assms(1,2) by (auto simp: serving_def)
  have rx: "serving D c fd (set_rx w fd es)" "h_cells (hp_clients (set_rx w fd es)) c = Some cl" for es
    using busy_set_rx [OF serving_busy [OF assms(1)]] assms(1,2) by (auto simp: serving_def)
  show ?thesis
    unfolding request_handler_def load_client_Some [OF assms(2)] bindR.simps Let_def fd
  proof (rule yields_step, rule yields_step, clarify, goal_cases)
    case (1 rbuf es rbuf' res)
    show ?case
    proof (cases res)
      case None
      have "cl\<lparr>cl_ctx_handler := RequestHandler\<rparr> = cl\<lparr>cl_ctx_handler := RequestHandler, cl_reply := None\<rparr>"
        using assms(3) by simp
      then show ?thesis
        unfolding None option.case set_handler_eq [OF rx(2)] bindR.simps
        using finish [OF rx, of _ None RequestHandler EPOLLIN] by (auto intro!: yields_Inr)
    next
      case (Some bo)
      then obtain b opcode where bo: "res = Some (b, opcode)"
        by (cases bo) auto
      show ?thesis
        unfolding bo option.case prod.case
      proof (rule yields_step, clarify, rule yields_step, goal_cases)
        case (1 w1 pkt)
        have w1: "serving D c fd w1" "fresh_packet opcode w1 pkt"
          using yieldsD [OF unpack_yields [OF rx(1)] 1(1)] by auto
        show ?case
        proof (cases pkt)
          case None
          then have "w1 = set_rx w fd es"
            using 1(1) by (rule unpack_packet_None)
          then show ?thesis
            using None serving_done [OF w1(1)] assms by (auto simp: phase_ok_def intro: yields_Inr)
        next
          case (Some p)
          then have "opcode \<noteq> PUBREC"
            using w1(2) by (auto simp: fresh_packet_def opcode_defs)
          with run_request_yields [OF w1(1), of opcode p] w1(2) Some show ?thesis
            by simp
        qed
      qed
    qed
  qed
qed

text \<open>The branches of \<open>reply_handler\<close> change nothing of the client but its time of last action.\<close>

definition replying :: "(nat \<rightharpoonup> u32) \<Rightarrow> nat \<Rightarrow> server \<Rightarrow> server \<Rightarrow> bool" where
  "replying D c w w' \<longleftrightarrow> busy ({c}, D(c \<mapsto> 0)) w' \<and> touched w w'"

lemma replying_send: "replying D c w w' \<Longrightarrow> yields (\<lambda>(w', _, _). replying D c w w') (send_fd w' fd buf len)"
  unfolding replying_def using touched_trans by (fastforce intro: yields_mono [OF send_fd_yields])

lemma replying_update: "replying D c w w' \<Longrightarrow> yields (replying D c w) (update_client_last_action w' p)"
  unfolding replying_def using touched_trans by (fastforce intro: yields_mono [OF update_yields])

lemma send_payload_yields:
  assumes "replying D c w w'"
  shows "yields (\<lambda>(w', _). replying D c w w') (send_payload w' reply)"
  unfolding send_payload_def
  by (auto split: reply_body.split option.split intro!: yields_bindR [OF replying_send [OF assms]] yields_Inr)

lemma reply_retained_yields:
  assumes "replying D c w w'"
  shows "yields (\<lambda>(w', _). replying D c w w') (reply_retained w' p reply m)"
proof -
  have *: "yields (\<lambda>(w', _). replying D c w w')
      (bindR (send_fd w1 fd buf len) (\<lambda>(w, _, rc). bindR (update_client_last_action w p) (\<lambda>w.
       bindR (buffer_destroy x) (\<lambda>_. Inr (w, f rc)))))" if "replying D c w w1" for w1 fd buf len x and f :: "int \<Rightarrow> int"
    by (rule yields_bindR [OF replying_send [OF that]], clarify, rule yields_bindR [OF replying_update], assumption)
      (auto intro!: yields_step intro: yields_Inr)
  show ?thesis
    unfolding reply_retained_def
    by (rule yields_bindR [OF send_payload_yields [OF assms]], clarify, rule yields_step, rule yields_step,
      rule yields_step, rule yields_step, rule yields_step, rule yields_step, rule *)
qed

lemma reply_publish_yields:
  assumes "replying D c w w'"
  shows "yields (\<lambda>(w', _). replying D c w w') (reply_publish w' p reply)"
proof -
  have b: "busy ({c}, D(c \<mapsto> 0)) w'"
    using assms by (simp add: replying_def)
  have topic: "yields (\<lambda>(w', _). replying D c w w') (topic_for w' name)" for name
    by (rule yields_mono [OF topic_for_yields [OF b]])
      (use assms in \<open>auto simp: replying_def intro: touched_trans touched_eq\<close>)
  have pub: "yields (\<lambda>(w', _). replying D c w w') (publish_message w1 t msg sender)" if "replying D c w w1" for w1 t msg sender
    using that unfolding replying_def
    by (intro yields_mono [OF publish_message_yields]) (auto intro: touched_trans)
  have ack: "yields (\<lambda>(w', _). replying D c w w')
      (bindR (ack_pkt True PUBACK 0 0) (\<lambda>ack.
       bindR (buffer_init True True (sv_junk w1) (ucast (hd_size (ak_header ack)))) (\<lambda>res.
       bindR (pack_ack res ack) (\<lambda>res.
       bindR (send_fd w1 fd (b_data res) (unat (b_size res))) (\<lambda>(w, _, rc).
       bindR (buffer_destroy (Some res)) (\<lambda>_. Inr (w, f rc)))))))" if "replying D c w w1" for w1 fd and f :: "int \<Rightarrow> int"
    by (rule yields_step, rule yields_step, rule yields_step, rule yields_bindR [OF replying_send [OF that]]) (auto intro!: yields_step intro: yields_Inr)
  show ?thesis
    unfolding reply_publish_def
  proof (rule yields_step, rule yields_bindR [OF topic], clarify, rule yields_step, rule yields_step,
      rule yields_bindR [OF pub], assumption, clarify, rule yields_bindR [OF replying_update], assumption, goal_cases)
    case (1 pb w1 t cl sender w2 sent w3)
    then show ?case
      using ack [OF 1(6)] by (auto intro: yields_Inr)
  qed
qed

lemma free_reply_ok:
  assumes "clients_ok X w" and "h_cells (hp_clients w) c = Some cl" and "cl_reply cl = Some r"
  obtains h where "free_reply w (Some r) = Inr (w\<lparr>hp_pkts := h\<rparr>, None)" "heap_ok h"
    "\<forall>q. \<not> owns cl q \<longrightarrow> h_cells h q = h_cells (hp_pkts w) q"
proof -
  have ok: "reply_ok (hp_pkts w) cl" "heap_ok (hp_pkts w)"
    using assms(1,2) by (simp_all add: clients_ok_def)
  show thesis
  proof (cases "rp_opcode r = PUBLISH")
    case True
    then obtain p x where p: "rp_body r = Published (Some p)" "h_cells (hp_pkts w) p = Some (PPublish x)"
      using ok(1) assms(3) by (auto simp: reply_ok_def)
    have "free_reply w (Some r) = Inr (w\<lparr>hp_pkts := h_upd (hp_pkts w) p None\<rparr>, None)"
      using p True by (simp add: free_reply_def free_publish_def free_packet_def heap_simps)
    then show thesis
      by (rule that) (use ok(2) p(1) assms(3) in \<open>auto simp: owns_def\<close>)
  next
    case False
    then obtain b where "rp_body r = Payload (Some b)"
      using ok(1) assms(3) by (auto simp: reply_ok_def)
    then have "free_reply w (Some r) = Inr (w\<lparr>hp_pkts := hp_pkts w\<rparr>, None)"
      using False by (simp add: free_reply_def buffer_destroy_def)
    then show thesis
      by (rule that) (use ok(2) in auto)
  qed
qed

lemma finish_reply:
  assumes "replying D c w w'" and "serving D c fd w" and "h_cells (hp_clients w) c = Some cl" and "cl_reply cl = Some r"
  shows "yields (\<lambda>(w', _). busy ({}, D) w')
    (bindR (free_reply w' (Some r)) (\<lambda>(w, r).
     bindR (load_client w (Some c)) (\<lambda>cl.
     bindR (store_client w (Some c) (cl\<lparr>cl_reply := r, cl_ctx_handler := RequestHandler\<rparr>)) (\<lambda>w.
     Inr (set_epoll w (mod_epoll (sv_epoll w) (cl_fd cl) EPOLLIN (Some c)), ret)))))"
proof -
  have b: "busy ({c}, D(c \<mapsto> 0)) w'" and touched: "touched w w'"
    using assms(1) by (auto simp: replying_def)
  have c: "clients_ok ({c}, D(c \<mapsto> 0)) w'"
    using b by (simp add: busy_def)
  have srv: "serving D c fd w'"
    by (rule serving_touched [OF assms(2) b touched])
  obtain n where n: "h_cells (hp_clients w') c = Some (cl\<lparr>cl_last_action_time := n\<rparr>)"
    using touched_client [OF touched assms(3)] by blast
  let ?cl = "cl\<lparr>cl_last_action_time := n\<rparr>"
  let ?cl' = "?cl\<lparr>cl_reply := None, cl_ctx_handler := RequestHandler\<rparr>"
  have fd: "cl_fd cl = fd"
    using assms(2,3) by (auto simp: serving_def)
  have r: "cl_reply ?cl = Some r"
    using assms(4) by simp
  obtain h where h: "free_reply w' (Some r) = Inr (w'\<lparr>hp_pkts := h\<rparr>, None)" "heap_ok h"
      "\<forall>q. \<not> owns ?cl q \<longrightarrow> h_cells h q = h_cells (hp_pkts w') q"
    by (rule free_reply_ok [OF c n r])
  define w2 where "w2 = set_epoll (w'\<lparr>hp_clients := h_upd (hp_clients w') c (Some ?cl')\<rparr>)
    (mod_epoll (sv_epoll w') fd EPOLLIN (Some c))"
  have "busy ({}, D) w2"
    unfolding w2_def by (rule finish [OF srv n, of _ None RequestHandler]) simp_all
  moreover have "h_cells h q = h_cells (hp_pkts w2) q"
    if "h_cells (hp_clients w2) a = Some cla" "owns cla q" for a cla q
  proof -
    have a: "a \<noteq> c" "h_cells (hp_clients w') a = Some cla"
      using that by (auto simp: w2_def owns_def split: if_splits)
    then have "\<not> owns ?cl q"
      using c n that(2) unfolding clients_ok_def by blast
    then show ?thesis
      using h(3) by (simp add: w2_def)
  qed
  ultimately have "busy ({}, D) (w2\<lparr>hp_pkts := h\<rparr>)"
    using h(2) by (intro busy_pkts) auto
  moreover have "w2\<lparr>hp_pkts := h\<rparr> = set_epoll (w'\<lparr>hp_pkts := h, hp_clients := h_upd (hp_clients w') c (Some ?cl')\<rparr>)
    (mod_epoll (sv_epoll w') fd EPOLLIN (Some c))"
    by (simp add: w2_def set_epoll_def)
  ultimately show ?thesis
    using n fd by (auto simp: h(1) object_simps intro!: yields_Inr)
qed

lemma reply_yields:
  assumes "serving D c fd w" and "h_cells (hp_clients w) c = Some cl" and "cl_ctx_handler cl = ReplyHandler"
  shows "yields (\<lambda>(w', _). busy ({}, D) w') (reply_handler w c)"
proof (cases "cl_reply cl")
  case None
  then show ?thesis
    using serving_done [OF assms(1,2)] assms(3)
    by (auto simp: reply_handler_def load_client_Some [OF assms(2)] phase_ok_def intro: yields_Inr)
next
  case (Some r)
  have start: "replying D c w w"
    using assms(1) by (simp add: replying_def serving_def)
  have "yields (\<lambda>(w', _). replying D c w w')
      (if rp_opcode r = PUBLISH then reply_publish w (Some c) r
       else if rp_opcode r = SUBACK
       then (case rp_retained r of None \<Rightarrow> Inl UninitRead
           | Some None \<Rightarrow> send_payload w r
           | Some (Some m) \<Rightarrow> reply_retained w (Some c) r (Some m))
       else send_payload w r)"
    by (intro yields_if reply_publish_yields [OF start] send_payload_yields [OF start])
      (simp add: send_payload_yields [OF start] reply_retained_yields [OF start] split: option.split)
  then show ?thesis
    unfolding reply_handler_def load_client_Some [OF assms(2)] bindR.simps Some option.case
    by (rule yields_bindR) (clarify, rule finish_reply [OF _ assms(1,2) Some])
qed

end
