(* ===== verification/Sz_Delivery.thy ===== *)
theory Sz_Delivery
  imports Sz_Handlers Sz_Invariant
begin

text \<open>
  Delivery of published messages: what \<open>publish_message\<close> puts on the sockets of the subscribers,
  retained messages, and the path of a message from a publisher's packet to a subscriber's
  socket.
\<close>

section \<open>Sending to all subscribers\<close>

text \<open>A willing socket stays willing for what is left to send.\<close>

lemma sendall_loop_rest:
  assumes "len \<le> length buf" and "len \<le> INT_MAX" and "tot \<le> len" and "n \<noteq> -1"
    and "accepts evs (len - tot + m)"
  shows "\<exists>evs' n'. sendall_loop evs buf len tot n = Inr (evs', len, n') \<and> n' \<noteq> -1 \<and> accepts evs' m"
  using assms
proof (induction evs arbitrary: tot n)
  case Nil
  then show ?case
    by (simp add: accepts_def)
next
  case (Cons ev evs)
  then obtain k where k: "ev = Accept (Suc k)"
    by (auto simp: accepts_def)
  show ?case
  proof (cases "tot < len")
    case True
    let ?n = "min (Suc k) (len - tot)"
    have "accepts evs (len - (tot + ?n) + m)" "tot + ?n \<le> len"
      using True Cons.prems(5) by (auto simp: accepts_def)
    with Cons.IH [of "tot + ?n" "int ?n"] Cons.prems
    have "\<exists>evs' n'. sendall_loop evs buf len (tot + ?n) (int ?n) = Inr (evs', len, n') \<and> n' \<noteq> -1 \<and> accepts evs' m"
      by auto
    with True k \<open>tot + ?n \<le> len\<close> Cons.prems(1,2) show ?thesis
      by (simp add: Let_def rd_block_def)
  next
    case False
    with Cons.prems show ?thesis
      by (auto simp: accepts_def)
  qed
qed

lemma send_fd_rest:
  assumes "n \<le> length buf" and "n \<le> INT_MAX"
  obtains evs t where "send_fd w fd buf n = Inr (put_sent w fd evs (take t buf), t, if t < n then -1 else 0)" "t \<le> n"
    "\<forall>m. accepts (sv_tx w fd) (n + m) \<longrightarrow> t = n \<and> accepts evs m"
proof -
  obtain evs t where s: "send_fd w fd buf n = Inr (put_sent w fd evs (take t buf), t, if t < n then -1 else 0)" "t \<le> n"
    by (rule send_fd_ok [OF assms])
  have "t = n \<and> accepts evs m" if acc: "accepts (sv_tx w fd) (n + m)" for m
  proof -
    obtain evs' n' where "sendall_loop (sv_tx w fd) buf n 0 0 = Inr (evs', n, n')" "n' \<noteq> -1" "accepts evs' m"
      using sendall_loop_rest [of n buf 0 0 "sv_tx w fd" m] assms acc by auto
    then have "send_fd w fd buf n = Inr (put_sent w fd evs' (take n buf), n, 0)"
      by (simp add: send_fd_def sendall_def)
    from sum.inject(2) [THEN iffD1, OF trans [OF sym [OF s(1)] this]]
    have "t = n" and eq: "put_sent w fd evs (take t buf) = put_sent w fd evs' (take n buf)"
      by blast+
    from eq have "sv_tx (put_sent w fd evs (take t buf)) fd = sv_tx (put_sent w fd evs' (take n buf)) fd"
      by (simp only:)
    with \<open>t = n\<close> \<open>accepts evs' m\<close> show ?thesis
      by simp
  qed
  with s show thesis
    by (intro that) auto
qed

lemma accepts_mono: "accepts evs n \<Longrightarrow> m \<le> n \<Longrightarrow> accepts evs m"
  by (simp add: accepts_def)

text \<open>The clients behind a chain of subscriptions.\<close>

abbreviation chain_clients :: "server \<Rightarrow> nat list \<Rightarrow> nat list" where
  "chain_clients w as \<equiv> map (\<lambda>d. the (sub_client w d)) (chain_data (h_cells (hp_nodes w)) as)"

text \<open>What reaches each descriptor when the clients \<open>cs\<close> are sent \<open>ts\<close> bytes of \<open>buf\<close> one after the other.\<close>

definition delivered :: "server \<Rightarrow> block \<Rightarrow> nat list \<Rightarrow> nat list \<Rightarrow> int \<Rightarrow> block" where
  "delivered w buf cs ts fd =
     concat (map (\<lambda>(c, t). take t buf) (filter (\<lambda>(c, t). client_fd w c = fd) (zip cs ts)))"

definition only_sent :: "server \<Rightarrow> server \<Rightarrow> bool" where
  "only_sent w w' \<longleftrightarrow> touched w w' \<and> heap_ok (hp_clients w') \<and>
     (\<exists>hc tx wr. w' = w\<lparr>hp_clients := hc, sv_tx := tx, sv_wire := wr\<rparr>)"

lemma only_sent_sel:
  assumes "only_sent w w'"
  shows "hp_nodes w' = hp_nodes w" "hp_subs w' = hp_subs w" "hp_topics w' = hp_topics w" "hp_msgs w' = hp_msgs w"
    "hp_pkts w' = hp_pkts w" "db_topics w' = db_topics w" "db_clients w' = db_clients w" "db_locked w' = db_locked w"
    "sv_epoll w' = sv_epoll w" "db_now w' = db_now w" "sv_junk w' = sv_junk w" "sv_rx w' = sv_rx w"
  using assms unfolding only_sent_def by auto

lemma only_sent_trans:
  assumes "only_sent w w'" and "only_sent w' w''"
  shows "only_sent w w''"
proof -
  obtain hc tx wr hc' tx' wr' where "w' = w\<lparr>hp_clients := hc, sv_tx := tx, sv_wire := wr\<rparr>"
      "w'' = w'\<lparr>hp_clients := hc', sv_tx := tx', sv_wire := wr'\<rparr>"
    using assms by (auto simp: only_sent_def)
  then have "w'' = w\<lparr>hp_clients := hc', sv_tx := tx', sv_wire := wr'\<rparr>"
    by simp
  then show ?thesis
    using assms touched_trans unfolding only_sent_def by blast
qed

lemma touched_client_fd: "touched w w' \<Longrightarrow> client_fd w' = client_fd w"
proof
  fix c assume t: "touched w w'"
  show "client_fd w' c = client_fd w c"
  proof (cases "h_cells (hp_clients w) c")
    case None
    then have "h_cells (hp_clients w') c = None"
      using t touched_client_back by (cases "h_cells (hp_clients w') c") fastforce+
    with None show ?thesis
      by (simp add: client_fd_def)
  next
    case (Some cl)
    then obtain n where "h_cells (hp_clients w') c = Some (cl\<lparr>cl_last_action_time := n\<rparr>)"
      by (rule touched_client [OF t])
    with Some show ?thesis
      by (simp add: client_fd_def)
  qed
qed

lemma only_sent_subs:
  assumes "only_sent w w'"
  shows "sub_client w' d = sub_client w d" and "sub_ok w d \<Longrightarrow> sub_ok w' d"
proof -
  show eq: "sub_client w' d = sub_client w d"
    by (rule sub_client_cong) (rule only_sent_sel [OF assms])
  have "touched w w'"
    using assms by (simp add: only_sent_def)
  then show "sub_ok w d \<Longrightarrow> sub_ok w' d"
    by (auto simp: sub_ok_def eq elim: touched_client)
qed

text \<open>One turn of the loop: the send and the time stamp.\<close>

lemma send_and_stamp:
  assumes "h_cells (hp_clients w) c = Some cl" and "heap_ok (hp_clients w)" and "n \<le> length buf" and "n \<le> INT_MAX"
  obtains w' evs t where
    "bindR (send_fd w (cl_fd cl) buf n) (\<lambda>(w, sent, _). bindR (update_client_last_action w (Some c)) (\<lambda>w. f w sent)) = f w' t"
    "only_sent w w'" "t \<le> n" "sv_wire w' = (sv_wire w)(cl_fd cl := sv_wire w (cl_fd cl) @ take t buf)"
    "sv_tx w' = (sv_tx w)(cl_fd cl := evs)" "\<forall>m. accepts (sv_tx w (cl_fd cl)) (n + m) \<longrightarrow> t = n \<and> accepts evs m"
proof -
  obtain evs t where s: "send_fd w (cl_fd cl) buf n = Inr (put_sent w (cl_fd cl) evs (take t buf), t, if t < n then -1 else 0)"
      "t \<le> n" "\<forall>m. accepts (sv_tx w (cl_fd cl)) (n + m) \<longrightarrow> t = n \<and> accepts evs m"
    by (rule send_fd_rest [OF assms(3,4)])
  let ?w1 = "put_sent w (cl_fd cl) evs (take t buf)"
  let ?w' = "?w1\<lparr>hp_clients := h_upd (hp_clients w) c (Some (cl\<lparr>cl_last_action_time := db_now w\<rparr>))\<rparr>"
  have "touched w ?w'"
    using touched_refl [of w] assms(1) unfolding touched_def by auto
  moreover have "heap_ok (hp_clients ?w')"
    using assms(1,2) by auto
  moreover have "\<exists>hc tx wr. ?w' = w\<lparr>hp_clients := hc, sv_tx := tx, sv_wire := wr\<rparr>"
    unfolding put_sent_def
    by (intro exI [of _ "h_upd (hp_clients w) c (Some (cl\<lparr>cl_last_action_time := db_now w\<rparr>))"]
        exI [of _ "(sv_tx w)(cl_fd cl := evs)"] exI [of _ "(sv_wire w)(cl_fd cl := sv_wire w (cl_fd cl) @ take t buf)"]) simp
  ultimately have "only_sent w ?w'"
    by (simp add: only_sent_def)
  moreover have "bindR (send_fd w (cl_fd cl) buf n) (\<lambda>(w, sent, _). bindR (update_client_last_action w (Some c)) (\<lambda>w. f w sent)) = f ?w' t"
    using assms(1) by (simp add: s(1) update_client_last_action_def object_simps)
  ultimately show thesis
    using s(2,3) by (intro that [of ?w' t evs]) simp_all
qed

lemma delivered_Cons:
  "delivered w buf (c # cs) (t # ts) fd = (if client_fd w c = fd then take t buf else []) @ delivered w buf cs ts fd"
  by (simp add: delivered_def)

lemma publish_loop_step:
  assumes "chain (h_cells (hp_nodes w)) p (a # as)" and "sub_ok w (cell_data (h_cells (hp_nodes w)) a)"
    and "heap_ok (hp_clients w)" and "unat (b_size b) \<le> length (b_data b)" and "tot + unat (b_size b) \<le> INT_MAX"
  obtains c p' w1 evs t where "sub_client w (cell_data (h_cells (hp_nodes w)) a) = Some c" "chain (h_cells (hp_nodes w)) p' as"
    "publish_loop (Suc f) w p b tot = publish_loop f w1 p' b (tot + t)" "only_sent w w1" "t \<le> unat (b_size b)"
    "sv_wire w1 = (sv_wire w)(client_fd w c := sv_wire w (client_fd w c) @ take t (b_data b))"
    "sv_tx w1 = (sv_tx w)(client_fd w c := evs)"
    "\<forall>m. accepts (sv_tx w (client_fd w c)) (unat (b_size b) + m) \<longrightarrow> t = unat (b_size b) \<and> accepts evs m"
proof -
  let ?n = "unat (b_size b)" and ?m = "h_cells (hp_nodes w)"
  obtain node where node: "p = Some a" "?m a = Some node" "chain ?m (c_next node) as"
    using assms(1) by auto
  have data: "cell_data ?m a = c_data node"
    using node(2) by (simp add: cell_data_def)
  then obtain c cl where c: "sub_client w (c_data node) = Some c" "h_cells (hp_clients w) c = Some cl"
    using assms(2) by (auto simp: sub_ok_def)
  then obtain s sub where sub: "c_data node = Some s" "h_cells (hp_subs w) s = Some sub" "sn_client sub = Some c"
    by (auto simp: sub_client_def split: option.splits)
  have n: "?n \<le> INT_MAX"
    using assms(5) by simp
  define cont where "cont w sent = bindR (guardR (tot + sent \<le> INT_MAX) SignedOverflow)
    (\<lambda>_. publish_loop f w (c_next node) b (tot + sent))" for w sent
  obtain w1 evs t where w1: "bindR (send_fd w (cl_fd cl) (b_data b) ?n) (\<lambda>(w, sent, _).
        bindR (update_client_last_action w (Some c)) (\<lambda>w. cont w sent)) = cont w1 t"
      "only_sent w w1" "t \<le> ?n" "sv_wire w1 = (sv_wire w)(cl_fd cl := sv_wire w (cl_fd cl) @ take t (b_data b))"
      "sv_tx w1 = (sv_tx w)(cl_fd cl := evs)" "\<forall>m. accepts (sv_tx w (cl_fd cl)) (?n + m) \<longrightarrow> t = ?n \<and> accepts evs m"
    by (rule send_and_stamp [OF c(2) assms(3,4) n, of cont])
  have "publish_loop (Suc f) w p b tot = publish_loop f w1 (c_next node) b (tot + t)"
    using w1(1,3) assms(5) sub c(2)
    by (simp add: publish_loop.simps [of "Suc f"] node(1) h_load_Some [OF node(2)] h_load_Some [OF sub(2)]
        load_client_Some cont_def)
  moreover have "client_fd w c = cl_fd cl"
    using c(2) by (simp add: client_fd_def)
  ultimately show thesis
    using that [of c "c_next node" w1 t evs] c(1) data node(3) w1(2-6) by simp
qed

lemma publish_loop_ok:
  assumes "chain (h_cells (hp_nodes w)) p as" and "\<forall>d\<in>set (chain_data (h_cells (hp_nodes w)) as). sub_ok w d"
    and "length as \<le> fuel" and "heap_ok (hp_clients w)" and "unat (b_size b) \<le> length (b_data b)"
    and "tot + length as * unat (b_size b) \<le> INT_MAX"
  shows "\<exists>w' ts. publish_loop fuel w p b tot = Inr (w', tot + sum_list ts) \<and> only_sent w w' \<and> length ts = length as \<and>
    (\<forall>t\<in>set ts. t \<le> unat (b_size b)) \<and>
    (\<forall>fd. sv_wire w' fd = sv_wire w fd @ delivered w (b_data b) (chain_clients w as) ts fd) \<and>
    (\<forall>i<length as. accepts (sv_tx w (client_fd w (chain_clients w as ! i))) (length as * unat (b_size b)) \<longrightarrow>
      ts ! i = unat (b_size b))"
  using assms
proof (induction as arbitrary: w p fuel tot)
  case Nil
  have "only_sent w w"
    using Nil.prems(4) by (auto simp: only_sent_def intro!: exI [of _ "hp_clients w"] exI [of _ "sv_tx w"] exI [of _ "sv_wire w"])
  with Nil show ?case
    by (intro exI [of _ w] exI [of _ "[]"]) (simp add: publish_loop.simps delivered_def)
next
  case (Cons a as)
  let ?n = "unat (b_size b)" and ?m = "h_cells (hp_nodes w)"
  have subs: "sub_ok w (cell_data ?m a)"
    using Cons.prems(2) by simp
  obtain f where f: "fuel = Suc f" "length as \<le> f"
    using Cons.prems(3) by (cases fuel) auto
  have n: "tot + ?n \<le> INT_MAX" "tot + ?n + length as * ?n \<le> INT_MAX"
    using Cons.prems(6) by auto
  obtain c p' w1 evs t where c: "sub_client w (cell_data ?m a) = Some c" and p': "chain ?m p' as"
      and loop: "publish_loop (Suc f) w p b tot = publish_loop f w1 p' b (tot + t)"
      and w1: "only_sent w w1" "t \<le> ?n" "sv_wire w1 = (sv_wire w)(client_fd w c := sv_wire w (client_fd w c) @ take t (b_data b))"
        "sv_tx w1 = (sv_tx w)(client_fd w c := evs)"
        "\<forall>m. accepts (sv_tx w (client_fd w c)) (?n + m) \<longrightarrow> t = ?n \<and> accepts evs m"
    by (rule publish_loop_step [OF Cons.prems(1) subs Cons.prems(4,5) n(1)])
  have nodes: "hp_nodes w1 = hp_nodes w"
    by (rule only_sent_sel [OF w1(1)])
  have touched: "touched w w1" and heap: "heap_ok (hp_clients w1)"
    using w1(1) by (auto simp: only_sent_def)
  have clients: "chain_clients w1 as = chain_clients w as"
    by (simp add: nodes only_sent_subs(1) [OF w1(1)])
  have fds: "client_fd w1 = client_fd w"
    by (rule touched_client_fd [OF touched])
  have prem1: "chain (h_cells (hp_nodes w1)) p' as"
    using p' by (simp add: nodes)
  have prem2: "\<forall>d\<in>set (chain_data (h_cells (hp_nodes w1)) as). sub_ok w1 d"
    using Cons.prems(2) only_sent_subs(2) [OF w1(1)] by (simp add: nodes)
  have prem6: "tot + t + length as * ?n \<le> INT_MAX"
    using n(2) w1(2) by linarith
  obtain w' ts where w': "publish_loop f w1 p' b (tot + t) = Inr (w', tot + t + sum_list ts)" "only_sent w1 w'"
      "length ts = length as" "\<forall>t\<in>set ts. t \<le> ?n"
      "\<forall>fd. sv_wire w' fd = sv_wire w1 fd @ delivered w1 (b_data b) (chain_clients w1 as) ts fd"
      "\<forall>i<length as. accepts (sv_tx w1 (client_fd w1 (chain_clients w1 as ! i))) (length as * ?n) \<longrightarrow> ts ! i = ?n"
    using Cons.IH [OF prem1 prem2 f(2) heap Cons.prems(5) prem6] by blast
  have "sv_wire w' fd' = sv_wire w fd' @ delivered w (b_data b) (chain_clients w (a # as)) (t # ts) fd'" for fd'
  proof -
    have "sv_wire w' fd' = sv_wire w1 fd' @ delivered w1 (b_data b) (chain_clients w as) ts fd'"
      using w'(5) unfolding clients by blast
    moreover have "delivered w1 (b_data b) cs ts fd' = delivered w (b_data b) cs ts fd'" for cs
      by (simp add: delivered_def fds)
    moreover have "chain_clients w (a # as) = c # chain_clients w as"
      by (simp add: c)
    ultimately show ?thesis
      using w1(3) by (simp only: delivered_Cons fun_upd_apply) simp
  qed
  moreover have "(t # ts) ! i = ?n"
    if i: "i < length (a # as)" and acc: "accepts (sv_tx w (client_fd w (chain_clients w (a # as) ! i))) (length (a # as) * ?n)" for i
  proof (cases i)
    case 0
    then have "accepts (sv_tx w (client_fd w c)) (?n + length as * ?n)"
      using acc by (simp add: c)
    then show ?thesis
      using w1(5) 0 by auto
  next
    case (Suc j)
    let ?c = "chain_clients w as ! j"
    have "accepts (sv_tx w (client_fd w ?c)) (?n + length as * ?n)"
      using acc Suc by simp
    then have "accepts (sv_tx w1 (client_fd w1 (chain_clients w1 as ! j))) (length as * ?n)"
      unfolding clients using w1(5) by (auto simp: w1(4) fds intro: accepts_mono)
    then show ?thesis
      using w'(6) i Suc by simp
  qed
  ultimately show ?case
    using loop f(1) w'(1,3,4) w1(2) only_sent_trans [OF w1(1) w'(2)]
    by (intro exI [of _ w'] exI [of _ "t # ts"]) auto
qed

section \<open>Retaining\<close>

definition retained_of :: "publish \<Rightarrow> block option \<Rightarrow> u64 \<Rightarrow> message" where
  "retained_of msg sender now =
     \<lparr>mg_qos = pb_qos msg, mg_dup = pb_dup msg, mg_retained = 1, mg_creation_time = now, mg_sender = sender,
       mg_topic = c_str (pb_topic msg) @ [0], mg_payload = c_str (pb_message msg) @ [0]\<rparr>"

text \<open>The retained message of a topic, where it has one, is allocated.\<close>

definition retained_live :: "server \<Rightarrow> topic \<Rightarrow> bool" where
  "retained_live w tp \<longleftrightarrow> heap_ok (hp_msgs w) \<and> (\<forall>m. tp_retained tp = Some m \<longrightarrow> h_cells (hp_msgs w) m \<noteq> None)"

lemma retain_message_ok:
  assumes "h_cells (hp_topics w) t = Some tp" and "retained_live w tp" and "h_avail (hp_msgs w) > 0"
    and "0 \<in> set (pb_topic msg)" and "0 \<in> set (pb_message msg)"
  obtains h m where "retain_message w (Some t) msg sender =
      Inr (w\<lparr>hp_msgs := h, hp_topics := h_upd (hp_topics w) t (Some (tp\<lparr>tp_retained := Some m\<rparr>))\<rparr>)"
    "h_cells h m = Some (retained_of msg sender (db_now w))" "\<forall>old. tp_retained tp = Some old \<longrightarrow> h_cells h old = None"
    "heap_ok h" "tp_retained tp \<noteq> Some m"
proof -
  let ?m = "h_brk (hp_msgs w)" and ?msg = "retained_of msg sender (db_now w)"
  let ?h = "(h_upd (hp_msgs w) ?m (Some ?msg))\<lparr>h_brk := Suc ?m, h_avail := h_avail (hp_msgs w) - 1\<rparr>"
  have ok: "heap_ok (hp_msgs w)"
    using assms(2) by (simp add: retained_live_def)
  then have free: "h_cells (hp_msgs w) ?m = None"
    by (auto simp: heap_ok_def)
  have okh: "heap_ok ?h"
    using ok by (auto simp: heap_ok_def less_Suc_eq)
  show thesis
  proof (cases "tp_retained tp")
    case None
    have "retain_message w (Some t) msg sender =
        Inr (w\<lparr>hp_msgs := ?h, hp_topics := h_upd (hp_topics w) t (Some (tp\<lparr>tp_retained := Some ?m\<rparr>))\<rparr>)"
      using assms None
      by (simp add: retain_message_def create_message_def c_strdup_def h_alloc_def h_load_def h_store_def Let_def
          object_simps retained_of_def h_upd_def)
    then show thesis
      by (rule that) (use None okh in auto)
  next
    case (Some old)
    then obtain x where old: "h_cells (hp_msgs w) old = Some x"
      using assms(2) by (auto simp: retained_live_def)
    with free have "old \<noteq> ?m"
      by auto
    note x = old this
    have "retain_message w (Some t) msg sender =
        Inr (w\<lparr>hp_msgs := h_upd ?h old None, hp_topics := h_upd (hp_topics w) t (Some (tp\<lparr>tp_retained := Some ?m\<rparr>))\<rparr>)"
      using assms Some x
      by (simp add: retain_message_def create_message_def c_strdup_def h_alloc_def h_load_def h_store_def Let_def
          object_simps retained_of_def destroy_message_def h_free_def h_upd_def)
    then show thesis
      by (rule that) (use x okh Some in auto)
  qed
qed

section \<open>Publishing\<close>

lemma topic_chain:
  assumes "db_inv w" and "h_cells (hp_topics w) t = Some tp"
  obtains as where "chain (h_cells (hp_nodes w)) (l_head (tp_subscribers tp)) as"
    "\<forall>d\<in>set (chain_data (h_cells (hp_nodes w)) as). sub_ok w d" "length as \<le> unat (l_len (tp_subscribers tp))"
    "subscribers w t = chain_clients w as"
proof -
  obtain N where N: "topics_ok w N"
    using assms(1) by (auto simp: db_inv_def)
  have ok: "topic_ok w tp (N t)"
    by (rule topics_ok_topic [OF N assms(2)])
  then show thesis
    using topic_subscribers [OF ok assms(2)] by (intro that [of "N t"]) (auto simp: topic_ok_def list_weak_def)
qed

text \<open>Sending a packed buffer to the subscribers of a topic.\<close>

lemma publish_subscribers:
  assumes "db_inv w" and "h_cells (hp_topics w) t = Some tp" and "unat (b_size b) \<le> length (b_data b)"
    and "length (subscribers w t) * unat (b_size b) \<le> INT_MAX"
  shows "\<exists>w' ts. publish_loop (unat (l_len (tp_subscribers tp))) w (l_head (tp_subscribers tp)) b 0 = Inr (w', sum_list ts) \<and>
    only_sent w w' \<and> length ts = length (subscribers w t) \<and> (\<forall>t\<in>set ts. t \<le> unat (b_size b)) \<and>
    (\<forall>fd. sv_wire w' fd = sv_wire w fd @ delivered w (b_data b) (subscribers w t) ts fd) \<and>
    (\<forall>i<length (subscribers w t). accepts (sv_tx w (client_fd w (subscribers w t ! i))) (length (subscribers w t) * unat (b_size b)) \<longrightarrow>
      ts ! i = unat (b_size b))"
proof -
  obtain as where as: "chain (h_cells (hp_nodes w)) (l_head (tp_subscribers tp)) as"
      "\<forall>d\<in>set (chain_data (h_cells (hp_nodes w)) as). sub_ok w d" "length as \<le> unat (l_len (tp_subscribers tp))"
      "subscribers w t = chain_clients w as"
    by (rule topic_chain [OF assms(1,2)])
  have "heap_ok (hp_clients w)"
    using assms(1) by (simp add: db_inv_def)
  moreover have "length (subscribers w t) = length as"
    using as(4) by simp
  ultimately show ?thesis
    using publish_loop_ok [OF as(1-3) _ assms(3), of 0] assms(4) unfolding as(4) by simp
qed

lemma only_sent_db:
  assumes "only_sent w w'" and "db_inv w"
  shows "db_inv w'" and "subscribers w' = subscribers w"
proof -
  note sel = only_sent_sel [OF assms(1)]
  have "touched w w'" "heap_ok (hp_clients w')"
    using assms(1) by (auto simp: only_sent_def)
  then have "dom (h_cells (hp_clients w)) \<subseteq> dom (h_cells (hp_clients w'))"
    by (auto elim: touched_client)
  then have "grows w w'"
    using assms(2) \<open>heap_ok (hp_clients w')\<close> by (intro grows_frame) (auto simp: sel db_inv_def)
  from grows_db [OF assms(2) this] show "db_inv w'" and "subscribers w' = subscribers w" .
qed

text \<open>The buffer \<open>publish_message\<close> packs.\<close>

definition publish_bytes :: "server \<Rightarrow> publish \<Rightarrow> block" where
  "publish_bytes w msg = (let sz = ucast (hd_size (pb_header msg)); l = length (wire_publish sz msg) in
     wire_publish sz msg @ map (sv_junk w) [l..<unat (hd_size (pb_header msg))])"

definition publishable :: "publish \<Rightarrow> bool" where
  "publishable msg \<longleftrightarrow> 0 \<in> set (pb_topic msg) \<and> 0 \<in> set (pb_message msg) \<and>
     length (wire_publish (ucast (hd_size (pb_header msg))) msg) \<le> unat (hd_size (pb_header msg))"

definition packed :: "server \<Rightarrow> publish \<Rightarrow> buffer" where
  "packed w msg = \<lparr>b_size = ucast (hd_size (pb_header msg)),
     b_pos = of_nat (length (wire_publish (ucast (hd_size (pb_header msg))) msg)), b_data = publish_bytes w msg\<rparr>"

lemma packed_sizes:
  assumes "publishable msg"
  shows "unat (b_size (packed w msg)) = unat (hd_size (pb_header msg))" and "b_data (packed w msg) = publish_bytes w msg"
    and "length (publish_bytes w msg) = unat (hd_size (pb_header msg))"
proof -
  have "unat (hd_size (pb_header msg)) < 2 ^ 64"
    using unat_bound [of "hd_size (pb_header msg)"] by simp
  then show "unat (b_size (packed w msg)) = unat (hd_size (pb_header msg))"
    by (simp add: packed_def unsigned_ucast_eq take_bit_nat_eq_self)
  show "b_data (packed w msg) = publish_bytes w msg"
    by (simp add: packed_def)
  show "length (publish_bytes w msg) = unat (hd_size (pb_header msg))"
    using assms by (simp add: publish_bytes_def Let_def publishable_def)
qed

lemma pack_publish_packed:
  assumes "publishable msg"
  shows "bindR (buffer_init True True (sv_junk w) (ucast (hd_size (pb_header msg)))) (\<lambda>b. bindR (pack_publish b msg) f) =
    f (packed w msg)"
proof -
  let ?sz = "ucast (hd_size (pb_header msg)) :: size_t" and ?n = "unat (hd_size (pb_header msg))"
  have u: "unat ?sz = ?n"
    using packed_sizes(1) [OF assms, of w] by (simp add: packed_def)
  have "?n < 2 ^ 64"
    using unat_bound [of ?sz] u by simp
  then have "pack_publish (buf_at ?sz [] (map (sv_junk w) [0..<?n])) msg =
      Inr (buf_at ?sz (wire_publish ?sz msg) (drop (length (wire_publish ?sz msg)) (map (sv_junk w) [0..<?n])))"
    using assms by (intro pack_publish_wire) (auto simp: publishable_def)
  also have "buf_at ?sz (wire_publish ?sz msg) (drop (length (wire_publish ?sz msg)) (map (sv_junk w) [0..<?n])) = packed w msg"
    by (simp add: packed_def buf_at_def publish_bytes_def Let_def drop_map)
  finally show ?thesis
    by (simp add: buffer_init_at u)
qed

lemma publish_message_sends:
  assumes "publishable msg" and "h_cells (hp_topics w) t = Some tp" and "db_inv w"
    and "length (subscribers w t) * unat (hd_size (pb_header msg)) \<le> INT_MAX"
    and "pb_retain msg \<noteq> 0 \<longrightarrow> retained_live w tp \<and> h_avail (hp_msgs w) > 0"
  obtains w1 w' ts where "publish_message w (Some t) msg sender = Inr (w', sum_list ts)"
    "pb_retain msg = 0 \<longrightarrow> w1 = w"
    "pb_retain msg \<noteq> 0 \<longrightarrow> (\<exists>h m. w1 = w\<lparr>hp_msgs := h, hp_topics := h_upd (hp_topics w) t (Some (tp\<lparr>tp_retained := Some m\<rparr>))\<rparr> \<and>
      h_cells h m = Some (retained_of msg sender (db_now w)) \<and> (\<forall>old. tp_retained tp = Some old \<longrightarrow> h_cells h old = None))"
    "only_sent w1 w'" "db_inv w1" "subscribers w1 = subscribers w" "length ts = length (subscribers w t)"
    "\<forall>n\<in>set ts. n \<le> unat (hd_size (pb_header msg))"
    "\<forall>fd. sv_wire w' fd = sv_wire w fd @ delivered w (publish_bytes w msg) (subscribers w t) ts fd"
    "\<forall>i<length (subscribers w t). accepts (sv_tx w (client_fd w (subscribers w t ! i)))
        (length (subscribers w t) * unat (hd_size (pb_header msg))) \<longrightarrow> ts ! i = unat (hd_size (pb_header msg))"
proof -
  note sizes = packed_sizes [OF assms(1), of w]
  obtain w1 tp1 where w1: "(if pb_retain msg \<noteq> 0 then retain_message w (Some t) msg sender else Inr w) = Inr w1"
      "pb_retain msg = 0 \<longrightarrow> w1 = w"
      "pb_retain msg \<noteq> 0 \<longrightarrow> (\<exists>h m. w1 = w\<lparr>hp_msgs := h, hp_topics := h_upd (hp_topics w) t (Some (tp\<lparr>tp_retained := Some m\<rparr>))\<rparr> \<and>
        h_cells h m = Some (retained_of msg sender (db_now w)) \<and> (\<forall>old. tp_retained tp = Some old \<longrightarrow> h_cells h old = None))"
      "grows w w1" "h_cells (hp_topics w1) t = Some tp1" "hp_clients w1 = hp_clients w" "sv_tx w1 = sv_tx w" "sv_wire w1 = sv_wire w"
  proof (cases "pb_retain msg = 0")
    case True
    have "grows w w"
      using assms(3) by (simp add: grows_def db_inv_def)
    with True assms(2) show thesis
      by (intro that [of w tp]) auto
  next
    case False
    have s: "0 \<in> set (pb_topic msg)" "0 \<in> set (pb_message msg)" "retained_live w tp" "h_avail (hp_msgs w) > 0"
      using assms(1,5) False by (auto simp: publishable_def)
    obtain h m where r: "retain_message w (Some t) msg sender =
        Inr (w\<lparr>hp_msgs := h, hp_topics := h_upd (hp_topics w) t (Some (tp\<lparr>tp_retained := Some m\<rparr>))\<rparr>)" (is "_ = Inr ?w1")
        "h_cells h m = Some (retained_of msg sender (db_now w))" "\<forall>old. tp_retained tp = Some old \<longrightarrow> h_cells h old = None"
      by (rule retain_message_ok [OF assms(2) s(3,4,1,2)])
    have "grows w ?w1"
      using assms(2,3) by (auto simp: grows_def db_inv_def topic_core_def)
    then show thesis
      using r False by (intro that [of ?w1 "tp\<lparr>tp_retained := Some m\<rparr>"]) auto
  qed
  note db = grows_db [OF assms(3) w1(4)]
  have fd: "client_fd w1 = client_fd w"
    by (simp add: fun_eq_iff client_fd_def w1(6))
  have "unat (b_size (packed w msg)) \<le> length (b_data (packed w msg))"
    "length (subscribers w1 t) * unat (b_size (packed w msg)) \<le> INT_MAX"
    using assms(4) by (simp_all add: sizes db(2))
  from publish_subscribers [OF db(1) w1(5) this] obtain w' ts where w':
    "publish_loop (unat (l_len (tp_subscribers tp1))) w1 (l_head (tp_subscribers tp1)) (packed w msg) 0 = Inr (w', sum_list ts)"
    "only_sent w1 w'" "length ts = length (subscribers w t)" "\<forall>n\<in>set ts. n \<le> unat (hd_size (pb_header msg))"
    "\<forall>fd. sv_wire w' fd = sv_wire w1 fd @ delivered w1 (publish_bytes w msg) (subscribers w t) ts fd"
    "\<forall>i<length (subscribers w t). accepts (sv_tx w1 (client_fd w1 (subscribers w t ! i)))
        (length (subscribers w t) * unat (hd_size (pb_header msg))) \<longrightarrow> ts ! i = unat (hd_size (pb_header msg))"
    unfolding sizes db(2) by blast
  have res: "publish_message w (Some t) msg sender = Inr (w', sum_list ts)"
    unfolding publish_message_def pack_publish_packed [OF assms(1)]
    by (simp only: w1(1) bindR.simps load_topic_Some [OF w1(5)] w'(1) prod.case buffer_destroy_def) simp
  have "delivered w1 x cs ts fd' = delivered w x cs ts fd'" for x cs fd'
    by (simp add: delivered_def fd)
  then have wires: "\<forall>fd. sv_wire w' fd = sv_wire w fd @ delivered w (publish_bytes w msg) (subscribers w t) ts fd"
    using w'(5) by (simp add: w1(8))
  show thesis
    by (rule that [OF res w1(2,3) w'(2) db w'(3,4) wires w'(6) [unfolded fd w1(7)]])
qed

section \<open>An example\<close>

text \<open>A broker over the database of one topic and one subscriber.\<close>

lemma db_inv_cong:
  fixes w :: "'a sizigydb_scheme" and w' :: "'b sizigydb_scheme"
  assumes "hp_nodes w' = hp_nodes w" and "hp_clients w' = hp_clients w" and "hp_topics w' = hp_topics w" and "hp_subs w' = hp_subs w"
    and "db_topics w' = db_topics w" and "db_clients w' = db_clients w" and "db_locked w' = db_locked w"
  shows "db_inv w' = db_inv w" and "subscribers w' = subscribers w"
proof -
  have s: "sub_client w' d = sub_client w d" for d
    by (cases d) (simp_all add: sub_client_def assms)
  then have "sub_ok w' d = sub_ok w d" for d
    by (simp add: sub_ok_def assms)
  then show "db_inv w' = db_inv w"
    by (simp add: db_inv_def names_ok_def topics_ok_def topic_ok_def assms)
  show "subscribers w' = subscribers w"
    by (simp add: fun_eq_iff subscribers_def assms s split: option.split)
qed

definition server1 :: server where
  "server1 = sizigydb.extend db1_linked
     \<lparr>sv_epoll = [7 \<mapsto> (0, EpPtr 0)], sv_bepoll = Map.empty, sv_rx = (\<lambda>_. []), sv_tx = (\<lambda>_. replicate 100 (Accept 1)),
       sv_wire = (\<lambda>_. []), sv_junk = (\<lambda>_. 0), sv_config_run = 3, sv_config_keepalive = 60\<rparr>"

lemma server1_sel [simp]:
  "hp_nodes server1 = hp_nodes db1_linked" "hp_clients server1 = one_cell 0 client0" "hp_topics server1 = hp_topics db1_linked"
  "hp_subs server1 = hp_subs db1" "hp_msgs server1 = hp_msgs db1" "hp_pkts server1 = hp_pkts db1"
  "db_topics server1 = hm_c" "db_clients server1 = hm0" "\<not> db_locked server1" "db_now server1 = 1000"
  "sv_epoll server1 = [7 \<mapsto> (0, EpPtr 0)]" "sv_rx server1 = (\<lambda>_. [])" "sv_tx server1 = (\<lambda>_. replicate 100 (Accept 1))"
  "sv_wire server1 = (\<lambda>_. [])" "sv_junk server1 = (\<lambda>_. 0)"
  by (simp_all add: server1_def sizigydb.defs db1_linked_def) (simp_all add: db1_def put_subs_def)

definition topic1 :: topic where
  "topic1 = topic0\<lparr>tp_subscribers := \<lparr>l_head = Some 0, l_tail = Some 0, l_len = 1\<rparr>\<rparr>"

lemma server1_topic: "h_cells (hp_topics server1) 1 = Some topic1"
  by (simp add: db1_linked_def topic1_def)

lemma server1_ok: "db_inv server1" "subscribers server1 1 = [0]" "client_fd server1 0 = 7"
proof -
  have eq: "hp_subs server1 = hp_subs db1_linked" "hp_clients server1 = hp_clients db1_linked"
      "db_topics server1 = db_topics db1_linked" "db_clients server1 = db_clients db1_linked" "db_locked server1 = db_locked db1_linked"
    by (simp_all add: db1_linked_def)
  note c = db_inv_cong [of server1 db1_linked, OF _ eq(2) _ eq(1,3,4,5)]
  show "db_inv server1" "subscribers server1 1 = [0]"
    using c db1_linked_ok by simp_all
  show "client_fd server1 0 = 7"
    by (simp add: client_fd_def client0_def)
qed

definition message1 :: "u8 \<Rightarrow> publish" where
  "message1 retain = \<lparr>pb_header = \<lparr>hd_opcode = PUBLISH, hd_size = 17\<rparr>, pb_topic_len = 1, pb_message_len = 2, pb_qos = 0,
     pb_retain = retain, pb_dup = 0, pb_topic = [99, 0], pb_message = [104, 105, 0]\<rparr>"

lemma message1_wire:
  "publish_bytes server1 (message1 r) = [0x30, 0, 0, 0, 17, 0, 1, 0, 0, 0, 2, 0, r, 0, 99, 104, 105]"
  by (simp add: publish_bytes_def message1_def wire_publish_def wire_header_def store32_def store16_def c_str_def PUBLISH_def)

lemma message1_publishable: "publishable (message1 r)"
  by (simp add: publishable_def message1_def wire_publish_def c_str_def)

section \<open>Properties\<close>

text \<open>
  C1: Publishing delivers to every subscriber, in subscriber order: on a consistent database, for a
  packet whose fields fit its announced size and while the byte count fits an \<open>int\<close>,
  \<open>publish_message\<close> returns, appends to the output of every descriptor a prefix of the packed
  packet per subscription of its client and nothing to any other descriptor, and returns the number
  of bytes sent; every subscriber whose own socket takes the data is sent the whole packet, whatever
  the other sockets do.  The subscriptions and the
  consistency of the database are unaffected, and with the retain flag the topic's retained
  message becomes this one.\<close>

theorem publish_delivers:
  assumes "db_inv w" and "h_cells (hp_topics w) t = Some tp" and "publishable msg"
    and "length (subscribers w t) * unat (hd_size (pb_header msg)) \<le> INT_MAX"
    and "pb_retain msg \<noteq> 0 \<longrightarrow> retained_live w tp \<and> h_avail (hp_msgs w) > 0"
  shows "\<exists>w' ts. publish_message w (Some t) msg sender = Inr (w', sum_list ts) \<and> length ts = length (subscribers w t) \<and>
    (\<forall>n\<in>set ts. n \<le> unat (hd_size (pb_header msg))) \<and>
    (\<forall>fd. sv_wire w' fd = sv_wire w fd @ delivered w (publish_bytes w msg) (subscribers w t) ts fd) \<and>
    (\<forall>i<length (subscribers w t). accepts (sv_tx w (client_fd w (subscribers w t ! i)))
        (length (subscribers w t) * unat (hd_size (pb_header msg))) \<longrightarrow> ts ! i = unat (hd_size (pb_header msg))) \<and>
    db_inv w' \<and> subscribers w' = subscribers w \<and>
    (pb_retain msg \<noteq> 0 \<longrightarrow> (\<exists>tp' m. h_cells (hp_topics w') t = Some tp' \<and> tp_retained tp' = Some m \<and>
      h_cells (hp_msgs w') m = Some (retained_of msg sender (db_now w))))"
proof -
  obtain w1 w' ts where p: "publish_message w (Some t) msg sender = Inr (w', sum_list ts)"
      "pb_retain msg = 0 \<longrightarrow> w1 = w"
      "pb_retain msg \<noteq> 0 \<longrightarrow> (\<exists>h m. w1 = w\<lparr>hp_msgs := h, hp_topics := h_upd (hp_topics w) t (Some (tp\<lparr>tp_retained := Some m\<rparr>))\<rparr> \<and>
        h_cells h m = Some (retained_of msg sender (db_now w)) \<and> (\<forall>old. tp_retained tp = Some old \<longrightarrow> h_cells h old = None))"
      "only_sent w1 w'" "db_inv w1" "subscribers w1 = subscribers w" "length ts = length (subscribers w t)"
      "\<forall>n\<in>set ts. n \<le> unat (hd_size (pb_header msg))"
      "\<forall>fd. sv_wire w' fd = sv_wire w fd @ delivered w (publish_bytes w msg) (subscribers w t) ts fd"
      "\<forall>i<length (subscribers w t). accepts (sv_tx w (client_fd w (subscribers w t ! i)))
        (length (subscribers w t) * unat (hd_size (pb_header msg))) \<longrightarrow> ts ! i = unat (hd_size (pb_header msg))"
    by (rule publish_message_sends [OF assms(3,2,1,4,5)])
  note sent = only_sent_sel [OF p(4)] only_sent_db [OF p(4,5)]
  have "\<exists>tp' m. h_cells (hp_topics w') t = Some tp' \<and> tp_retained tp' = Some m \<and>
      h_cells (hp_msgs w') m = Some (retained_of msg sender (db_now w))" if "pb_retain msg \<noteq> 0"
    using p(3) that by (auto simp: sent)
  with p sent(13,14) show ?thesis
    by (intro exI [of _ w'] exI [of _ ts]) auto
qed

lemma publish_delivers_witness:
  "\<exists>w'. publish_message server1 (Some 1) (message1 1) None = Inr (w', 17) \<and>
    sv_wire w' 7 = [0x30, 0, 0, 0, 17, 0, 1, 0, 0, 0, 2, 0, 1, 0, 99, 104, 105] \<and> sv_wire w' 8 = [] \<and>
    (\<exists>tp m mg. h_cells (hp_topics w') 1 = Some tp \<and> tp_retained tp = Some m \<and> h_cells (hp_msgs w') m = Some mg \<and>
      mg_payload mg = [104, 105, 0])"
proof -
  have sz: "hd_size (pb_header (message1 1)) = 17" "pb_retain (message1 1) = 1"
    by (simp_all add: message1_def)
  have r: "retained_live server1 topic1" "h_avail (hp_msgs server1) > 0"
    by (simp_all add: retained_live_def topic1_def topic0_def db1_def empty_heap_def heap_ok_def)
  have acc: "accepts (replicate 100 (Accept 1)) 17"
    by (simp add: accepts_def)
  have "retained_of (message1 1) None 1000 = \<lparr>mg_qos = 0, mg_dup = 0, mg_retained = 1, mg_creation_time = 1000, mg_sender = None,
      mg_topic = [99, 0], mg_payload = [104, 105, 0]\<rparr>"
    by (simp add: retained_of_def message1_def c_str_def)
  note ret = this
  have one: "length (subscribers server1 1) = 1"
    by (simp only: server1_ok list.size)
  obtain w' ts where p: "publish_message server1 (Some 1) (message1 1) None = Inr (w', sum_list ts)"
      "\<forall>fd. sv_wire w' fd = sv_wire server1 fd @ delivered server1 (publish_bytes server1 (message1 1)) (subscribers server1 1) ts fd"
      "length ts = 1" "ts ! 0 = 17" "\<exists>tp' m. h_cells (hp_topics w') 1 = Some tp' \<and> tp_retained tp' = Some m \<and>
        h_cells (hp_msgs w') m = Some (retained_of (message1 1) None (db_now server1))"
    using publish_delivers [OF server1_ok(1) server1_topic message1_publishable, of 1 None] r acc
    unfolding one sz server1_ok(2) by (auto simp: server1_ok(3))
  have ts: "ts = [17]"
    using p(3,4) by (cases ts) simp_all
  have "sv_wire w' fd = (if fd = 7 then [0x30, 0, 0, 0, 17, 0, 1, 0, 0, 0, 2, 0, 1, 0, 99, 104, 105] else [])" for fd
    using p(2) unfolding server1_ok(2) by (simp add: ts server1_ok(3) message1_wire delivered_def)
  moreover have "sum_list ts = 17"
    by (simp add: ts)
  ultimately show ?thesis
    using p(1,5) ret by auto
qed

end
