(* ===== verification/Sz_Session.thy ===== *)
theory Sz_Session
  imports Sz_Invariant Sz_Handlers "HOL-Library.Multiset"
begin

text \<open>
  The broker as a state machine.  Workers take events from the epoll instance and run the handler
  of the client they find there; the keepalive thread and the environment take steps in between.
  Handlers run to completion; the states between them are those the invariant describes.
\<close>

section \<open>Accepting\<close>

lemma busy_new_client:
  assumes "busy X w" and "h_alloc (hp_clients w) cl = Some (c, h)" and "cl_reply cl = None"
  shows "busy X (w\<lparr>hp_clients := h\<rparr>)"
proof -
  have b: "db_inv w" "tidy w" "clients_ok X w" "epoll_ok X w"
    using assms(1) by (auto simp: busy_def)
  have "heap_ok (hp_clients w)"
    using b(1) by (simp add: db_inv_def)
  note fresh = h_alloc_fresh [OF this assms(2)]
  have g: "grows w (w\<lparr>hp_clients := h\<rparr>)"
    using b(1) fresh by (intro grows_frame) (auto simp: db_inv_def)
  have "reply_ok (hp_pkts w) cl" "phase_ok cl" "\<not> owns cl p" for p
    using assms(3) by (simp_all add: reply_ok_def phase_ok_def owns_def)
  then have "clients_ok X (w\<lparr>hp_clients := h\<rparr>)"
    using b(3) by (auto simp: clients_ok_def fresh(2))
  moreover have "epoll_ok X (w\<lparr>hp_clients := h\<rparr>)"
    by (rule epoll_ok_same [OF b(4)]) (use fresh in auto)
  ultimately show ?thesis
    using grows_db(1) [OF b(1) g] grows_tidy [OF b(2,1) g] by (simp add: busy_def)
qed

lemma busy_add_epoll:
  assumes "busy X w" and "h_cells (hp_clients w) c = Some cl" and "cl_fd cl = fd" and "c \<notin> dom (snd X)"
    and "cl_ctx_handler cl \<noteq> ReplyHandler"
  shows "busy X (set_epoll w (add_epoll (sv_epoll w) fd (Some c)))" (is "busy X ?w")
proof -
  have b: "db_inv w" "tidy w" "clients_ok X w" "epoll_ok X w"
    using assms(1) by (auto simp: busy_def)
  have g: "grows w ?w"
    using b(1) by (intro grows_frame) (auto simp: db_inv_def)
  have mask: "mask_ok (EPOLLIN OR EPOLLET OR EPOLLONESHOT) cl"
    using assms(5) by (simp add: mask_ok_def epoll_masks)
  have "epoll_ok X ?w"
  proof (rule epoll_okI)
    show "waiting_ok X ?w"
      by (rule waiting_ok_mono [OF epoll_ok_waiting [OF b(4)]]) simp
  next
    fix fd' m d assume e: "sv_epoll ?w fd' = Some (m, d)"
    show "case d of EpFd r \<Rightarrow> r = uint (sv_config_run ?w)
      | EpPtr a \<Rightarrow> (\<exists>cl. h_cells (hp_clients ?w) a = Some cl \<and> cl_fd cl = fd' \<and> (if a \<in> dom (snd X) then m = 0 else mask_ok m cl))"
    proof (cases "sv_epoll w fd' = Some (m, d)")
      case True
      then show ?thesis
        using epoll_okD [OF b(4) True] by (simp only: set_epoll_sel)
    next
      case False
      with e have "fd' = fd" "m = EPOLLIN OR EPOLLET OR EPOLLONESHOT" "d = EpPtr c"
        by (auto simp: add_epoll_def ep_union_def split: if_splits)
      then show ?thesis
        using assms mask by simp
    qed
  qed
  moreover have "clients_ok X ?w"
    by (rule clients_ok_same [OF b(3)]) auto
  ultimately show ?thesis
    using grows_db(1) [OF b(1) g] grows_tidy [OF b(2,1) g] by (simp add: busy_def)
qed

lemma busy_peers:
  assumes "busy X w" and "list_head_insert (hp_nodes w) l p = Inr (h, l')"
  shows "busy X (w\<lparr>hp_nodes := h, db_peers := l'\<rparr>)"
proof (rule busy_frame [OF assms(1)])
  have db: "db_inv w"
    using assms(1) by (simp add: busy_def)
  then have "h_ext (hp_nodes w) h" "heap_ok h"
    using list_head_insert_ext [OF assms(2)] by (auto simp: db_inv_def)
  moreover have "h_avail h \<le> h_avail (hp_nodes w)"
    using assms(2) by (auto simp: list_head_insert_def h_alloc_def split: if_splits)
  ultimately show "grows w (w\<lparr>hp_nodes := h, db_peers := l'\<rparr>)"
    using db by (simp add: grows_def db_inv_def)
qed auto

text \<open>Arming the listening socket again.\<close>

lemma rearm:
  assumes "serving D c fd w" and "h_cells (hp_clients w) c = Some cl" and "cl_reply cl = None" and "cl_ctx_handler cl \<noteq> ReplyHandler"
  shows "busy ({}, D) (set_epoll w (mod_epoll (sv_epoll w) fd EPOLLIN (Some c)))"
proof -
  have "cl = cl\<lparr>cl_ctx_handler := cl_ctx_handler cl, cl_reply := None\<rparr>"
    by (simp flip: assms(3))
  from finish [OF assms(1,2) this _ _ refl] assms(3,4)
  have "busy ({}, D) (set_epoll (w\<lparr>hp_clients := h_upd (hp_clients w) c (Some cl)\<rparr>) (mod_epoll (sv_epoll w) fd EPOLLIN (Some c)))"
    by simp
  moreover have "h_upd (hp_clients w) c (Some cl) = hp_clients w"
    using assms(2) by (simp add: h_upd_def fun_upd_idem)
  ultimately show ?thesis
    by simp
qed

lemma accept_yields:
  assumes "serving D c fd w" and "h_cells (hp_clients w) c = Some svr" and "cl_reply svr = None" and "cl_ctx_handler svr \<noteq> ReplyHandler"
  shows "yields (\<lambda>(w', _). busy ({}, D) w') (accept_handler e w c)"
proof -
  have stop: "busy ({}, D) w"
    using serving_done [OF assms(1,2)] assms(3) by (simp add: phase_ok_def)
  have fd: "cl_fd svr = fd"
    using assms(1,2) by (auto simp: serving_def)
  have ok: "busy ({}, D) w'" if r: "accept_handler e w c = Inr (w', rc)" for w' rc
  proof (cases "w' = w")
    case False
    obtain x s flags where acc: "accept_connection (ae_accept e) (ae_getfl e) (ae_setfl e) (ae_ntop e) [] = (x, s, flags)"
      by (metis prod_cases3)
    obtain cl a h w1 where cl: "h_alloc (hp_clients w) cl = Some (a, h)" "cl_reply cl = None" "cl_fd cl = s"
        "cl_ctx_handler cl = RequestHandler"
      and w1: "w1 = w\<lparr>hp_clients := h\<rparr> \<or> (\<exists>hn l. list_head_insert (hp_nodes w) (db_peers w) (Some a) = Inr (hn, l) \<and>
          w1 = w\<lparr>hp_clients := h, hp_nodes := hn, db_peers := l\<rparr>)"
      and w': "w' = set_epoll w1 (mod_epoll (add_epoll (sv_epoll w1) s (Some a)) fd EPOLLIN (Some c))"
      using r False
      by (fastforce simp: accept_handler_def load_client_Some [OF assms(2)] acc fd Let_def res_simps
          split: if_splits option.splits)
    have "heap_ok (hp_clients w)"
      using assms(1) by (simp add: serving_def busy_def db_inv_def)
    note fresh = h_alloc_fresh [OF this cl(1)]
    have ac: "a \<noteq> c"
      using fresh(1) assms(2) by auto
    have "waiting_ok ({c}, D(c \<mapsto> 0)) w"
      using serving_busy [OF assms(1)] epoll_ok_waiting by (auto simp: busy_def)
    then have free: "a \<notin> dom (D(c \<mapsto> 0))"
      using fresh(1) unfolding waiting_ok_def by fastforce
    have "busy ({c}, D(c \<mapsto> 0)) w1"
      using w1 busy_new_client [OF serving_busy [OF assms(1)] cl(1,2)] busy_peers by fastforce
    moreover have c1: "h_cells (hp_clients w1) a = Some cl" "h_cells (hp_clients w1) c = Some svr"
      using w1 fresh(2) ac assms(2) by auto
    ultimately have "busy ({c}, D(c \<mapsto> 0)) (set_epoll w1 (add_epoll (sv_epoll w1) s (Some a)))"
      using free cl by (intro busy_add_epoll) auto
    then have "serving D c fd (set_epoll w1 (add_epoll (sv_epoll w1) s (Some a)))"
      using c1 fd assms(1) by (simp add: serving_def)
    from rearm [OF this] c1 assms(3,4) show ?thesis
      by (simp add: w' set_epoll_def)
  qed (use stop in simp)
  then show ?thesis
    by (auto simp: yields_def)
qed

section \<open>Dispatch and keepalive\<close>

lemma iterate_loop_yields:
  assumes "\<And>e s. Q s \<Longrightarrow> yields (\<lambda>(s', _). Q s') (f e s)" and "Q s"
  shows "yields (\<lambda>(s', _). Q s') (hashmap_iterate_loop f es s)"
  using assms(2)
proof (induction es arbitrary: s)
  case (Cons e es)
  show ?case
    using Cons assms(1) [OF Cons.prems, of e] by (auto simp: yields_def res_simps split: if_splits)
qed (simp add: yields_def)

lemma iterate2_yields:
  assumes "\<And>e s. Q s \<Longrightarrow> yields (\<lambda>(s', _). Q s') (f x e s)" and "Q s"
  shows "yields (\<lambda>(s', _). Q s') (hashmap_iterate2 m f x s)"
  unfolding hashmap_iterate2_def
  by (intro yields_if yields_step iterate_loop_yields [where Q = Q]) (use assms in \<open>auto simp: yields_def\<close>)

lemma close_sockets_yields: "busy X w \<Longrightarrow> yields (\<lambda>(w', _). busy X w') (hashmap_iterate2 m close_socket None w)"
  by (rule iterate2_yields) (auto simp: close_socket_def yields_def)

lemma check_status_yields:
  assumes "busy X w"
  shows "yields (\<lambda>(w', _). busy X w') (check_client_status u e w)"
proof (cases "he_val e")
  case (Some a)
  have "busy X (close_fd w fd)" for fd
    by (rule busy_close_fd [OF assms])
  moreover have "same_client X a cl (cl\<lparr>cl_status := OFFLINE\<rparr>)" for cl
    by (simp add: same_client_def)
  ultimately have "yields (busy X) (store_client (close_fd w fd) (Some a) (cl\<lparr>cl_status := OFFLINE\<rparr>))"
    if "h_cells (hp_clients w) a = Some cl" for cl fd
    using that by (intro store_client_yields) (auto simp: close_fd_def)
  then show ?thesis
    using assms Some unfolding check_client_status_def
    by (auto simp: yields_def res_simps load_client_def)
qed (use assms in \<open>simp add: check_client_status_def yields_def\<close>)

lemma keepalive_yields: "busy X w \<Longrightarrow> yields (\<lambda>(w', _). busy X w') (keepalive_round w)"
  unfolding keepalive_round_def by (rule iterate2_yields) (auto intro: check_status_yields)

text \<open>
  The events the kernel can report for a registration with mask \<open>m\<close>: those asked for, errors and
  hang-ups; a registration whose mask is empty reports nothing.
\<close>

definition reports :: "u32 \<Rightarrow> u32 \<Rightarrow> bool" where
  "reports m evs \<longleftrightarrow> m \<noteq> 0 \<and> evs \<noteq> 0 \<and> evs AND NOT (m OR EPOLLERR OR EPOLLHUP) = 0"

lemma reports_asked:
  assumes "reports m evs" and "evs AND b \<noteq> 0" and "b AND (EPOLLERR OR EPOLLHUP) = 0"
  shows "m AND b \<noteq> 0"
proof -
  obtain n where n: "bit evs n" "bit b n"
    using assms(2) by (auto simp: bit_eq_iff bit_simps)
  moreover have "n < 32"
    using n(1) by (auto dest: bit_imp_le_length)
  ultimately have "\<not> bit (EPOLLERR OR EPOLLHUP) n"
    using assms(3) by (auto simp: bit_eq_iff bit_simps)
  moreover have "\<not> bit (evs AND NOT (m OR EPOLLERR OR EPOLLHUP)) n"
    using assms(1) by (simp add: reports_def)
  ultimately have "bit m n"
    using n(1) by (auto simp: bit_simps dest: bit_imp_le_length)
  with n(2) \<open>n < 32\<close> show ?thesis
    by (auto simp: bit_eq_iff bit_simps)
qed

lemma reports_fits: "reports m evs \<Longrightarrow> mask_ok m cl \<Longrightarrow> fits evs cl"
  using reports_asked [of m evs EPOLLIN] reports_asked [of m evs EPOLLOUT]
  by (auto simp: mask_ok_def fits_def) (auto simp: epoll_masks)

text \<open>The kernel reports an event: the one-shot registration of the client is disarmed, and its client waits.\<close>

lemma fire_ptr:
  assumes "busy ({}, D) w" and "sv_epoll w fd = Some (m, EpPtr c)" and "reports m evs"
  shows "busy ({}, D(c \<mapsto> evs)) (set_epoll w (ep_fire (sv_epoll w) fd))" (is "busy _ ?w") and "c \<notin> dom D"
proof -
  have b: "db_inv w" "tidy w" "clients_ok ({}, D) w" "epoll_ok ({}, D) w"
    using assms(1) by (auto simp: busy_def)
  show free: "c \<notin> dom D"
    using epoll_okD [OF b(4) assms(2)] assms(3) by (auto simp: reports_def split: if_splits)
  then obtain cl where cl: "h_cells (hp_clients w) c = Some cl" "cl_fd cl = fd" "mask_ok m cl"
    using epoll_okD [OF b(4) assms(2)] by auto
  have m: "m AND EPOLLONESHOT \<noteq> 0"
    using cl(3) assms(3) by (auto simp: mask_ok_def reports_def)
  have g: "grows w ?w"
    using b(1) by (intro grows_frame) (auto simp: db_inv_def)
  have "epoll_ok ({}, D(c \<mapsto> evs)) ?w"
  proof (rule epoll_okI)
    show "waiting_ok ({}, D(c \<mapsto> evs)) ?w"
      using epoll_ok_waiting [OF b(4)] cl(1) reports_fits [OF assms(3) cl(3)] by (auto simp: waiting_ok_def)
  next
    fix fd' m' d assume e: "sv_epoll ?w fd' = Some (m', d)"
    show "case d of EpFd r \<Rightarrow> r = uint (sv_config_run ?w)
      | EpPtr a \<Rightarrow> (\<exists>cl. h_cells (hp_clients ?w) a = Some cl \<and> cl_fd cl = fd' \<and>
          (if a \<in> dom (snd ({} :: nat set, D(c \<mapsto> evs))) then m' = 0 else mask_ok m' cl))"
    proof (cases "fd' = fd")
      case True
      with e assms(2) m have "m' = 0" "d = EpPtr c"
        by (auto simp: ep_fire_def split: if_splits)
      then show ?thesis
        using cl True by simp
    next
      case False
      with e have e': "sv_epoll w fd' = Some (m', d)"
        by (auto simp: ep_fire_def assms(2) split: if_splits)
      show ?thesis
      proof (cases d)
        case (EpFd r)
        then show ?thesis
          using epoll_okD [OF b(4) e'] by simp
      next
        case (EpPtr a)
        then obtain cla where "h_cells (hp_clients w) a = Some cla" "cl_fd cla = fd'" "if a \<in> dom D then m' = 0 else mask_ok m' cla"
          using epoll_okD [OF b(4) e'] by auto
        moreover from this have "a \<noteq> c"
          using cl False by auto
        ultimately show ?thesis
          using EpPtr by simp
      qed
    qed
  qed
  moreover have "clients_ok ({}, D(c \<mapsto> evs)) ?w"
    using b(3) by (simp add: clients_ok_def)
  ultimately show "busy ({}, D(c \<mapsto> evs)) ?w"
    using grows_db(1) [OF b(1) g] grows_tidy [OF b(2,1) g] by (simp add: busy_def)
qed

text \<open>The event descriptor is level triggered: reporting it changes nothing.\<close>

lemma fire_fd:
  assumes "busy ({}, D) w" and "sv_epoll w fd = Some (m, EpFd r)"
  shows "busy ({}, D) (set_epoll w (ep_fire (sv_epoll w) fd))" (is "busy _ ?w")
proof -
  have b: "db_inv w" "tidy w" "clients_ok ({}, D) w" "epoll_ok ({}, D) w"
    using assms(1) by (auto simp: busy_def)
  have g: "grows w ?w"
    using b(1) by (intro grows_frame) (auto simp: db_inv_def)
  have "epoll_ok ({}, D) ?w"
  proof (rule epoll_okI)
    show "waiting_ok ({}, D) ?w"
      using epoll_ok_waiting [OF b(4)] by (simp add: waiting_ok_def)
  next
    fix fd' m' d assume e: "sv_epoll ?w fd' = Some (m', d)"
    show "case d of EpFd r \<Rightarrow> r = uint (sv_config_run ?w)
      | EpPtr a \<Rightarrow> (\<exists>cl. h_cells (hp_clients ?w) a = Some cl \<and> cl_fd cl = fd' \<and>
          (if a \<in> dom (snd ({} :: nat set, D)) then m' = 0 else mask_ok m' cl))"
    proof (cases "fd' = fd")
      case True
      then show ?thesis
        using e assms(2) epoll_okD [OF b(4) assms(2)] by (auto simp: ep_fire_def split: if_splits)
    next
      case False
      with e have e': "sv_epoll w fd' = Some (m', d)"
        by (auto simp: ep_fire_def assms(2) split: if_splits)
      show ?thesis
        using epoll_okD [OF b(4) e'] by (simp only: set_epoll_sel)
    qed
  qed
  moreover have "clients_ok ({}, D) ?w"
    using b(3) by (simp add: clients_ok_def)
  ultimately show ?thesis
    using grows_db(1) [OF b(1) g] grows_tidy [OF b(2,1) g] by (simp add: busy_def)
qed

text \<open>A worker takes a waiting event.\<close>

lemma take_event:
  assumes "busy ({}, D) w" and "D c = Some evs"
  obtains cl where "serving (D(c := None)) c (cl_fd cl) w" "h_cells (hp_clients w) c = Some cl" "phase_ok cl" "fits evs cl"
proof -
  have b: "db_inv w" "tidy w" "clients_ok ({}, D) w" "epoll_ok ({}, D) w"
    using assms(1) by (auto simp: busy_def)
  obtain cl where cl: "h_cells (hp_clients w) c = Some cl" "fits evs cl"
    using epoll_ok_waiting [OF b(4)] assms(2) unfolding waiting_ok_def by fastforce
  have eq: "(D(c := None))(c \<mapsto> 0) = D(c \<mapsto> 0)"
    by simp
  have dom: "dom (D(c \<mapsto> 0)) = dom D"
    using assms(2) by auto
  have "waiting_ok ({c}, D(c \<mapsto> 0)) w"
    using epoll_ok_waiting [OF b(4)] cl(1) by (auto simp: waiting_ok_def)
  then have "epoll_ok ({c}, D(c \<mapsto> 0)) w"
    using b(4) unfolding epoll_ok_def snd_conv dom by blast
  moreover have "clients_ok ({c}, D(c \<mapsto> 0)) w"
    using b(3) by (auto simp: clients_ok_def)
  ultimately have "serving (D(c := None)) c (cl_fd cl) w"
    using b(1,2) cl(1) unfolding serving_def busy_def eq by auto
  then show thesis
    using cl b(3) by (intro that) (auto simp: clients_ok_def)
qed

lemma dispatch_yields:
  assumes "serving D c fd w" and "h_cells (hp_clients w) c = Some cl" and "phase_ok cl"
  shows "yields (\<lambda>(w', _). busy ({}, D) w') (dispatch fuel e w c)"
  using assms accept_yields [OF assms(1,2)] request_yields [OF assms(1,2)] reply_yields [OF assms(1,2)]
  by (auto simp: dispatch_def load_client_Some phase_ok_def split: ctx_handler.split)

text \<open>Afterwards its client no longer waits, unless the event was an error and no handler ran.\<close>

lemma worker_event_yields:
  assumes "busy ({}, D) w" and "\<And>c. d = EpPtr c \<Longrightarrow> D c = Some evs"
  shows "yields (\<lambda>r. \<forall>w'. r = Some w' \<longrightarrow> busy ({}, D) w' \<or> (\<exists>c. d = EpPtr c \<and> busy ({}, D(c := None)) w'))
    (worker_event fuel e lo32 w evs d)" (is "yields ?Q _")
proof -
  have err: "yields ?Q (bindR (hashmap_iterate2 (db_topics w) close_socket None w) (\<lambda>(w, _). Inr (Some (close_fd w x))))" for x
    by (rule yields_bindR [OF close_sockets_yields [OF assms(1)]]) (auto intro!: yields_Inr busy_close_fd)
  have run: "yields ?Q (case d of EpFd _ \<Rightarrow> Inl Dangling | EpPtr c \<Rightarrow> bindR (dispatch fuel e w c) (\<lambda>(w, _). Inr (Some w)))"
  proof (cases d)
    case (EpPtr c)
    obtain cl where "serving (D(c := None)) c (cl_fd cl) w" "h_cells (hp_clients w) c = Some cl" "phase_ok cl"
      by (rule take_event [OF assms(1) assms(2) [OF EpPtr]])
    then have "yields (\<lambda>(w', _). busy ({}, D(c := None)) w') (dispatch fuel e w c)"
      by (rule dispatch_yields)
    then show ?thesis
      unfolding EpPtr ep_data.case by (rule yields_bindR) (auto intro: yields_Inr)
  qed simp
  show ?thesis
    unfolding worker_event_def by (intro yields_if err run) (simp add: yields_def)
qed

section \<open>The state machine\<close>

text \<open>
  The state of the running broker: the server, and the events \<open>epoll_wait\<close> has returned to the workers but that are
  not handled yet.  Workers wait in batches and in parallel, so that any number of events can be
  waiting and they are handled in any order.
\<close>

type_synonym events = "(u32 \<times> nat ep_data) multiset"

text \<open>
  The steps are those of handlers that return.  A handler that does not, because it has to grow a map, leaves
  no state to go on from: the machine describes the broker up to that point.
\<close>

inductive server_step :: "server \<times> events \<Rightarrow> server \<times> events \<Rightarrow> bool" where
  report: "sv_epoll w fd = Some (m, d) \<Longrightarrow> reports m evs \<Longrightarrow>
    server_step (w, P) (set_epoll w (ep_fire (sv_epoll w) fd), add_mset (evs, d) P)"
| handle: "(evs, d) \<in># P \<Longrightarrow> worker_event fuel e lo32 w evs d = Inr (Some w') \<Longrightarrow>
    server_step (w, P) (w', P - {#(evs, d)#})"
| stop: "(evs, d) \<in># P \<Longrightarrow> worker_event fuel e lo32 w evs d = Inr None \<Longrightarrow> server_step (w, P) (w, P - {#(evs, d)#})"
| keepalive: "keepalive_round w = Inr (w', rc) \<Longrightarrow> server_step (w, P) (w', P)"
| environment: "server_step (w, P) (w\<lparr>sv_rx := rx, sv_tx := tx, db_now := now\<rparr>, P)"

inductive reachable :: "start_env \<Rightarrow> block \<Rightarrow> block \<Rightarrow> int \<Rightarrow> server \<times> events \<Rightarrow> bool" for e addr port node where
  start: "start_server e addr port node = Inr (Some w) \<Longrightarrow> reachable e addr port node (w, {#})"
| step: "reachable e addr port node s \<Longrightarrow> server_step s s' \<Longrightarrow> reachable e addr port node s'"

text \<open>
  Every waiting event is the only one of its client.  The clients of \<open>S\<close> are out of service: their
  registration is disarmed and no event of theirs is waiting.
\<close>

definition waits :: "nat set \<Rightarrow> events \<Rightarrow> (nat \<rightharpoonup> u32) \<Rightarrow> bool" where
  "waits S P D \<longleftrightarrow> S \<subseteq> dom D \<and>
     (\<forall>c evs. (evs, EpPtr c) \<in># P \<longrightarrow> D c = Some evs \<and> c \<notin> S \<and> count P (evs, EpPtr c) = 1)"

definition run_inv :: "nat set \<Rightarrow> server \<times> events \<Rightarrow> bool" where
  "run_inv S = (\<lambda>(w, P). \<exists>D. busy ({}, D) w \<and> waits S P D)"

lemma waits_report:
  assumes "waits S P D" and "c \<notin> dom D"
  shows "waits S (add_mset (evs, EpPtr c) P) (D(c \<mapsto> evs))"
  using assms by (auto simp: waits_def not_in_iff [symmetric])

lemma waits_report_fd: "waits S P D \<Longrightarrow> waits S (add_mset (evs, EpFd r) P) D"
  by (auto simp: waits_def)

lemma waits_minus: "waits S P D \<Longrightarrow> waits S (P - {#x#}) D"
proof -
  assume w: "waits S P D"
  have "D c = Some evs \<and> c \<notin> S \<and> count (P - {#x#}) (evs, EpPtr c) = 1" if "(evs, EpPtr c) \<in># P - {#x#}" for c evs
  proof -
    have "count P (evs, EpPtr c) = 1" "D c = Some evs" "c \<notin> S"
      using w in_diffD [OF that] by (auto simp: waits_def)
    moreover have "0 < count (P - {#x#}) (evs, EpPtr c)"
      using that by (simp only: count_greater_zero_iff)
    ultimately show ?thesis
      by (auto split: if_splits)
  qed
  with w show ?thesis
    by (simp add: waits_def)
qed

lemma waits_handled:
  assumes "waits S P D" and "(evs, EpPtr c) \<in># P"
  shows "waits S (P - {#(evs, EpPtr c)#}) (D(c := None))"
proof -
  have c: "D c = Some evs" "c \<notin> S" "count P (evs, EpPtr c) = 1"
    using assms by (auto simp: waits_def)
  have "a \<noteq> c" if "(evs', EpPtr a) \<in># P - {#(evs, EpPtr c)#}" for a evs'
  proof
    assume "a = c"
    then have "evs' = evs"
      using assms(1) c(1) in_diffD [OF that] by (auto simp: waits_def)
    with that \<open>a = c\<close> c(3) show False
      by (simp add: in_diff_count)
  qed
  note other = this
  define P' where "P' = P - {#(evs, EpPtr c)#}"
  have w: "waits S P' D"
    unfolding P'_def by (rule waits_minus [OF assms(1)])
  have "S \<subseteq> dom (D(c := None))"
    using w c(2) by (auto simp: waits_def)
  moreover have "(D(c := None)) a = Some evs' \<and> a \<notin> S \<and> count P' (evs', EpPtr a) = 1" if "(evs', EpPtr a) \<in># P'" for a evs'
    using w other [of evs' a] that unfolding P'_def [symmetric] waits_def by simp
  ultimately show ?thesis
    unfolding P'_def [symmetric] waits_def by blast
qed

lemma busy_environment:
  assumes "busy X w"
  shows "busy X (w\<lparr>sv_rx := rx, sv_tx := tx, db_now := now\<rparr>)"
  using assms by (intro busy_frame [OF assms] grows_frame) (auto simp: busy_def db_inv_def)

lemma server_step_inv:
  assumes "server_step s s'" and "run_inv S s"
  shows "run_inv S s'"
  using assms
proof cases
  case (report w fd m d evs P)
  with assms(2) obtain D where D: "busy ({}, D) w" "waits S P D"
    by (auto simp: run_inv_def)
  show ?thesis
  proof (cases d)
    case (EpFd r)
    then show ?thesis
      using report(1,2) fire_fd [OF D(1)] report(3) waits_report_fd [OF D(2)] unfolding run_inv_def by blast
  next
    case (EpPtr c)
    then have "busy ({}, D(c \<mapsto> evs)) (set_epoll w (ep_fire (sv_epoll w) fd))" "c \<notin> dom D"
      using fire_ptr [OF D(1)] report by blast+
    then show ?thesis
      using report EpPtr waits_report [OF D(2)] by (auto simp: run_inv_def)
  qed
next
  case (handle evs d P fuel e lo32 w w')
  with assms(2) obtain D where D: "busy ({}, D) w" "waits S P D"
    by (auto simp: run_inv_def)
  have "D c = Some evs" if "d = EpPtr c" for c
    using D(2) handle that by (auto simp: waits_def)
  from yieldsD [OF worker_event_yields [OF D(1) this] handle(4)]
  have "busy ({}, D) w' \<or> (\<exists>c. d = EpPtr c \<and> busy ({}, D(c := None)) w')"
    by simp
  then show ?thesis
    using handle waits_minus [OF D(2)] waits_handled [OF D(2)] by (auto simp: run_inv_def)
next
  case (stop evs d P fuel e lo32 w)
  with assms(2) waits_minus show ?thesis
    by (auto simp: run_inv_def)
next
  case (keepalive w w' rc P)
  with assms(2) show ?thesis
    using yieldsD [OF keepalive_yields] by (fastforce simp: run_inv_def)
next
  case (environment w P rx tx now)
  with assms(2) show ?thesis
    using busy_environment by (fastforce simp: run_inv_def)
qed

lemma server_steps_inv: "server_step\<^sup>*\<^sup>* s s' \<Longrightarrow> run_inv S s \<Longrightarrow> run_inv S s'"
  by (induction rule: rtranclp_induct) (auto intro: server_step_inv)

lemma started_run [simp]: "sv_config_run (started e addr fd bfd bport node) = of_int (se_eventfd e)"
  by (simp add: started_def Let_def)

lemma started_inv:
  assumes "se_avail e < 2 ^ 64"
  shows "server_inv (started e addr fd bfd bport node)" (is "server_inv ?w")
proof -
  have sel: "hp_nodes ?w = empty_heap (se_avail e)" "hp_topics ?w = empty_heap (se_avail e)"
    "hp_subs ?w = empty_heap (se_avail e)" "hp_msgs ?w = empty_heap (se_avail e)" "hp_pkts ?w = empty_heap (se_avail e)"
    "db_topics ?w = hm0"
    "db_clients ?w = hm0" "\<not> db_locked ?w"
    "sv_epoll ?w = add_epoll (add_run Map.empty (of_int (se_eventfd e))) fd (Some server_addr)"
    "heap_ok (hp_clients ?w)" "h_cells (hp_clients ?w) 0 = Some (own_client addr fd AcceptHandler [115, 101, 114, 118, 101, 114, 0])"
    by (simp_all add: started_def Let_def)
  have cl: "cl_reply cl = None" if "h_cells (hp_clients ?w) a = Some cl" for a cl
    using that by (auto simp: started_def Let_def own_client_def split: if_splits)
  have heap: "heap_ok (empty_heap n)" for n
    by (simp add: heap_ok_def empty_heap_def)
  have "topics_ok ?w (\<lambda>_. [])" "names_ok ?w" "tidy ?w"
    using assms hm0_tight
    by (simp_all add: topics_ok_def names_ok_def tidy_def owned_def lens_ok_def sel heap hm_lookup_hm0)
      (simp_all add: empty_heap_def)
  then have "db_inv ?w" "tidy ?w"
    using hm0_inv by (auto simp: db_inv_def sel heap)
  moreover have "clients_ok ({}, Map.empty) ?w"
    unfolding clients_ok_def sel using heap by (auto simp: reply_ok_def phase_ok_def owns_def dest: cl)
  moreover have "epoll_ok ({}, Map.empty) ?w"
    by (auto simp: epoll_ok_def waiting_ok_def sel add_epoll_def add_run_def ep_union_def mask_ok_def own_client_def epoll_masks
        split: if_splits)
  ultimately show ?thesis
    by (simp add: busy_def)
qed

lemma reachable_inv:
  assumes "reachable e addr port node s" and "se_avail e < 2 ^ 64"
  shows "run_inv {} s"
  using assms(1)
proof induction
  case (start w)
  then obtain fd bfd p where "w = started e addr fd bfd p node"
    by (rule start_server_started)
  then show ?case
    using started_inv [OF assms(2)] by (auto simp: run_inv_def waits_def intro!: exI [of _ Map.empty])
qed (rule server_step_inv)

section \<open>Properties\<close>

lemma broker0_reachable: "reachable env0 [49, 0] [57, 48, 57, 48, 0] (-1) (broker0, {#})"
  by (rule reachable.start [OF broker0_started])

text \<open>An event that is handled as soon as it is reported.\<close>

lemma reachable_event:
  assumes "reachable e addr port node (w, P)" and "sv_epoll w fd = Some (m, d)" and "reports m evs"
    and "worker_event fuel e' lo32 (set_epoll w (ep_fire (sv_epoll w) fd)) evs d = Inr (Some w')"
  shows "reachable e addr port node (w', P)"
  using reachable.step [OF reachable.step [OF assms(1) server_step.report [OF assms(2,3)]] server_step.handle [OF _ assms(4)]]
  by simp

text \<open>The example continued: the connection is accepted, sends a ping and waits for the answer.\<close>

definition lo32_0 :: "nat \<Rightarrow> int" where
  "lo32_0 p = int p + 1000"

lemma ep_fire_other: "x \<noteq> fd \<Longrightarrow> ep_fire ep fd x = ep x"
  by (auto simp: ep_fire_def split: option.split)

lemma ep_fire_none: "fd \<notin> dom ep \<Longrightarrow> ep_fire ep fd = ep"
  by (auto simp: ep_fire_def split: option.split)

lemma mod_add_fire:
  "s \<noteq> fd \<Longrightarrow> mod_epoll (add_epoll (ep_fire ep fd) s d) fd evs d' = mod_epoll (add_epoll ep s d) fd evs d'"
  using dom_fire [of ep fd] by (auto simp: mod_epoll_def add_epoll_def fun_eq_iff ep_fire_other ep_fire_none)

lemma broker1_accepted:
  "worker_event 1 accept0 lo32_0 (set_epoll broker0 (ep_fire (sv_epoll broker0) 6)) EPOLLIN (EpPtr 0) = Inr (Some broker1)"
    (is "worker_event 1 accept0 lo32_0 ?w EPOLLIN (EpPtr 0) = _")
proof -
  have svr: "h_cells (hp_clients ?w) 0 = Some (own_client [49, 0] 6 AcceptHandler [115, 101, 114, 118, 101, 114, 0])"
    by (simp add: broker0_client)
  have "accept_handler accept0 ?w 0 = Inr (accepted ?w 0 6 8 (fresh_client ?w 8 [49, 0] (replicate 16 97 @ [0])), 0)"
    using accept_handler_eq [OF svr accept0_ok(1), of "replicate 16 97 @ [0]" "[]"] random_name_a
    by (simp add: accept0_ok own_client_def)
  moreover have "fresh_client ?w 8 [49, 0] (replicate 16 97 @ [0]) = client1"
    by (simp add: fresh_client_def client1_def)
  moreover have "accepted ?w 0 6 8 client1 = broker1"
    unfolding broker1_def accepted_def set_epoll_sel
    by (subst mod_add_fire) (simp_all add: set_epoll_def)
  ultimately have "dispatch 1 accept0 ?w 0 = Inr (broker1, 0)"
    by (simp add: dispatch_def load_client_Some [OF svr] own_client_def)
  then show ?thesis
    by (simp add: worker_event_def epoll_masks data_fd_def lo32_0_def broker0_def env0_def)
qed

lemma broker1_reachable: "reachable env0 [49, 0] [57, 48, 57, 48, 0] (-1) (broker1, {#})"
  by (rule reachable_event [OF broker0_reachable broker0_listens _ broker1_accepted]) (simp add: reports_def epoll_masks)

lemma input_reachable: "reachable env0 [49, 0] [57, 48, 57, 48, 0] (-1) (with_input broker1 fd p, {#})"
  unfolding with_input_def by (rule reachable.step [OF broker1_reachable server_step.environment])

lemma pinged_reachable:
  obtains w cl where "reachable env0 [49, 0] [57, 48, 57, 48, 0] (-1) (w, {#})" "h_cells (hp_clients w) 3 = Some cl"
    "cl_reply cl = Some (ack_reply client1 PINGRESP 0)"
proof -
  define w0 where "w0 = with_input broker1 8 (wire_ack 8 (ping 0 0))"
  have w0: "reachable env0 [49, 0] [57, 48, 57, 48, 0] (-1) (w0, {#})"
    unfolding w0_def by (rule input_reachable)
  let ?w = "set_epoll w0 (ep_fire (sv_epoll w0) 8)"
  have cl: "h_cells (hp_clients ?w) 3 = Some client1" and run: "sv_config_run w0 = 3" and av: "h_avail (hp_pkts ?w) > 0"
    by (simp_all add: w0_def broker1_client)
      (simp_all add: with_input_def broker1_def accepted_def set_epoll_def broker0_def env0_def empty_heap_def started_def Let_def)
  have "packet_block (wire_ack 8 (ping 0 0))"
    by (simp add: packet_block_def wire_ack_def wire_header_def store32_def store16_def load32_def)
  from with_input_ready [OF this, of broker1 8]
  have "packet_ready ?w (cl_fd client1) (wire_ack 8 (ping 0 0))"
    by (simp add: packet_ready_def w0_def)
  then obtain es q h where req: "request_handler (Suc 0) ?w 3 =
      Inr (set_epoll ((set_rx ?w (cl_fd client1) es)\<lparr>hp_pkts := h,
        hp_clients := h_upd (hp_clients ?w) 3 (Some (client1\<lparr>cl_ptr := Some q,
          cl_reply := Some (ack_reply client1 PINGRESP 0), cl_last_action_time := db_now ?w, cl_ctx_handler := ReplyHandler\<rparr>))\<rparr>)
        (mod_epoll (sv_epoll ?w) (cl_fd client1) EPOLLOUT (Some 3)), 0)" (is "_ = Inr (?w1, 0)")
    by (rule request_ping [OF cl _ av])
  then have "worker_event (Suc 0) accept0 lo32_0 ?w EPOLLIN (EpPtr 3) = Inr (Some ?w1)"
    by (simp add: worker_event_def epoll_masks data_fd_def lo32_0_def run dispatch_def load_client_Some [OF cl])
  moreover have "sv_epoll w0 8 = Some (EPOLLIN OR EPOLLET OR EPOLLONESHOT, EpPtr 3)"
    by (simp add: w0_def broker1_epoll)
  moreover have "reports (EPOLLIN OR EPOLLET OR EPOLLONESHOT) EPOLLIN"
    by (simp add: reports_def epoll_masks)
  ultimately have "reachable env0 [49, 0] [57, 48, 57, 48, 0] (-1) (?w1, {#})"
    using reachable_event [OF w0] by blast
  moreover have "h_cells (hp_clients ?w1) 3 = Some (client1\<lparr>cl_ptr := Some q,
      cl_reply := Some (ack_reply client1 PINGRESP 0), cl_last_action_time := db_now ?w, cl_ctx_handler := ReplyHandler\<rparr>)"
    by simp
  ultimately show thesis
    by (rule that) simp
qed

text \<open>A registration of a client that waits, or is out of service, reports nothing.\<close>

lemma waiting_silent:
  assumes "busy ({}, D) w" and "c \<in> dom D" and "sv_epoll w fd = Some (m, EpPtr c)"
  shows "\<not> reports m evs"
proof -
  have "epoll_ok ({}, D) w"
    using assms(1) by (simp add: busy_def)
  from epoll_okD [OF this assms(3)] assms(2) show ?thesis
    by (auto simp: reports_def)
qed

lemma subscribers_live:
  assumes "db_inv w" and "c \<in> set (subscribers w t)"
  shows "h_cells (hp_clients w) c \<noteq> None"
proof -
  obtain N where N: "topics_ok w N"
    using assms(1) by (auto simp: db_inv_def)
  obtain tp where tp: "h_cells (hp_topics w) t = Some tp"
    using assms(2) by (cases "h_cells (hp_topics w) t") (auto simp: subscribers_def)
  have ok: "topic_ok w tp (N t)"
    by (rule topics_ok_topic [OF N tp])
  with assms(2) topic_subscribers [OF ok tp] show ?thesis
    by (auto simp: topic_ok_def sub_ok_def)
qed



text \<open>
  C4: A worker always runs the handler that fits the event: when an event of a client waits to be
  handled, in any reachable state, that client is live, in the accept or request phase if the event
  says that its socket is readable, and in the reply phase if it says that the socket is writable.\<close>

theorem event_matches_phase:
  assumes "reachable e addr port node (w, P)" and "se_avail e < 2 ^ 64" and "(evs, EpPtr c) \<in># P"
  shows "\<exists>cl. load_client w (Some c) = Inr cl \<and>
    (evs AND EPOLLIN \<noteq> 0 \<longrightarrow> cl_ctx_handler cl \<in> {AcceptHandler, RequestHandler}) \<and>
    (evs AND EPOLLOUT \<noteq> 0 \<longrightarrow> cl_ctx_handler cl = ReplyHandler)"
proof -
  obtain D where D: "busy ({}, D) w" "waits {} P D"
    using reachable_inv [OF assms(1,2)] by (auto simp: run_inv_def)
  then have "D c = Some evs"
    using assms(3) by (auto simp: waits_def)
  then obtain cl where "h_cells (hp_clients w) c = Some cl" "fits evs cl"
    by (rule take_event [OF D(1)])
  then show ?thesis
    by (cases "cl_ctx_handler cl") (auto simp: fits_def load_client_Some)
qed

lemma listening_reported:
  "reachable env0 [49, 0] [57, 48, 57, 48, 0] (-1) (set_epoll broker0 (ep_fire (sv_epoll broker0) 6), {#(EPOLLIN, EpPtr 0)#})"
  by (rule reachable.step [OF broker0_reachable server_step.report [OF broker0_listens]]) (simp add: reports_def epoll_masks)

lemma event_matches_phase_witness:
  "\<exists>cl. load_client (set_epoll broker0 (ep_fire (sv_epoll broker0) 6)) (Some 0) = Inr cl \<and>
    cl_ctx_handler cl \<in> {AcceptHandler, RequestHandler}"
proof -
  have "se_avail env0 < 2 ^ 64" "(EPOLLIN, EpPtr 0) \<in># {#(EPOLLIN, EpPtr (0 :: nat))#}"
    by (simp_all add: env0_def)
  from event_matches_phase [OF listening_reported this] show ?thesis
    by (auto simp: epoll_masks)
qed

text \<open>
  C5: One-shot registration keeps workers apart: in every reachable state a client has at most one event
  that is waiting for a worker, and while it has one no registration of that client can report another,
  so that two workers never run the handler of the same client for different events.\<close>

theorem one_event_per_client:
  assumes "reachable e addr port node (w, P)" and "se_avail e < 2 ^ 64" and "(evs, EpPtr c) \<in># P"
  shows "count P (evs, EpPtr c) = 1 \<and> (\<forall>evs'. (evs', EpPtr c) \<in># P \<longrightarrow> evs' = evs) \<and>
    (\<forall>fd m evs'. sv_epoll w fd = Some (m, EpPtr c) \<longrightarrow> \<not> reports m evs')"
proof -
  obtain D where D: "busy ({}, D) w" "waits {} P D"
    using reachable_inv [OF assms(1,2)] by (auto simp: run_inv_def)
  then have c: "D c = Some evs" "count P (evs, EpPtr c) = 1"
    using assms(3) by (auto simp: waits_def)
  have "evs' = evs" if "(evs', EpPtr c) \<in># P" for evs'
    using D(2) that c(1) by (auto simp: waits_def)
  with c(2) waiting_silent [OF D(1)] c(1) show ?thesis
    by blast
qed

lemma one_event_per_client_witness:
  "\<nexists>m evs. sv_epoll (set_epoll broker0 (ep_fire (sv_epoll broker0) 6)) 6 = Some (m, EpPtr 0) \<and> reports m evs"
proof -
  have "se_avail env0 < 2 ^ 64" "(EPOLLIN, EpPtr 0) \<in># {#(EPOLLIN, EpPtr (0 :: nat))#}"
    by (simp_all add: env0_def)
  from one_event_per_client [OF listening_reported this] show ?thesis
    by blast
qed

text \<open>
  C7: The union in a reply is always read as it was written: in every reachable state a pending reply
  with opcode \<open>PUBLISH\<close> holds a live publish packet that no other reply holds, every other
  pending reply a buffer, so that \<open>free_reply\<close> succeeds on each of them; and only clients in the
  reply phase have a pending reply.\<close>

theorem pending_reply_typed:
  assumes "reachable e addr port node (w, P)" and "se_avail e < 2 ^ 64" and "h_cells (hp_clients w) c = Some cl"
    and "cl_reply cl = Some r"
  shows "cl_ctx_handler cl = ReplyHandler \<and>
    (if rp_opcode r = PUBLISH
     then \<exists>p x. rp_body r = Published (Some p) \<and> pkt_publish w (Some p) = Inr x \<and>
       (\<forall>c' cl' r'. c' \<noteq> c \<longrightarrow> h_cells (hp_clients w) c' = Some cl' \<longrightarrow> cl_reply cl' = Some r' \<longrightarrow>
         rp_body r' \<noteq> Published (Some p))
     else \<exists>b. rp_body r = Payload (Some b)) \<and>
    (\<exists>w'. free_reply w (Some r) = Inr (w', None))"
proof -
  obtain D where ok: "clients_ok ({}, D) w"
    using reachable_inv [OF assms(1,2)] by (auto simp: run_inv_def busy_def)
  then have "reply_ok (hp_pkts w) cl" "phase_ok cl"
    using assms(3) by (auto simp: clients_ok_def)
  then have phase: "cl_ctx_handler cl = ReplyHandler"
    and body: "if rp_opcode r = PUBLISH then \<exists>p x. rp_body r = Published (Some p) \<and> h_cells (hp_pkts w) p = Some (PPublish x)
      else \<exists>b. rp_body r = Payload (Some b)"
    using assms(4) by (auto simp: phase_ok_def reply_ok_def)
  have "rp_body r' \<noteq> Published (Some p)" if "rp_body r = Published (Some p)" "c' \<noteq> c"
    "h_cells (hp_clients w) c' = Some cl'" "cl_reply cl' = Some r'" for p c' cl' r'
    using ok assms(3,4) that unfolding clients_ok_def owns_def by blast
  moreover have "pkt_publish w (Some p) = Inr x" if "h_cells (hp_pkts w) p = Some (PPublish x)" for p x
    using that by (simp add: pkt_publish_def h_load_Some)
  moreover obtain h where "free_reply w (Some r) = Inr (w\<lparr>hp_pkts := h\<rparr>, None)"
    by (rule free_reply_ok [OF ok assms(3,4)])
  ultimately show ?thesis
    using phase body by (cases "rp_opcode r = PUBLISH") fastforce+
qed

lemma pending_reply_typed_witness:
  "\<exists>w cl r w'. reachable env0 [49, 0] [57, 48, 57, 48, 0] (-1) (w, {#}) \<and> h_cells (hp_clients w) 3 = Some cl \<and>
    cl_reply cl = Some r \<and> cl_ctx_handler cl = ReplyHandler \<and> free_reply w (Some r) = Inr (w', None)"
proof -
  obtain w cl where w: "reachable env0 [49, 0] [57, 48, 57, 48, 0] (-1) (w, {#})" "h_cells (hp_clients w) 3 = Some cl"
    "cl_reply cl = Some (ack_reply client1 PINGRESP 0)"
    by (rule pinged_reachable)
  have "se_avail env0 < 2 ^ 64"
    by (simp add: env0_def)
  from pending_reply_typed [OF w(1) this w(2,3)] w show ?thesis
    by blast
qed

section \<open>The loops of the threads\<close>

text \<open>A worker that was handed a batch of events and takes its steps between those of others.\<close>

definition batch_events :: "batch \<Rightarrow> events" where
  "batch_events b = mset (map snd b)"

text \<open>An event that tells the worker to stop: no error, and its descriptor is taken for that of \<open>config.run\<close>.\<close>

definition stop_event :: "(nat \<Rightarrow> int) \<Rightarrow> server \<Rightarrow> u32 \<Rightarrow> nat ep_data \<Rightarrow> bool" where
  "stop_event lo32 w evs d \<longleftrightarrow> evs AND EPOLLERR = 0 \<and> evs AND EPOLLHUP = 0 \<and> (evs AND EPOLLIN \<noteq> 0 \<or> evs AND EPOLLOUT \<noteq> 0) \<and>
     data_fd lo32 d = uint (sv_config_run w)"

lemma worker_event_stop: "worker_event fuel e lo32 w evs d = Inr None \<Longrightarrow> stop_event lo32 w evs d"
  by (auto simp: worker_event_def stop_event_def res_simps split: if_splits ep_data.splits)

text \<open>
  What a worker does with its batch: it handles the events in order up to the one that tells it to
  stop, if there is one.
\<close>

lemma worker_batch_steps:
  assumes "worker_batch fuel lo32 w b = Inr (w', stopped)" and "batch_events b \<subseteq># P"
  shows "\<exists>h. server_step\<^sup>*\<^sup>* (w, P) (w', P - batch_events h) \<and>
    (if stopped then \<exists>e evs d rest. b = h @ (e, evs, d) # rest \<and> stop_event lo32 w' evs d else h = b)"
  using assms
proof (induction b arbitrary: w P)
  case Nil
  then show ?case
    by (auto simp: batch_events_def)
next
  case (Cons x b)
  obtain e evs d where x: "x = (e, evs, d)"
    by (cases x)
  have in_P: "(evs, d) \<in># P" and sub: "batch_events b \<subseteq># P - {#(evs, d)#}"
    using Cons.prems(2) by (auto simp: batch_events_def x insert_subset_eq_iff)
  obtain r where r: "worker_event fuel e lo32 w evs d = Inr r"
    using Cons.prems(1) by (auto simp: x res_simps)
  show ?case
  proof (cases r)
    case None
    then have "w' = w" "stopped" "stop_event lo32 w evs d"
      using Cons.prems(1) r worker_event_stop by (simp_all add: x)
    then show ?thesis
      by (intro exI [of _ "[]"]) (auto simp: batch_events_def x)
  next
    case (Some w1)
    with r have step: "server_step (w, P) (w1, P - {#(evs, d)#})"
      using server_step.handle [OF in_P] by blast
    have "worker_batch fuel lo32 w1 b = Inr (w', stopped)"
      using Cons.prems(1) r Some by (simp add: x)
    from Cons.IH [OF this sub] obtain h where h: "server_step\<^sup>*\<^sup>* (w1, P - {#(evs, d)#}) (w', P - {#(evs, d)#} - batch_events h)"
        "if stopped then \<exists>e evs d rest. b = h @ (e, evs, d) # rest \<and> stop_event lo32 w' evs d else h = b"
      by blast
    have "P - {#(evs, d)#} - batch_events h = P - batch_events (x # h)"
      by (simp add: batch_events_def x)
    with step h show ?thesis
      by (intro exI [of _ "x # h"]) (auto intro: converse_rtranclp_into_rtranclp)
  qed
qed

text \<open>The values of \<open>val\<close> after each call of \<open>eventfd_read\<close>, and a number of rounds.\<close>

fun flag_values :: "u64 \<Rightarrow> u64 option list \<Rightarrow> u64 list" where
  "flag_values v [] = []"
| "flag_values v (r # rs) = (let v' = (case r of None \<Rightarrow> v | Some x \<Rightarrow> x) in v' # flag_values v' rs)"

fun keepalive_rounds :: "nat \<Rightarrow> server \<Rightarrow> cerr + server" where
  "keepalive_rounds 0 w = Inr w"
| "keepalive_rounds (Suc n) w = bindR (keepalive_round w) (\<lambda>(w, _). keepalive_rounds n w)"

lemma keepalive_flag: "keepalive (Some v) w rs = keepalive_rounds (length (takeWhile (\<lambda>v. v \<noteq> 1) (flag_values v rs))) w"
proof (induction rs arbitrary: v w)
  case (Cons r rs)
  then show ?case
    by (cases r) (auto simp: Let_def split: prod.split intro!: arg_cong [where f = "bindR (keepalive_round w)"])
qed simp

lemma reachable_steps: "server_step\<^sup>*\<^sup>* s s' \<Longrightarrow> reachable e addr port node s \<Longrightarrow> reachable e addr port node s'"
  by (induction rule: rtranclp_induct) (auto intro: reachable.step)

lemma reachable_rounds: "keepalive_rounds n w = Inr w' \<Longrightarrow> reachable e addr port node (w, P) \<Longrightarrow> reachable e addr port node (w', P)"
proof (induction n arbitrary: w)
  case (Suc n)
  then obtain w1 rc where "keepalive_round w = Inr (w1, rc)" "keepalive_rounds n w1 = Inr w'"
    by (auto simp: res_simps)
  then show ?case
    using Suc.IH reachable.step [OF Suc.prems(2) server_step.keepalive] by blast
qed simp



end
