(* ===== verification/Sz_Commands.thy ===== *)
theory Sz_Commands
  imports Sz_Delivery Sz_Session
begin

text \<open>
  What the command handlers do to the database and to the reply of their client: subscribing,
  connecting, retained messages, and the packets that are not served.
\<close>

section \<open>Subscribing\<close>

lemma list_slots_pos:
  "list_slots (h, l) > 0 \<longleftrightarrow> h_avail h > 0 \<and> unat (l_len l) < 2 ^ 64 - 1"
  by (simp add: list_slots_def)

lemma lens_slots:
  assumes "lens_ok w" and "h_cells (hp_topics w) t = Some tp" and "h_avail (hp_nodes w) > 0"
  shows "list_slots (hp_nodes w, tp_subscribers tp) > 0"
proof -
  have "unat (l_len (tp_subscribers tp)) + h_avail (hp_nodes w) < 2 ^ 64"
    using assms(1,2) by (auto simp: lens_ok_def)
  with assms(3) show ?thesis
    by (simp add: list_slots_pos)
qed

text \<open>The topic of a name is found, or created while the table has room and memory is left.\<close>

definition topic_room :: "server \<Rightarrow> key \<Rightarrow> bool" where
  "topic_room w k \<longleftrightarrow> (hm_lookup (db_topics w) k = None \<longrightarrow> hm_room (db_topics w) k \<and> h_avail (hp_topics w) > 0)"

lemma topic_for_ok:
  assumes "db_inv w" and "lens_ok w" and "0 \<in> set name" and "topic_room w (c_str name)"
  obtains h m t tp where "topic_for w name = Inr (put_topic w t h m, Some t)" "db_inv (put_topic w t h m)"
    "lens_ok (put_topic w t h m)" "subscribers (put_topic w t h m) = subscribers w"
    "hm_lookup m = (hm_lookup (db_topics w))(c_str name \<mapsto> t)" "h_cells h t = Some tp" "tp_name tp = c_str name @ [0]"
    "hm_lookup (db_topics w) (c_str name) = None \<longrightarrow> h_cells (hp_topics w) t = None \<and> tp_retained tp = None"
    "hm_lookup (db_topics w) (c_str name) \<in> {None, Some t}"
proof (cases "hm_lookup (db_topics w) (c_str name)")
  case (Some t)
  then obtain tp where tp: "h_cells (hp_topics w) t = Some tp" "tp_name tp = c_str name @ [0]"
    by (rule db_inv_topic [OF assms(1)])
  have inv: "hm_inv (db_topics w)"
    using assms(1) by (simp add: db_inv_def)
  have w: "put_topic w t (hp_topics w) (db_topics w) = w"
    by (simp add: put_topic_def)
  have "topic_for w name = Inr (w, Some t)"
    using Some assms(3) by (simp add: topic_for_def key_of_def hm.get_ok [OF inv])
  with w Some tp assms(1,2) show thesis
    by (intro that [of t "hp_topics w" "db_topics w" tp]) (auto simp: fun_upd_idem)
next
  case None
  let ?k = "c_str name"
  have inv: "hm_inv (db_topics w)" "heap_ok (hp_topics w)"
    using assms(1) by (auto simp: db_inv_def)
  have room: "hm_room (db_topics w) ?k" "h_avail (hp_topics w) > 0"
    using assms(4) None by (auto simp: topic_room_def)
  obtain t h where t: "h_alloc (hp_topics w) (new_topic ?k) = Some (t, h)"
    using h_alloc_avail [OF room(2)] by blast
  obtain m where m: "hashmap_put 2 True (db_topics w) ?k (Some t) = Inr (m, 0)" "hm_inv m"
      "hm_lookup m = (hm_lookup (db_topics w))(?k := Some t)"
    using hm.put_ok [OF inv(1) room(1)] by blast
  note fresh = h_alloc_fresh [OF inv(2) t]
  note put = put_topic_ok [OF assms(1) fresh(2,3,1) m(2,3) c_str_no_nul]
  have "topic_for w name = Inr (put_topic w t h m, Some t)"
    using None assms(3) by (simp add: topic_for_def key_of_def hm.get_ok [OF inv(1)] create_topic_eq t m(1) put_topic_def)
  from this put(1) put(3) [OF assms(2)] put(2) m(3) show thesis
    by (rule that [where tp = "new_topic ?k"]) (use None fresh in \<open>simp_all add: new_topic_def\<close>)
qed

text \<open>The client after its subscription: the acknowledgement is pending, with the retained message.\<close>

definition suback_client :: "client \<Rightarrow> ptr \<Rightarrow> client" where
  "suback_client cl retained = cl\<lparr>cl_reply := Some ((ack_reply cl SUBACK 0)\<lparr>rp_retained := Some retained\<rparr>)\<rparr>"

lemma put_subs_server [simp]:
  "hp_msgs (put_subs w t tp h l) = hp_msgs w" "hp_pkts (put_subs w t tp h l) = hp_pkts w"
  "db_now (put_subs w t tp h l) = db_now w"
  by (simp_all add: put_subs_def)

lemma put_subs_wire [simp]:
  fixes w :: server
  shows "sv_epoll (put_subs w t tp h l) = sv_epoll w" "sv_tx (put_subs w t tp h l) = sv_tx w"
    "sv_wire (put_subs w t tp h l) = sv_wire w" "sv_junk (put_subs w t tp h l) = sv_junk w"
  by (simp_all add: put_subs_def)

lemma put_topic_wire [simp]:
  fixes w :: server
  shows "sv_epoll (put_topic w t h m) = sv_epoll w" "sv_tx (put_topic w t h m) = sv_tx w"
    "sv_wire (put_topic w t h m) = sv_wire w" "sv_junk (put_topic w t h m) = sv_junk w"
  by (simp_all add: put_topic_def)

text \<open>A new subscription and a changed client leave the database as it is.\<close>

lemma db_inv_fresh_sub:
  assumes "db_inv w" and "h_alloc (hp_subs w) s = Some (a, h)" and "h_cells (hp_clients w) c = Some cl"
  shows "db_inv (w\<lparr>hp_clients := h_upd (hp_clients w) c (Some cl'), hp_subs := h\<rparr>)" (is "db_inv ?w")
    and "subscribers (w\<lparr>hp_clients := h_upd (hp_clients w) c (Some cl'), hp_subs := h\<rparr>) = subscribers w"
proof -
  have ok: "heap_ok (hp_subs w)" "heap_ok (hp_nodes w)" "heap_ok (hp_clients w)"
    using assms(1) by (auto simp: db_inv_def)
  note fresh = h_alloc_fresh [OF ok(1) assms(2)]
  have "h_ext (hp_subs w) h"
    using fresh(1,2) by (auto simp: h_ext_def)
  then have "grows w ?w"
    using assms(1,3) ok fresh(3) by (auto simp: grows_def db_inv_def h_ext_def)
  from grows_db [OF assms(1) this] show "db_inv ?w" "subscribers ?w = subscribers w"
    by simp_all
qed

lemma db_inv_client:
  assumes "db_inv w" and "h_cells (hp_clients w) c \<noteq> None"
  shows "db_inv (w\<lparr>hp_clients := h_upd (hp_clients w) c (Some cl'), hp_pkts := h\<rparr>)" (is "db_inv ?w")
    and "subscribers (w\<lparr>hp_clients := h_upd (hp_clients w) c (Some cl'), hp_pkts := h\<rparr>) = subscribers w"
proof -
  have "heap_ok (hp_clients w)" "hm_inv (db_clients w)" "\<not> db_locked w"
    using assms(1) by (auto simp: db_inv_def)
  then show "db_inv ?w"
    by (intro db_inv_frame [OF assms(1)]) (use assms(2) in auto)
qed (rule subscribers_cong, simp_all)

lemma subscribe_ok:
  assumes "db_inv w" and "lens_ok w" and "h_cells (hp_clients w) c = Some cl" and "cl_ptr cl = Some p"
    and "h_cells (hp_pkts w) p = Some (PSubscribe pkt)" and "0 \<in> set (sb_topic pkt)" and "sb_topic_len pkt \<noteq> 0"
    and "topic_room w (c_str (sb_topic pkt))" and "h_avail (hp_subs w) > 0" and "h_avail (hp_nodes w) > 0"
  obtains w' t tp where "subscribe_handler w (Some c) = Inr (w', 0)" "db_inv w'"
    "subscribers w' = (subscribers w)(t := c # subscribers w t)"
    "hm_lookup (db_topics w') = (hm_lookup (db_topics w))(c_str (sb_topic pkt) \<mapsto> t)"
    "h_cells (hp_topics w') t = Some tp" "hm_lookup (db_topics w) (c_str (sb_topic pkt)) \<in> {None, Some t}"
    "hm_lookup (db_topics w) (c_str (sb_topic pkt)) = None \<longrightarrow> h_cells (hp_topics w) t = None \<and> tp_retained tp = None"
    "h_cells (hp_clients w') = (h_cells (hp_clients w))(c \<mapsto> suback_client cl (tp_retained tp))"
    "hp_pkts w' = h_upd (hp_pkts w) p None" "hp_msgs w' = hp_msgs w" "sv_epoll w' = sv_epoll w" "sv_tx w' = sv_tx w"
    "sv_wire w' = sv_wire w" "sv_junk w' = sv_junk w" "db_now w' = db_now w"
proof -
  let ?k = "c_str (sb_topic pkt)"
  obtain h m t tp where t: "topic_for w (sb_topic pkt) = Inr (put_topic w t h m, Some t)" "db_inv (put_topic w t h m)"
      "lens_ok (put_topic w t h m)" "subscribers (put_topic w t h m) = subscribers w"
      "hm_lookup m = (hm_lookup (db_topics w))(?k \<mapsto> t)" "h_cells h t = Some tp" "tp_name tp = ?k @ [0]"
      "hm_lookup (db_topics w) ?k = None \<longrightarrow> h_cells (hp_topics w) t = None \<and> tp_retained tp = None"
      "hm_lookup (db_topics w) ?k \<in> {None, Some t}"
    by (rule topic_for_ok [OF assms(1,2,6,8)])
  let ?w1 = "put_topic w t h m" and ?cl = "cl\<lparr>cl_reply := Some (ack_reply cl SUBACK 0)\<rparr>"
  let ?s = "\<lparr>sn_client = Some c, sn_topic = tp_name tp, sn_qos = sb_qos pkt\<rparr>"
  obtain s hs where s: "h_alloc (hp_subs ?w1) ?s = Some (s, hs)"
    using h_alloc_avail [of "hp_subs ?w1" ?s] assms(9) by auto
  have hs: "h_cells hs s = Some ?s"
    using h_alloc_fresh(2) [OF _ s] assms(1) by (simp add: db_inv_def)
  let ?w2 = "?w1\<lparr>hp_clients := h_upd (hp_clients w) c (Some ?cl), hp_subs := hs\<rparr>"
  have w2: "db_inv ?w2" "subscribers ?w2 = subscribers w"
    using db_inv_fresh_sub [OF t(2) s, of c cl ?cl] assms(3) t(4) by simp_all
  have slots: "list_slots (hp_nodes ?w2, tp_subscribers tp) > 0"
    using lens_slots [OF t(3), of t tp] t(6) assms(10) by simp
  obtain hn l where add: "add_subscriber ?w2 (Some s) = Inr (put_subs ?w2 t tp hn l)" "db_inv (put_subs ?w2 t tp hn l)"
      "subscribers (put_subs ?w2 t tp hn l) = (subscribers ?w2)(t := c # subscribers ?w2 t)"
    by (rule add_subscriber_ok [OF w2(1), of s ?s c ?k t tp])
      (use hs slots in \<open>simp_all add: t(5,6,7) c_str_no_nul\<close>)
  let ?w3 = "put_subs ?w2 t tp hn l"
  let ?cl3 = "suback_client cl (tp_retained tp)"
  let ?w' = "?w3\<lparr>hp_clients := h_upd (hp_clients ?w3) c (Some ?cl3), hp_pkts := h_upd (hp_pkts w) p None\<rparr>"
  have free: "free_subscribe (hp_pkts w) (Some p) = Inr (h_upd (hp_pkts w) p None, None)"
    using assms(5) by (simp add: free_subscribe_def free_packet_def heap_simps)
  have run: "subscribe_handler w (Some c) = Inr (?w', 0)"
    using assms(3-5,7) s
    by (simp add: subscribe_handler_def object_simps pkt_subscribe_def h_load_Some t(1,6) set_ack_reply_eq [where c = c and cl = cl]
        create_subscription_def add(1) suback_client_def free)
  have db: "db_inv ?w'" "subscribers ?w' = subscribers ?w3"
    by (rule db_inv_client [OF add(2)], simp)+
  show thesis
    by (rule that [of ?w' t "tp\<lparr>tp_subscribers := l\<rparr>"])
      (use run db add(3) w2(2) t(5,8,9) assms(3) in \<open>simp_all add: suback_client_def\<close>)
qed

lemma subscribe_empty:
  assumes "h_cells (hp_clients w) c = Some cl" and "cl_ptr cl = Some p"
    and "h_cells (hp_pkts w) p = Some (PSubscribe pkt)" and "sb_topic_len pkt = 0"
  shows "subscribe_handler w (Some c) =
    Inr (w\<lparr>hp_clients := h_upd (hp_clients w) c (Some (cl\<lparr>cl_reply := Some (ack_reply cl SUBACK 1)\<rparr>)),
      hp_pkts := h_upd (hp_pkts w) p None\<rparr>, 0)"
proof -
  have "free_subscribe (hp_pkts w) (Some p) = Inr (h_upd (hp_pkts w) p None, None)"
    using assms(3) by (simp add: free_subscribe_def free_packet_def heap_simps)
  with assms show ?thesis
    by (simp add: subscribe_handler_def object_simps pkt_subscribe_def h_load_Some set_ack_reply_eq [OF assms(1)])
qed

section \<open>Connecting\<close>

lemma db_inv_table:
  assumes "db_inv w" and "hm_inv m"
  shows "db_inv (w\<lparr>db_clients := m\<rparr>)" and "subscribers (w\<lparr>db_clients := m\<rparr>) = subscribers w"
proof -
  have "\<not> db_locked w" "heap_ok (hp_clients w)"
    using assms(1) by (auto simp: db_inv_def)
  then show "db_inv (w\<lparr>db_clients := m\<rparr>)"
    by (intro db_inv_frame [OF assms(1)]) (use assms(2) in auto)
qed (rule subscribers_cong, simp_all)

lemma db_inv_table_client:
  assumes "db_inv w" and "hm_inv m" and "h_cells (hp_clients w) c \<noteq> None"
  shows "db_inv (w\<lparr>db_clients := m, hp_clients := h_upd (hp_clients w) c (Some cl)\<rparr>)"
    and "subscribers (w\<lparr>db_clients := m, hp_clients := h_upd (hp_clients w) c (Some cl)\<rparr>) = subscribers w"
proof -
  have "w\<lparr>db_clients := m, hp_clients := h_upd (hp_clients w) c (Some cl)\<rparr> =
      (w\<lparr>db_clients := m\<rparr>)\<lparr>hp_clients := h_upd (hp_clients (w\<lparr>db_clients := m\<rparr>)) c (Some cl), hp_pkts := hp_pkts w\<rparr>"
    by simp
  then show "db_inv (w\<lparr>db_clients := m, hp_clients := h_upd (hp_clients w) c (Some cl)\<rparr>)"
      "subscribers (w\<lparr>db_clients := m, hp_clients := h_upd (hp_clients w) c (Some cl)\<rparr>) = subscribers w"
    using db_inv_client [OF db_inv_table(1) [OF assms(1,2)], where c = c and cl' = cl and h = "hp_pkts w"] db_inv_table(2) [OF assms(1,2)] assms(3)
    by simp_all
qed

text \<open>The end of \<open>connect_handler\<close>: the acknowledgement is pending and the packet is released.\<close>

definition connected :: "server \<Rightarrow> nat \<Rightarrow> client \<Rightarrow> u8 \<Rightarrow> nat \<Rightarrow> server" where
  "connected w c cl rc p = w\<lparr>hp_clients := h_upd (hp_clients w) c
     (Some (cl\<lparr>cl_reply := Some (ack_reply cl CONNACK rc), cl_last_action_time := db_now w\<rparr>)), hp_pkts := h_upd (hp_pkts w) p None\<rparr>"

lemma connect_ends:
  assumes "h_cells (hp_clients w) c = Some cl" and "h_cells (hp_pkts w) p = Some (PConnect pkt)"
  shows "bindR (set_ack_reply w (Some c) CONNACK rc) (\<lambda>w.
     bindR (update_client_last_action w (Some c)) (\<lambda>w.
     bindR (free_connect (hp_pkts w) (Some p)) (\<lambda>(h, _). Inr (w\<lparr>hp_pkts := h\<rparr>, 0 :: int)))) =
    Inr (connected w c cl rc p, 0)"
  using assms
  by (simp add: set_ack_reply_eq object_simps update_client_last_action_def free_connect_def free_packet_def heap_simps
      connected_def)

lemma connected_ok:
  assumes "db_inv w" and "h_cells (hp_clients w) c \<noteq> None"
  shows "db_inv (connected w c cl rc p)" and "subscribers (connected w c cl rc p) = subscribers w"
    and "db_clients (connected w c cl rc p) = db_clients w" and "h_cells (hp_pkts (connected w c cl rc p)) p = None"
    and "h_cells (hp_clients (connected w c cl rc p)) c =
      Some (cl\<lparr>cl_reply := Some (ack_reply cl CONNACK rc), cl_last_action_time := db_now w\<rparr>)"
  unfolding connected_def using db_inv_client [OF assms] by simp_all

lemma connect_refused:
  assumes "h_cells (hp_clients w) c = Some cl" and "cl_ptr cl = Some p" and "h_cells (hp_pkts w) p = Some (PConnect pkt)"
    and "cn_idlen pkt = 0"
  shows "connect_handler w (Some c) = Inr (connected w c cl 1 p, 0)"
  using assms by (simp add: connect_handler_def object_simps pkt_connect_def h_load_Some connect_ends)

lemma connect_kept:
  assumes "h_cells (hp_clients w) c = Some cl" and "cl_ptr cl = Some p" and "h_cells (hp_pkts w) p = Some (PConnect pkt)"
    and "cn_idlen pkt \<noteq> 0" and "cn_clean_session pkt \<noteq> 1" and "add_client w (Some c) = Inr (w\<lparr>db_clients := m\<rparr>)"
  shows "connect_handler w (Some c) = Inr (connected (w\<lparr>db_clients := m\<rparr>) c cl 0 p, 0)"
  using assms by (simp add: connect_handler_def object_simps pkt_connect_def h_load_Some connect_ends [where pkt = pkt])

lemma connect_clean:
  assumes "h_cells (hp_clients w) c = Some cl" and "cl_ptr cl = Some p" and "h_cells (hp_pkts w) p = Some (PConnect pkt)"
    and "cn_idlen pkt \<noteq> 0" and "cn_clean_session pkt = 1" and "0 \<in> set (cn_id pkt)"
    and "del_client w (Some c) = Inr (w\<lparr>db_clients := m\<rparr>)" and "free_id (w\<lparr>db_clients := m\<rparr>) (Some c) cl = Inr ()"
    and "cl' = cl\<lparr>cl_id := Some (c_str (cn_id pkt) @ [0])\<rparr>"
    and "w1 = w\<lparr>db_clients := m, hp_clients := h_upd (hp_clients w) c (Some cl')\<rparr>"
    and "add_client w1 (Some c) = Inr (w1\<lparr>db_clients := m'\<rparr>)"
  shows "connect_handler w (Some c) = Inr (connected (w1\<lparr>db_clients := m'\<rparr>) c cl' 0 p, 0)"
  using assms
  by (simp add: connect_handler_def object_simps pkt_connect_def h_load_Some c_strdup_def connect_ends [where pkt = pkt and cl = cl'])

section \<open>Packets that are not served\<close>

definition served :: "u8 set" where
  "served = {CONNECT, SUBSCRIBE, PUBLISH, SUBACK, PUBACK, PINGREQ}"

lemma request_unserved:
  assumes "h_cells (hp_clients w) c = Some cl" and "packet_ready w (cl_fd cl) p" and "p ! 0 \<notin> served"
  obtains es where "request_handler (Suc f) w c = Inr (set_rx w (cl_fd cl) es, -1)"
proof -
  obtain r where r: "ringbuf_init True (Some (map (sv_junk w) [0..<RBUF_SIZE])) (of_nat RBUF_SIZE) = Inr r" "ring_inv r"
      "ring_contents r = []" "unat (rb_max r) = RBUF_SIZE"
    by (rule request_ring)
  obtain rest where p: "Chunk [] \<notin> set (sv_rx w (cl_fd cl))" "ready (sv_rx w (cl_fd cl)) = p @ rest"
      "packet_block p" "length p \<le> unat (rb_max r)"
    using assms(2) r(4) by (auto simp: packet_ready_def)
  obtain es r' where es: "recv_packet (Suc f) (sv_junk w) (sv_rx w (cl_fd cl)) r =
      Inr (es, r', Some (\<lparr>b_size = of_nat (length p), b_pos = 0, b_data = p\<rparr>, p ! 0))"
    by (rule recv_packet_ready [OF r(2,3) p])
  have "unpack_packet w' (p ! 0) b = Inr (w', None)" for w' b
    using assms(3) by (auto simp: unpack_packet_def served_def)
  then have "request_handler (Suc f) w c = Inr (set_rx w (cl_fd cl) es, -1)"
    by (simp add: request_handler_def load_client_Some [OF assms(1)] r(1) es buffer_destroy_def Let_def)
  then show thesis
    by (rule that)
qed

text \<open>A client whose registration nobody arms again is out of service.\<close>

lemma waits_stranded:
  assumes "waits {} P D" and "(evs, EpPtr c) \<in># P"
  shows "waits {c} (P - {#(evs, EpPtr c)#}) D"
proof -
  have "waits {} (P - {#(evs, EpPtr c)#}) (D(c := None))"
    by (rule waits_handled [OF assms])
  then have "a \<noteq> c \<and> D a = Some evs' \<and> count (P - {#(evs, EpPtr c)#}) (evs', EpPtr a) = 1"
    if "(evs', EpPtr a) \<in># P - {#(evs, EpPtr c)#}" for a evs'
    using that unfolding waits_def by (metis fun_upd_apply option.distinct(1))
  moreover have "c \<in> dom D"
    using assms by (auto simp: waits_def)
  ultimately show ?thesis
    unfolding waits_def by blast
qed

lemma out_of_service:
  assumes "run_inv {c} (w, P)"
  shows "(evs, EpPtr c) \<notin># P" and "sv_epoll w fd = Some (m, EpPtr c) \<Longrightarrow> \<not> reports m evs"
proof -
  obtain D where D: "busy ({}, D) w" "waits {c} P D"
    using assms by (auto simp: run_inv_def)
  show "(evs, EpPtr c) \<notin># P"
    using D(2) by (auto simp: waits_def)
  show "sv_epoll w fd = Some (m, EpPtr c) \<Longrightarrow> \<not> reports m evs"
    by (rule waiting_silent [OF D(1)]) (use D(2) in \<open>auto simp: waits_def\<close>)
qed

section \<open>Properties\<close>

text \<open>The example of the delivery theory with a further subscription of the client to its topic.\<close>

definition subscribe1 :: "u16 \<Rightarrow> subscribe" where
  "subscribe1 n = \<lparr>sb_header = \<lparr>hd_opcode = SUBSCRIBE, hd_size = 9\<rparr>, sb_topic_len = n, sb_qos = 0, sb_topic = [99, 0]\<rparr>"

definition server2 :: "packet \<Rightarrow> server" where
  "server2 pkt = server1\<lparr>hp_clients := h_upd (hp_clients server1) 0 (Some (client0\<lparr>cl_ptr := Some 0\<rparr>)), hp_pkts := one_cell 0 pkt\<rparr>"

lemma server2_sel [simp]:
  "hp_nodes (server2 pkt) = hp_nodes server1" "hp_topics (server2 pkt) = hp_topics server1" "hp_subs (server2 pkt) = hp_subs server1"
  "hp_pkts (server2 pkt) = one_cell 0 pkt" "h_cells (hp_clients (server2 pkt)) 0 = Some (client0\<lparr>cl_ptr := Some 0\<rparr>)"
  "db_topics (server2 pkt) = hm_c" "db_clients (server2 pkt) = hm0" "sv_wire (server2 pkt) = (\<lambda>_. [])"
  by (simp_all add: server2_def)

lemma server2_ok: "db_inv (server2 pkt)" "subscribers (server2 pkt) = subscribers server1" "lens_ok (server2 pkt)"
proof -
  have "h_cells (hp_clients server1) 0 \<noteq> None"
    by simp
  from db_inv_client [OF server1_ok(1) this] show "db_inv (server2 pkt)" "subscribers (server2 pkt) = subscribers server1"
    unfolding server2_def by blast+
  show "lens_ok (server2 pkt)"
    by (auto simp: lens_ok_def db1_linked_def split: if_splits)
qed

text \<open>
  C9: Subscribing: on a consistent database, for a client whose packet names a topic and while the
  table has room and memory is left, \<open>subscribe_handler\<close> returns with the client put in front of the
  subscribers of the topic of that name, which it creates when there was none; no other binding
  and no other topic's subscribers change, the packet is released, and the pending reply is a
  \<open>SUBACK\<close> with code 0 that carries the topic's retained message.  An empty topic is refused with
  code 1 and leaves the database alone, but the reply handler then reads the indeterminate
  \<open>retained\<close> member of that reply.\<close>

theorem subscribe_registers:
  assumes "db_inv w" and "lens_ok w" and "h_cells (hp_clients w) c = Some cl" and "cl_ptr cl = Some p"
    and "h_cells (hp_pkts w) p = Some (PSubscribe pkt)" and "0 \<in> set (sb_topic pkt)"
  shows "(sb_topic_len pkt \<noteq> 0 \<longrightarrow> topic_room w (c_str (sb_topic pkt)) \<longrightarrow> h_avail (hp_subs w) > 0 \<longrightarrow> h_avail (hp_nodes w) > 0 \<longrightarrow>
      (\<exists>w' t tp. subscribe_handler w (Some c) = Inr (w', 0) \<and> db_inv w' \<and>
        hm_lookup (db_topics w') = (hm_lookup (db_topics w))(c_str (sb_topic pkt) \<mapsto> t) \<and>
        (hm_lookup (db_topics w) (c_str (sb_topic pkt)) \<in> {None, Some t}) \<and>
        (hm_lookup (db_topics w) (c_str (sb_topic pkt)) = None \<longrightarrow> subscribers w t = []) \<and>
        subscribers w' = (subscribers w)(t := c # subscribers w t) \<and> h_cells (hp_topics w') t = Some tp \<and>
        h_cells (hp_clients w') c = Some (cl\<lparr>cl_reply := Some ((ack_reply cl SUBACK 0)\<lparr>rp_retained := Some (tp_retained tp)\<rparr>)\<rparr>) \<and>
        h_cells (hp_pkts w') p = None)) \<and>
    (sb_topic_len pkt = 0 \<longrightarrow>
      (\<exists>w'. subscribe_handler w (Some c) = Inr (w', 0) \<and> db_topics w' = db_topics w \<and> subscribers w' = subscribers w \<and>
        h_cells (hp_clients w') c = Some (cl\<lparr>cl_reply := Some (ack_reply cl SUBACK 1)\<rparr>) \<and>
        reply_handler w' c = Inl UninitRead))"
proof (intro conjI impI)
  assume a: "sb_topic_len pkt \<noteq> 0" "topic_room w (c_str (sb_topic pkt))" "h_avail (hp_subs w) > 0" "h_avail (hp_nodes w) > 0"
  obtain w' t tp where w': "subscribe_handler w (Some c) = Inr (w', 0)" "db_inv w'"
      "subscribers w' = (subscribers w)(t := c # subscribers w t)"
      "hm_lookup (db_topics w') = (hm_lookup (db_topics w))(c_str (sb_topic pkt) \<mapsto> t)" "h_cells (hp_topics w') t = Some tp"
      "hm_lookup (db_topics w) (c_str (sb_topic pkt)) \<in> {None, Some t}"
      "hm_lookup (db_topics w) (c_str (sb_topic pkt)) = None \<longrightarrow> h_cells (hp_topics w) t = None \<and> tp_retained tp = None"
      "h_cells (hp_clients w') = (h_cells (hp_clients w))(c \<mapsto> suback_client cl (tp_retained tp))"
      "hp_pkts w' = h_upd (hp_pkts w) p None"
    by (rule subscribe_ok [OF assms a])
  have "subscribers w t = []" if "hm_lookup (db_topics w) (c_str (sb_topic pkt)) = None"
    using w'(7) that by (simp add: subscribers_def)
  with w' show "\<exists>w' t tp. subscribe_handler w (Some c) = Inr (w', 0) \<and> db_inv w' \<and>
        hm_lookup (db_topics w') = (hm_lookup (db_topics w))(c_str (sb_topic pkt) \<mapsto> t) \<and>
        (hm_lookup (db_topics w) (c_str (sb_topic pkt)) \<in> {None, Some t}) \<and>
        (hm_lookup (db_topics w) (c_str (sb_topic pkt)) = None \<longrightarrow> subscribers w t = []) \<and>
        subscribers w' = (subscribers w)(t := c # subscribers w t) \<and> h_cells (hp_topics w') t = Some tp \<and>
        h_cells (hp_clients w') c = Some (cl\<lparr>cl_reply := Some ((ack_reply cl SUBACK 0)\<lparr>rp_retained := Some (tp_retained tp)\<rparr>)\<rparr>) \<and>
        h_cells (hp_pkts w') p = None"
    by (intro exI [of _ w'] exI [of _ t] exI [of _ tp]) (simp add: suback_client_def)
next
  assume "sb_topic_len pkt = 0"
  let ?cl = "cl\<lparr>cl_reply := Some (ack_reply cl SUBACK 1)\<rparr>"
  let ?w = "w\<lparr>hp_clients := h_upd (hp_clients w) c (Some ?cl), hp_pkts := h_upd (hp_pkts w) p None\<rparr>"
  have "subscribe_handler w (Some c) = Inr (?w, 0)"
    by (rule subscribe_empty [OF assms(3-5)]) fact
  moreover have "subscribers ?w = subscribers w"
    using db_inv_client(2) [OF assms(1)] assms(3) by simp
  moreover have "reply_handler ?w c = Inl UninitRead"
    by (simp add: reply_handler_def object_simps ack_reply_def opcode_defs)
  ultimately show "\<exists>w'. subscribe_handler w (Some c) = Inr (w', 0) \<and> db_topics w' = db_topics w \<and> subscribers w' = subscribers w \<and>
        h_cells (hp_clients w') c = Some (cl\<lparr>cl_reply := Some (ack_reply cl SUBACK 1)\<rparr>) \<and>
        reply_handler w' c = Inl UninitRead"
    by (intro exI [of _ ?w]) simp
qed

lemma subscribe_registers_witness:
  "\<exists>w' t. subscribe_handler (server2 (PSubscribe (subscribe1 1))) (Some 0) = Inr (w', 0) \<and> db_inv w' \<and>
    hm_lookup (db_topics w') [99] = Some t \<and> subscribers w' t = [0, 0]"
proof -
  let ?w = "server2 (PSubscribe (subscribe1 1))"
  have pkt: "sb_topic (subscribe1 1) = [99, 0]" "c_str [99, 0] = [99]" "sb_topic_len (subscribe1 1) = 1"
    by (simp_all add: subscribe1_def c_str_def)
  have res: "topic_room ?w [99]" "h_avail (hp_subs ?w) > 0" "h_avail (hp_nodes ?w) > 0"
    by (simp_all add: topic_room_def hm_lookup_hm_c db1_linked_def)
  have "subscribers ?w 1 = [0]"
    unfolding server2_ok server1_ok(2) ..
  then show ?thesis
    using subscribe_registers [OF server2_ok(1,3), of "PSubscribe (subscribe1 1)" 0 _ 0 "subscribe1 1"] res
    by (auto simp: pkt hm_lookup_hm_c)
qed

text \<open>
  C8: A client that sends a packet the broker cannot unpack is never served again.  That includes
  \<open>UNSUBSCRIBE\<close> and \<open>DISCONNECT\<close>, for which there are handlers: when the socket of a client in the
  request phase was reported readable and such a packet is ready on it, the worker that handles the event
  consumes the packet, sends nothing and leaves the one-shot registration disarmed, and in no
  state the broker reaches afterwards is an event of that client waiting or can one be reported.\<close>

theorem unserved_stranded:
  assumes "reachable e addr port node (w, P)" and "se_avail e < 2 ^ 64" and "(EPOLLIN, EpPtr c) \<in># P"
    and "h_cells (hp_clients w) c = Some cl" and "cl_ctx_handler cl = RequestHandler"
    and "packet_ready w (cl_fd cl) p" and "p ! 0 \<notin> {CONNECT, SUBSCRIBE, PUBLISH, SUBACK, PUBACK, PINGREQ}"
    and "lo32 c \<noteq> uint (sv_config_run w)"
  shows "\<exists>w1. worker_event (Suc f) e' lo32 w EPOLLIN (EpPtr c) = Inr (Some w1) \<and> sv_wire w1 = sv_wire w \<and>
    (\<forall>w' P'. server_step\<^sup>*\<^sup>* (w1, P - {#(EPOLLIN, EpPtr c)#}) (w', P') \<longrightarrow>
      (\<forall>evs. (evs, EpPtr c) \<notin># P' \<and> (\<forall>fd m. sv_epoll w' fd = Some (m, EpPtr c) \<longrightarrow> \<not> reports m evs)))"
proof -
  obtain D where D: "busy ({}, D) w" "waits {} P D"
    using reachable_inv [OF assms(1,2)] by (auto simp: run_inv_def)
  have "D c = Some EPOLLIN"
    using D(2) assms(3) by (auto simp: waits_def)
  then obtain es where es: "request_handler (Suc f) w c = Inr (set_rx w (cl_fd cl) es, -1)"
    using request_unserved [OF assms(4,6), of f] assms(7) by (auto simp: served_def)
  let ?w1 = "set_rx w (cl_fd cl) es" and ?P1 = "P - {#(EPOLLIN, EpPtr c)#}"
  have run: "worker_event (Suc f) e' lo32 w EPOLLIN (EpPtr c) = Inr (Some ?w1)"
    using assms(5,8) es by (simp add: worker_event_def epoll_masks data_fd_def dispatch_def load_client_Some [OF assms(4)])
  have "waits {c} ?P1 D"
    by (rule waits_stranded [OF D(2) assms(3)])
  then have "run_inv {c} (?w1, ?P1)"
    using busy_set_rx [OF D(1)] by (auto simp: run_inv_def)
  then have "run_inv {c} (w', P')" if "server_step\<^sup>*\<^sup>* (?w1, ?P1) (w', P')" for w' P'
    using server_steps_inv [OF that] by blast
  then have "(evs, EpPtr c) \<notin># P' \<and> (\<forall>fd m. sv_epoll w' fd = Some (m, EpPtr c) \<longrightarrow> \<not> reports m evs)"
    if "server_step\<^sup>*\<^sup>* (?w1, ?P1) (w', P')" for w' P' evs
    using that out_of_service by blast
  with run show ?thesis
    by (intro exI [of _ ?w1]) simp
qed

lemma unserved_stranded_witness:
  "\<exists>w w1. reachable env0 [49, 0] [57, 48, 57, 48, 0] (-1) (w, {#(EPOLLIN, EpPtr 3)#}) \<and>
    ready (sv_rx w 8) = [0xF0, 0, 0, 0, 5] \<and> worker_event 1 accept0 lo32_0 w EPOLLIN (EpPtr 3) = Inr (Some w1) \<and> sv_wire w1 8 = [] \<and>
    (\<nexists>w' P' m evs. server_step\<^sup>*\<^sup>* (w1, {#}) (w', P') \<and> sv_epoll w' 8 = Some (m, EpPtr 3) \<and> reports m evs)"
proof -
  let ?p = "[0xF0, 0, 0, 0, 5] :: block"
  let ?in = "with_input broker1 8 ?p"
  let ?w = "set_epoll ?in (ep_fire (sv_epoll ?in) 8)"
  have "sv_epoll ?in 8 = Some (EPOLLIN OR EPOLLET OR EPOLLONESHOT, EpPtr 3)"
    by (simp add: broker1_epoll)
  from reachable.step [OF input_reachable server_step.report [OF this]]
  have w: "reachable env0 [49, 0] [57, 48, 57, 48, 0] (-1) (?w, {#(EPOLLIN, EpPtr 3)#})"
    by (simp add: reports_def epoll_masks)
  have "packet_block ?p" and op: "?p ! 0 \<notin> {CONNECT, SUBSCRIBE, PUBLISH, SUBACK, PUBACK, PINGREQ}"
    by (simp_all add: packet_block_def load32_def opcode_defs)
  from with_input_ready [OF this(1), of broker1 8] have "packet_ready ?w (cl_fd client1) ?p"
    by (simp add: packet_ready_def)
  moreover have "lo32_0 3 \<noteq> uint (sv_config_run ?w)"
    using uint_bounded [of "sv_config_run ?w"] by (auto simp: lo32_0_def)
  moreover have "se_avail env0 < 2 ^ 64" "h_cells (hp_clients ?w) 3 = Some client1" "sv_wire ?w = (\<lambda>_. [])"
    by (simp_all add: env0_def broker1_client) (simp add: broker1_def accepted_def)
  ultimately obtain w1 where "worker_event (Suc 0) accept0 lo32_0 ?w EPOLLIN (EpPtr 3) = Inr (Some w1)" "sv_wire w1 = (\<lambda>_. [])"
      "\<forall>w' P'. server_step\<^sup>*\<^sup>* (w1, {#}) (w', P') \<longrightarrow>
        (\<forall>evs. (evs, EpPtr 3) \<notin># P' \<and> (\<forall>fd m. sv_epoll w' fd = Some (m, EpPtr 3) \<longrightarrow> \<not> reports m evs))"
    using unserved_stranded [OF w, of 3 client1 ?p lo32_0 0 accept0] op by auto
  then show ?thesis
    using w by (intro exI [of _ ?w] exI [of _ w1]) auto
qed


definition connect1 :: connect where
  "connect1 = \<lparr>cn_header = \<lparr>hd_opcode = CONNECT, hd_size = 11\<rparr>, cn_idlen = 1, cn_id = [99, 0], cn_keepalive = 60, cn_clean_session = 1\<rparr>"


section \<open>Retained messages\<close>

lemma reply_retained_dangling:
  assumes "h_cells (hp_clients w) c = Some cl" and "cl_reply cl = Some r" and "rp_opcode r = SUBACK"
    and "rp_body r = Payload (Some \<lparr>b_size = 8, b_pos = 8, b_data = ack_bytes opcode rc\<rparr>)"
    and "rp_retained r = Some (Some m)" and "h_cells (hp_msgs w) m = None"
  shows "reply_handler w c = Inl Dangling"
proof -
  obtain evs t where "send_payload w r = Inr (put_sent w (rp_fd r) evs (take t (ack_bytes opcode rc)), if t < 8 then -1 else 0)"
    by (rule send_ack_payload [OF assms(4)])
  then show ?thesis
    using assms by (simp add: reply_handler_def load_client_Some reply_retained_def h_load_def opcode_defs)
qed

text \<open>
  C11: A subscriber can be answered from freed memory.  When a subscription has put the topic's retained
  message into the pending reply of a client and another client publishes a retained message to that topic
  before the reply is sent, \<open>publish_message\<close> frees the message the reply points to, and the reply
  handler then dereferences it.\<close>

theorem retained_use_after_free:
  assumes "db_inv w" and "h_cells (hp_topics w) t = Some tp" and "publishable msg" and "pb_retain msg \<noteq> 0"
    and "length (subscribers w t) * unat (hd_size (pb_header msg)) \<le> INT_MAX" and "retained_live w tp" and "h_avail (hp_msgs w) > 0"
    and "h_cells (hp_clients w) c = Some (suback_client cl (tp_retained tp))" and "tp_retained tp \<noteq> None"
  shows "\<exists>w' sent. publish_message w (Some t) msg sender = Inr (w', sent) \<and> reply_handler w' c = Inl Dangling"
proof -
  have ret: "pb_retain msg \<noteq> 0 \<longrightarrow> retained_live w tp \<and> h_avail (hp_msgs w) > 0"
    using assms(6,7) by simp
  obtain m where m: "tp_retained tp = Some m"
    using assms(9) by auto
  obtain w1 w' ts where p: "publish_message w (Some t) msg sender = Inr (w', sum_list ts)"
      "pb_retain msg = 0 \<longrightarrow> w1 = w"
      "pb_retain msg \<noteq> 0 \<longrightarrow> (\<exists>h m. w1 = w\<lparr>hp_msgs := h, hp_topics := h_upd (hp_topics w) t (Some (tp\<lparr>tp_retained := Some m\<rparr>))\<rparr> \<and>
        h_cells h m = Some (retained_of msg sender (db_now w)) \<and> (\<forall>old. tp_retained tp = Some old \<longrightarrow> h_cells h old = None))"
      "only_sent w1 w'"
    by (rule publish_message_sends [OF assms(3,2,1,5) ret])
  have w1: "hp_clients w1 = hp_clients w" "h_cells (hp_msgs w1) m = None"
    using p(3) assms(4) m by auto
  have "touched w1 w'"
    using p(4) by (simp add: only_sent_def)
  then obtain n where n: "h_cells (hp_clients w') c = Some ((suback_client cl (Some m))\<lparr>cl_last_action_time := n\<rparr>)"
    by (rule touched_client) (use assms(8) m w1(1) in auto)
  have "reply_handler w' c = Inl Dangling"
    by (rule reply_retained_dangling [OF n, of _ SUBACK 0 m])
      (use only_sent_sel(4) [OF p(4)] w1(2) in \<open>auto simp: suback_client_def ack_reply_def\<close>)
  with p(1) show ?thesis
    by blast
qed

text \<open>The topic of the example with a retained message, and its client about to be told of it.\<close>

definition server4 :: server where
  "server4 = server1\<lparr>hp_topics := h_upd (hp_topics server1) 1 (Some (topic1\<lparr>tp_retained := Some 0\<rparr>)),
     hp_msgs := one_cell 0 (retained_of (message1 1) None 0),
     hp_clients := h_upd (hp_clients server1) 0 (Some (suback_client client0 (Some 0)))\<rparr>"

lemma server4_ok: "db_inv server4" "subscribers server4 1 = [0]"
proof -
  have "grows server1 server4"
    using server1_ok(1) by (auto simp: grows_def db_inv_def server4_def topic_core_def h_ext_def server1_topic [simplified])
  from grows_db [OF server1_ok(1) this] server1_ok(2) show "db_inv server4" "subscribers server4 1 = [0]"
    by simp_all
qed

lemma retained_use_after_free_witness:
  "\<exists>w' sent. publish_message server4 (Some 1) (message1 1) None = Inr (w', sent) \<and> reply_handler w' 0 = Inl Dangling"
proof -
  let ?tp = "topic1\<lparr>tp_retained := Some 0\<rparr>"
  have t: "h_cells (hp_topics server4) 1 = Some ?tp"
    by (simp add: server4_def)
  have r: "retained_live server4 ?tp" "h_avail (hp_msgs server4) > 0" "pb_retain (message1 1) \<noteq> 0"
      "h_cells (hp_clients server4) 0 = Some (suback_client client0 (tp_retained ?tp))" "tp_retained ?tp \<noteq> None"
    by (simp_all add: retained_live_def server4_def message1_def)
  have "length (subscribers server4 1) * unat (hd_size (pb_header (message1 1))) \<le> INT_MAX"
    unfolding server4_ok(2) by (simp add: message1_def)
  from retained_use_after_free [OF server4_ok(1) t message1_publishable r(3) this r(1,2,4,5)] show ?thesis .
qed

end
