(* ===== verification/Sz_Forward.thy ===== *)
theory Sz_Forward
  imports Sz_Commands
begin

text \<open>
  The path of a published packet through the broker: from the bytes on the publisher's socket to
  the bytes on the sockets of the subscribers, in the two events the publisher's client goes
  through.
\<close>

section \<open>Receiving a packet to publish\<close>

text \<open>The bytes of a publish packet whose header announces its exact size.\<close>

definition publish_block :: "publish \<Rightarrow> block" where
  "publish_block x = wire_publish (ucast (hd_size (pb_header x))) x"

definition exact :: "publish \<Rightarrow> bool" where
  "exact x \<longleftrightarrow> publish_ok x \<and> hd_opcode (pb_header x) = PUBLISH \<and> length (publish_block x) = unat (hd_size (pb_header x)) \<and>
     length (publish_block x) < 2 ^ 31"

lemma ucast_up_down: "ucast (ucast (n :: u32) :: size_t) = n"
  by (rule bit_word_eqI) (auto simp: bit_simps)

lemma exact_publishable:
  assumes "exact x"
  shows "publishable x" and "publish_bytes w x = publish_block x"
  using assms by (auto simp: exact_def publishable_def publish_bytes_def publish_block_def publish_ok_def Let_def elim!: str_okE)

lemma exact_opcode: "exact x \<Longrightarrow> publish_block x ! 0 = PUBLISH"
  by (simp add: exact_def publish_block_def wire_publish_def wire_header_def)

lemma unpack_publish_exact:
  assumes "exact x"
  obtains b where "unpack_publish True \<lparr>b_size = of_nat (length (publish_block x)), b_pos = 0, b_data = publish_block x\<rparr> =
    Inr (b, Some x, 0)"
proof -
  let ?sz = "ucast (hd_size (pb_header x)) :: size_t"
  have sz: "(of_nat (length (publish_block x)) :: size_t) = ?sz"
    using assms by (simp add: exact_def)
  have len: "length (wire_publish ?sz x) < 2 ^ 31"
    using assms by (simp add: exact_def publish_block_def)
  have "unpack_publish True (buf_at ?sz [] (wire_publish ?sz x @ [])) = Inr (buf_at ?sz (wire_publish ?sz x) [],
      Some (x\<lparr>pb_header := (pb_header x)\<lparr>hd_size := ucast ?sz\<rparr>\<rparr>), 0)"
    by (rule publish_fmt.unpack_wire) (use assms len in \<open>auto simp: exact_def\<close>)
  then have "unpack_publish True \<lparr>b_size = ?sz, b_pos = 0, b_data = publish_block x\<rparr> =
      Inr (buf_at ?sz (wire_publish ?sz x) [], Some x, 0)"
    by (simp add: buf_at_def publish_block_def ucast_up_down)
  then show thesis
    unfolding sz [symmetric] by (rule that)
qed

lemma unpack_exact:
  assumes "exact x"
  shows "unpack_packet w PUBLISH \<lparr>b_size = of_nat (length (publish_block x)), b_pos = 0, b_data = publish_block x\<rparr> =
    alloc_pkt w (PPublish x)"
  by (rule unpack_publish_exact [OF assms]) (simp add: unpack_packet_def opcode_defs)

text \<open>The publisher while its packet waits to be delivered.\<close>

definition publishing :: "client \<Rightarrow> nat \<Rightarrow> u64 \<Rightarrow> client" where
  "publishing cl q now = cl\<lparr>cl_last_action_time := now, cl_ptr := Some q,
     cl_reply := Some \<lparr>rp_opcode = PUBLISH, rp_fd = cl_fd cl, rp_body = Published (Some q), rp_retained = None\<rparr>,
     cl_ctx_handler := ReplyHandler\<rparr>"

lemma run_publish:
  assumes "h_cells (hp_clients w) c = Some cl" and "h_cells (hp_pkts w) q = Some (PPublish x)" and "pb_topic_len x \<noteq> 0"
  shows "run_request w c fd PUBLISH (Some q) =
    Inr (set_epoll (w\<lparr>hp_clients := h_upd (hp_clients w) c (Some (publishing cl q (db_now w)))\<rparr>)
      (mod_epoll (sv_epoll w) fd EPOLLOUT (Some c)), 0)"
  using assms
  by (simp add: run_request_def update_client_last_action_def object_simps commands_hashmap_def opcode_defs
      publish_handler_def pkt_publish_def h_load_Some set_handler_def publishing_def)

lemma request_publish:
  assumes "h_cells (hp_clients w) c = Some cl" and "exact x" and "packet_ready w (cl_fd cl) (publish_block x)"
    and "pb_topic_len x \<noteq> 0" and "h_avail (hp_pkts w) > 0" and "heap_ok (hp_pkts w)"
  obtains es q h where "request_handler (Suc f) w c =
      Inr (set_epoll ((set_rx w (cl_fd cl) es)\<lparr>hp_pkts := h,
        hp_clients := h_upd (hp_clients w) c (Some (publishing cl q (db_now w)))\<rparr>)
        (mod_epoll (sv_epoll w) (cl_fd cl) EPOLLOUT (Some c)), 0)"
    "h_cells h q = Some (PPublish x)" "heap_ok h"
proof -
  have op: "publish_block x ! 0 \<noteq> PUBREC" and op0: "publish_block x ! 0 = PUBLISH"
    using exact_opcode [OF assms(2)] by (simp_all add: opcode_defs)
  obtain es where es: "request_handler (Suc f) w c =
      bindR (unpack_packet (set_rx w (cl_fd cl) es) PUBLISH
        \<lparr>b_size = of_nat (length (publish_block x)), b_pos = 0, b_data = publish_block x\<rparr>) (\<lambda>(w, pkt).
      if pkt = None then Inr (w, -1) else run_request w c (cl_fd cl) PUBLISH pkt)"
    by (rule request_receives [OF assms(1,3) op, unfolded op0])
  obtain q h where q: "h_alloc (hp_pkts w) (PPublish x) = Some (q, h)"
    using h_alloc_avail [OF assms(5)] by blast
  note fresh = h_alloc_fresh [OF assms(6) q]
  have "request_handler (Suc f) w c = run_request ((set_rx w (cl_fd cl) es)\<lparr>hp_pkts := h\<rparr>) c (cl_fd cl) PUBLISH (Some q)"
    unfolding es unpack_exact [OF assms(2)] using q by (simp add: alloc_pkt_def)
  also have "\<dots> = Inr (set_epoll ((set_rx w (cl_fd cl) es)\<lparr>hp_pkts := h,
      hp_clients := h_upd (hp_clients w) c (Some (publishing cl q (db_now w)))\<rparr>)
      (mod_epoll (sv_epoll w) (cl_fd cl) EPOLLOUT (Some c)), 0)"
    using run_publish [of "(set_rx w (cl_fd cl) es)\<lparr>hp_pkts := h\<rparr>" c cl q x "cl_fd cl"] assms(1,4) fresh(2)
    by (simp add: set_epoll_def)
  finally show thesis
    by (rule that) (use fresh in auto)
qed

section \<open>Delivering it\<close>

lemma send_puback:
  obtains evs k where "bindR (ack_pkt True PUBACK 0 0) (\<lambda>ack.
       bindR (buffer_init True True (sv_junk w) (ucast (hd_size (ak_header ack)))) (\<lambda>res.
       bindR (pack_ack res ack) (\<lambda>res.
       bindR (send_fd w fd (b_data res) (unat (b_size res))) (\<lambda>(w, _, rc).
       bindR (buffer_destroy (Some res)) (\<lambda>_.
       Inr (w, if rc < 0 then -1 else 0)))))) =
    Inr (put_sent w fd evs (take k (ack_bytes PUBACK 0)), if k < 8 then -1 else 0 :: int)"
proof -
  have len: "8 \<le> length (ack_bytes PUBACK 0)" "(8::nat) \<le> INT_MAX"
    by simp_all
  obtain evs k where "send_fd w fd (ack_bytes PUBACK 0) 8 =
      Inr (put_sent w fd evs (take k (ack_bytes PUBACK 0)), k, if k < 8 then -1 else 0)" "k \<le> 8"
    by (rule send_fd_ok [OF len])
  then show thesis
    by (intro that [of evs k]) (simp add: pack_ack_bytes buffer_destroy_def)
qed

text \<open>Delivery of a received packet to an existing topic.\<close>

lemma reply_publish_ok:
  assumes "db_inv w" and "h_cells (hp_clients w) c = Some cl" and "h_cells (hp_pkts w) q = Some (PPublish x)" and "publishable x"
    and "hm_lookup (db_topics w) (c_str (pb_topic x)) = Some t" and "h_cells (hp_topics w) t = Some tp"
    and "cl_id cl = Some ident" and "0 \<in> set ident" and "rp_body r = Published (Some q)"
    and "length (subscribers w t) * unat (hd_size (pb_header x)) \<le> INT_MAX"
    and "pb_retain x \<noteq> 0 \<longrightarrow> retained_live w tp \<and> h_avail (hp_msgs w) > 0"
  obtains w' rc ts k n where "reply_publish w (Some c) r = Inr (w', rc)" "db_inv w'" "subscribers w' = subscribers w"
    "length ts = length (subscribers w t)"
    "\<forall>fd. sv_wire w' fd = sv_wire w fd @ delivered w (publish_bytes w x) (subscribers w t) ts fd @
      (if pb_qos x = 1 \<and> fd = rp_fd r then take k (ack_bytes PUBACK 0) else [])"
    "(\<forall>c\<in>set (subscribers w t). accepts (sv_tx w (client_fd w c)) (length (subscribers w t) * unat (hd_size (pb_header x)))) \<longrightarrow>
      ts = replicate (length (subscribers w t)) (unat (hd_size (pb_header x)))"
    "hp_pkts w' = hp_pkts w" "sv_epoll w' = sv_epoll w" "sv_rx w' = sv_rx w"
    "h_cells (hp_clients w') c = Some (cl\<lparr>cl_last_action_time := n\<rparr>)"
proof -
  have inv: "hm_inv (db_topics w)"
    using assms(1) by (simp add: db_inv_def)
  have topic: "topic_for w (pb_topic x) = Inr (w, Some t)"
    using assms(4,5) by (simp add: topic_for_def key_of_def hm.get_ok [OF inv] publishable_def)
  obtain w1 w2 ts where p: "publish_message w (Some t) x (Some (c_str ident @ [0])) = Inr (w2, sum_list ts)"
      "pb_retain x = 0 \<longrightarrow> w1 = w"
      "pb_retain x \<noteq> 0 \<longrightarrow> (\<exists>h m. w1 = w\<lparr>hp_msgs := h, hp_topics := h_upd (hp_topics w) t (Some (tp\<lparr>tp_retained := Some m\<rparr>))\<rparr> \<and>
        h_cells h m = Some (retained_of x (Some (c_str ident @ [0])) (db_now w)) \<and> (\<forall>old. tp_retained tp = Some old \<longrightarrow> h_cells h old = None))"
      "only_sent w1 w2" "db_inv w1" "subscribers w1 = subscribers w" "length ts = length (subscribers w t)"
      "\<forall>n\<in>set ts. n \<le> unat (hd_size (pb_header x))"
      "\<forall>fd. sv_wire w2 fd = sv_wire w fd @ delivered w (publish_bytes w x) (subscribers w t) ts fd"
      "\<forall>i<length (subscribers w t). accepts (sv_tx w (client_fd w (subscribers w t ! i)))
        (length (subscribers w t) * unat (hd_size (pb_header x))) \<longrightarrow> ts ! i = unat (hd_size (pb_header x))"
    by (rule publish_message_sends [OF assms(4,6,1,10,11)])
  have full: "(\<forall>c\<in>set (subscribers w t). accepts (sv_tx w (client_fd w c)) (length (subscribers w t) * unat (hd_size (pb_header x)))) \<longrightarrow>
      ts = replicate (length (subscribers w t)) (unat (hd_size (pb_header x)))"
    using p(7,10) by (auto intro!: nth_equalityI)
  have w1: "hp_clients w1 = hp_clients w" "hp_pkts w1 = hp_pkts w" "sv_epoll w1 = sv_epoll w" "sv_rx w1 = sv_rx w"
    using p(2,3) by (cases "pb_retain x = 0"; force)+
  note sent = only_sent_sel [OF p(4)]
  have w2: "db_inv w2" "subscribers w2 = subscribers w"
    using only_sent_db [OF p(4,5)] p(6) by simp_all
  have "touched w1 w2"
    using p(4) by (simp add: only_sent_def)
  then obtain n where n: "h_cells (hp_clients w2) c = Some (cl\<lparr>cl_last_action_time := n\<rparr>)"
    by (rule touched_client) (use assms(2) w1(1) in auto)
  let ?cl = "cl\<lparr>cl_last_action_time := db_now w2\<rparr>"
  let ?w3 = "w2\<lparr>hp_clients := h_upd (hp_clients w2) c (Some ?cl)\<rparr>"
  have w3: "db_inv ?w3" "subscribers ?w3 = subscribers w"
    using db_inv_client [OF w2(1), of c "hp_pkts w2" ?cl] w2(2) n by simp_all
  have upd: "update_client_last_action w2 (Some c) = Inr ?w3"
    using n by (simp add: update_client_last_action_def object_simps)
  obtain evs k where ack: "bindR (ack_pkt True PUBACK 0 0) (\<lambda>ack.
       bindR (buffer_init True True (sv_junk ?w3) (ucast (hd_size (ak_header ack)))) (\<lambda>res.
       bindR (pack_ack res ack) (\<lambda>res.
       bindR (send_fd ?w3 (rp_fd r) (b_data res) (unat (b_size res))) (\<lambda>(w, _, rc).
       bindR (buffer_destroy (Some res)) (\<lambda>_.
       Inr (w, if rc < 0 then -1 else 0)))))) =
    Inr (put_sent ?w3 (rp_fd r) evs (take k (ack_bytes PUBACK 0)), if k < 8 then -1 else 0 :: int)"
    by (rule send_puback)
  let ?w' = "if pb_qos x = 1 then put_sent ?w3 (rp_fd r) evs (take k (ack_bytes PUBACK 0)) else ?w3"
  let ?rc = "if pb_qos x = 1 then if k < 8 then -1 else 0 else 0 :: int"
  have run: "reply_publish w (Some c) r = Inr (?w', ?rc)"
    using assms(2,3,7,8,9) ack
    by (simp add: reply_publish_def pkt_publish_def h_load_Some topic load_client_Some c_strdup_def p(1) upd)
  have db: "db_inv ?w'" "subscribers ?w' = subscribers w"
    using w3 db_inv_cong [of "put_sent ?w3 (rp_fd r) evs (take k (ack_bytes PUBACK 0))" ?w3] by simp_all
  have "\<forall>fd. sv_wire ?w' fd = sv_wire w fd @ delivered w (publish_bytes w x) (subscribers w t) ts fd @
      (if pb_qos x = 1 \<and> fd = rp_fd r then take k (ack_bytes PUBACK 0) else [])"
    using p(9) by simp
  from that [OF run db p(7) this full] show thesis
    by (simp add: sent w1)
qed

text \<open>The reply handler on a pending packet.\<close>

lemma reply_handler_publish:
  assumes "h_cells (hp_clients w) c = Some cl" and "cl_reply cl = Some r" and "rp_opcode r = PUBLISH"
    and "rp_body r = Published (Some q)" and "h_cells (hp_pkts w) q = Some (PPublish x)"
    and "reply_publish w (Some c) r = Inr (w1, rc)" and "hp_pkts w1 = hp_pkts w" and "h_cells (hp_clients w1) c = Some cl1"
  shows "reply_handler w c = Inr (replied (w1\<lparr>hp_pkts := h_upd (hp_pkts w) q None\<rparr>) c cl1, rc)"
  using assms
  by (simp add: reply_handler_def object_simps free_reply_def free_publish_def free_packet_def heap_simps replied_def)

lemma delivered_cong: "client_fd w' = client_fd w \<Longrightarrow> delivered w' buf cs ts fd = delivered w buf cs ts fd"
  by (simp add: delivered_def)

lemma replied_ok:
  assumes "db_inv w" and "h_cells (hp_clients w) c \<noteq> None"
  shows "db_inv (replied (w\<lparr>hp_pkts := h\<rparr>) c cl)" and "subscribers (replied (w\<lparr>hp_pkts := h\<rparr>) c cl) = subscribers w"
proof -
  let ?w = "w\<lparr>hp_clients := h_upd (hp_clients w) c (Some (cl\<lparr>cl_reply := None, cl_ctx_handler := RequestHandler\<rparr>)), hp_pkts := h\<rparr>"
  have "db_inv (replied (w\<lparr>hp_pkts := h\<rparr>) c cl) = db_inv ?w" "subscribers (replied (w\<lparr>hp_pkts := h\<rparr>) c cl) = subscribers ?w"
    by (rule db_inv_cong; simp add: replied_def)+
  then show "db_inv (replied (w\<lparr>hp_pkts := h\<rparr>) c cl)" "subscribers (replied (w\<lparr>hp_pkts := h\<rparr>) c cl) = subscribers w"
    using db_inv_client [OF assms, of h] by simp_all
qed

lemma delivered_all:
  "delivered w buf cs (replicate (length cs) (length buf)) fd = concat (map (\<lambda>_. buf) (filter (\<lambda>s. client_fd w s = fd) cs))"
  by (induction cs) (simp_all add: delivered_def)

lemma message1_exact: "exact (message1 0)" and message1_length: "length (publish_block (message1 0)) = 17"
proof -
  have "publish_block (message1 0) = [0x30, 0, 0, 0, 17, 0, 1, 0, 0, 0, 2, 0, 0, 0, 99, 104, 105]"
    by (simp add: publish_block_def message1_def wire_publish_def wire_header_def store32_def store16_def c_str_def PUBLISH_def)
  then show len: "length (publish_block (message1 0)) = 17"
    by simp
  have "str_ok (2 ^ 16) [99, 0]" "str_ok (2 ^ 32) [104, 105, 0]"
    unfolding str_ok_def by (rule exI [of _ "[99]"], simp) (rule exI [of _ "[104, 105]"], simp)
  then show "exact (message1 0)"
    unfolding exact_def len by (simp add: message1_def publish_ok_def c_str_def)
qed

lemma exact_packet_block:
  assumes "exact x"
  shows "packet_block (publish_block x)"
proof -
  let ?p = "publish_block x" and ?n = "ucast (hd_size (pb_header x)) :: size_t"
  have "load32 BigEndian (?p ! 1) (?p ! 2) (?p ! 3) (?p ! 4) = ucast ?n"
    by (cases rule: store32_BigEndian_cons [of "ucast ?n"])
      (simp add: publish_block_def wire_publish_def wire_header_def)
  moreover have "5 \<le> length ?p"
    by (simp add: publish_block_def wire_publish_def wire_header_def)
  ultimately show ?thesis
    using assms by (simp add: packet_block_def exact_def ucast_up_down)
qed

end
