(* ===== verification/Sz_Keepalive.thy ===== *)
theory Sz_Keepalive
  imports Sz_Session
begin

text \<open>
  The keepalive thread: which clients one round over the client table disconnects.
\<close>

section \<open>A round over the entries\<close>

text \<open>A client that is on-line and has been silent for its keepalive time.\<close>

definition due :: "server \<Rightarrow> nat \<Rightarrow> bool" where
  "due w a \<longleftrightarrow> (\<exists>cl. h_cells (hp_clients w) a = Some cl \<and> cl_status cl = ONLINE \<and>
     ucast (cl_keepalive cl) \<le> db_now w - cl_last_action_time cl)"

text \<open>The clients of a list of table entries, in slot order.\<close>

definition entry_clients :: "hashmap_entry list \<Rightarrow> nat list" where
  "entry_clients es = map (\<lambda>e. the (he_val e)) (filter he_in_use es)"

text \<open>What a round leaves behind when it disconnects exactly the clients of \<open>cs\<close>.\<close>

definition disconnected :: "server \<Rightarrow> nat list \<Rightarrow> server \<Rightarrow> bool" where
  "disconnected w cs w' \<longleftrightarrow> db_now w' = db_now w \<and>
     (\<forall>a. h_cells (hp_clients w') a = map_option (\<lambda>cl. if a \<in> set cs then cl\<lparr>cl_status := OFFLINE\<rparr> else cl) (h_cells (hp_clients w) a)) \<and>
     (\<forall>fd. sv_epoll w' fd = (if \<exists>a\<in>set cs. client_fd w a = fd then None else sv_epoll w fd))"

lemma disconnected_Nil: "disconnected w [] w"
  by (simp add: disconnected_def option.map_ident)

lemma check_status_due:
  assumes "he_val e = Some a" and "h_cells (hp_clients w) a = Some cl" and "due w a"
  obtains w' where "check_client_status u e w = Inr (w', HASHMAP_OK)" "disconnected w [a] w'"
proof -
  let ?w = "(close_fd w (cl_fd cl))\<lparr>hp_clients := h_upd (hp_clients w) a (Some (cl\<lparr>cl_status := OFFLINE\<rparr>))\<rparr>"
  have "check_client_status u e w = Inr (?w, HASHMAP_OK)"
    using assms by (simp add: check_client_status_def object_simps due_def close_fd_def)
  moreover have "disconnected w [a] ?w"
    using assms(2) by (auto simp: disconnected_def close_fd_def del_epoll_def client_fd_def option.map_ident)
  ultimately show thesis
    by (rule that)
qed

lemma check_status_live:
  assumes "he_val e = Some a" and "h_cells (hp_clients w) a = Some cl" and "\<not> due w a"
  shows "check_client_status u e w = Inr (w, HASHMAP_ERR)"
  using assms by (auto simp: check_client_status_def object_simps due_def)

lemma disconnected_Cons:
  assumes "disconnected w [a] w1" and "disconnected w1 cs w'" and "a \<notin> set cs"
  shows "disconnected w (a # cs) w'"
proof -
  have "client_fd w1 b = client_fd w b" if "b \<in> set cs" for b
    using assms(1,3) that by (auto simp: disconnected_def client_fd_def split: option.split)
  then show ?thesis
    using assms by (auto simp: disconnected_def option.map_comp o_def intro: option.map_cong)
qed

lemma due_disconnected: "disconnected w [a] w1 \<Longrightarrow> b \<noteq> a \<Longrightarrow> due w1 b = due w b"
  by (auto simp: disconnected_def due_def)

lemma keepalive_loop:
  assumes "\<forall>e\<in>set es. he_in_use e \<longrightarrow> (\<exists>a cl. he_val e = Some a \<and> h_cells (hp_clients w) a = Some cl)"
    and "distinct (entry_clients es)"
  shows "\<exists>w' rc. hashmap_iterate_loop (check_client_status u) es w = Inr (w', rc) \<and>
    disconnected w (takeWhile (due w) (entry_clients es)) w'"
  using assms
proof (induction es arbitrary: w)
  case Nil
  then show ?case
    by (simp add: entry_clients_def disconnected_Nil)
next
  case (Cons e es)
  show ?case
  proof (cases "he_in_use e")
    case False
    with Cons show ?thesis
      by (simp add: entry_clients_def)
  next
    case True
    with Cons.prems(1) obtain a cl where a: "he_val e = Some a" "h_cells (hp_clients w) a = Some cl"
      by auto
    have cs: "entry_clients (e # es) = a # entry_clients es"
      using True a by (simp add: entry_clients_def)
    show ?thesis
    proof (cases "due w a")
      case False
      with True show ?thesis
        by (simp add: cs check_status_live [OF a] disconnected_Nil)
    next
      case due: True
      obtain w1 where w1: "check_client_status u e w = Inr (w1, HASHMAP_OK)" "disconnected w [a] w1"
        by (rule check_status_due [OF a due])
      have fresh: "a \<notin> set (entry_clients es)" "distinct (entry_clients es)"
        using Cons.prems(2) by (simp_all add: cs)
      have "h_cells (hp_clients w1) b \<noteq> None" if "h_cells (hp_clients w) b \<noteq> None" for b
        using w1(2) that by (simp add: disconnected_def)
      then have "\<forall>e\<in>set es. he_in_use e \<longrightarrow> (\<exists>a cl. he_val e = Some a \<and> h_cells (hp_clients w1) a = Some cl)"
        using Cons.prems(1) by fastforce
      from Cons.IH [OF this fresh(2)] obtain w' rc where w': "hashmap_iterate_loop (check_client_status u) es w1 = Inr (w', rc)"
          "disconnected w1 (takeWhile (due w1) (entry_clients es)) w'"
        by blast
      have "takeWhile (due w1) (entry_clients es) = takeWhile (due w) (entry_clients es)"
        using fresh(1) by (intro takeWhile_cong refl due_disconnected [OF w1(2)]) blast
      then have "disconnected w (a # takeWhile (due w) (entry_clients es)) w'"
        using disconnected_Cons [OF w1(2) w'(2)] fresh(1) by (auto dest: set_takeWhileD)
      then show ?thesis
        using True due w1(1) w'(1) by (simp add: cs)
    qed
  qed
qed

section \<open>Properties\<close>

text \<open>
  C14: A keepalive round stops at the first client that is not due.  For a well-formed client table
  whose entries lead to different live clients, the round returns; it marks as off-line and closes
  exactly the clients in front of the first one, in slot order, that was active recently or is
  off-line already.  No other client and no other registration changes, however long the others
  have been silent.\<close>

theorem keepalive_stops_early:
  assumes "hm_inv (db_clients w)"
    and "\<forall>e\<in>set (hm_entries (db_clients w)). he_in_use e \<longrightarrow> (\<exists>a cl. he_val e = Some a \<and> h_cells (hp_clients w) a = Some cl)"
    and "distinct (entry_clients (hm_entries (db_clients w)))"
    and "cs = takeWhile (due w) (entry_clients (hm_entries (db_clients w)))"
  shows "\<exists>w' rc. keepalive_round w = Inr (w', rc) \<and>
    (\<forall>a cl. h_cells (hp_clients w) a = Some cl \<longrightarrow>
      h_cells (hp_clients w') a = Some (if a \<in> set cs then cl\<lparr>cl_status := OFFLINE\<rparr> else cl)) \<and>
    (\<forall>fd. sv_epoll w' fd = (if \<exists>a\<in>set cs. client_fd w a = fd then None else sv_epoll w fd))"
proof (cases "hm_size (db_clients w) = 0")
  case True
  then have "entry_clients (hm_entries (db_clients w)) = []"
    using assms(1) by (simp add: hm_inv_def hm_wf_def entry_clients_def)
  then have "cs = []"
    by (simp add: assms(4))
  then show ?thesis
    using True by (intro exI [of _ w] exI [of _ HASHMAP_ERR]) (simp add: keepalive_round_def hashmap_iterate2_def)
next
  case False
  have "keepalive_round w = hashmap_iterate_loop (check_client_status ()) (hm_entries (db_clients w)) w"
    using assms(1) False by (simp add: keepalive_round_def hashmap_iterate2_def hm_inv_def hm_wf_def rd_block_def)
  then show ?thesis
    using keepalive_loop [OF assms(2,3), of "()"] by (auto simp: disconnected_def assms(4))
qed

text \<open>Three clients in the table: the first and the last are due, the one between them is not.\<close>

definition client_at :: "int \<Rightarrow> u64 \<Rightarrow> client" where
  "client_at fd time = (own_client [49, 0] fd RequestHandler [97, 0])\<lparr>cl_last_action_time := time\<rparr>"

definition table3 :: hashmap where
  "table3 = \<lparr>hm_table_size = 4, hm_size = 3,
     hm_entries = [\<lparr>he_key = Some [97], he_val = Some 0, he_in_use = True\<rparr>, \<lparr>he_key = Some [98], he_val = Some 1, he_in_use = True\<rparr>,
       empty_entry, \<lparr>he_key = Some [99], he_val = Some 2, he_in_use = True\<rparr>],
     hm_locked = False\<rparr>"

definition broker3 :: server where
  "broker3 = broker0\<lparr>db_clients := table3, hp_clients := own_clients 9 (client_at 20 0) (client_at 21 990) (client_at 22 0)\<rparr>"

lemma keepalive_stops_early_witness:
  "\<exists>w' rc cl cl2. keepalive_round broker3 = Inr (w', rc) \<and> due broker3 0 \<and> due broker3 2 \<and>
    h_cells (hp_clients w') 0 = Some cl \<and> cl_status cl = OFFLINE \<and>
    h_cells (hp_clients w') 2 = Some cl2 \<and> cl_status cl2 = ONLINE"
proof -
  have sel: "db_clients broker3 = table3" "h_cells (hp_clients broker3) = [0 \<mapsto> client_at 20 0, 1 \<mapsto> client_at 21 990, 2 \<mapsto> client_at 22 0]"
      "db_now broker3 = 1000"
    by (simp_all add: broker3_def own_clients_def)
  have due: "due broker3 0" "\<not> due broker3 1" "due broker3 2"
    by (simp_all add: due_def sel client_at_def own_client_def keepalive_default_def)
  have es: "entry_clients (hm_entries table3) = [0, 1, 2]"
    by (simp add: entry_clients_def table3_def empty_entry_def)
  have "distinct (entry_clients (hm_entries table3))"
    unfolding es by simp
  moreover have "hm_inv table3"
      "\<forall>e\<in>set (hm_entries table3). he_in_use e \<longrightarrow> (\<exists>a cl. he_val e = Some a \<and> h_cells (hp_clients broker3) a = Some cl)"
    by (simp_all add: hm_inv_def hm_wf_def table3_def empty_entry_def sel)
  moreover have "[0] = takeWhile (due broker3) (entry_clients (hm_entries table3))"
    using due by (simp add: es)
  ultimately obtain w' rc where "keepalive_round broker3 = Inr (w', rc)"
      "\<forall>a cl. h_cells (hp_clients broker3) a = Some cl \<longrightarrow>
        h_cells (hp_clients w') a = Some (if a \<in> set [0] then cl\<lparr>cl_status := OFFLINE\<rparr> else cl)"
    using keepalive_stops_early [of broker3 "[0]"] unfolding sel(1) by blast
  with due show ?thesis
    by (auto simp: sel client_at_def own_client_def)
qed

end
