(* ===== verification/Sz_Cleanup.thy ===== *)
theory Sz_Cleanup
  imports Sz_Keepalive Sz_Commands
begin

text \<open>
  The end of the broker: what \<open>server_cleanup\<close> releases of the state the workers leave behind.
\<close>

section \<open>Removing objects from a heap\<close>

lemma h_drop_sel [simp]:
  "h_cells (h_drop h A) = (\<lambda>a. if a \<in> A then None else h_cells h a)"
  "h_brk (h_drop h A) = h_brk h" "h_avail (h_drop h A) = h_avail h"
  by (simp_all add: h_drop_def)

lemma h_drop_ok [intro]: "heap_ok h \<Longrightarrow> heap_ok (h_drop h A)"
  by (simp add: heap_ok_def)

lemma free_all_drop:
  assumes "distinct as" and "\<And>a. a \<in> set as \<Longrightarrow> h_cells h a \<noteq> None"
  shows "free_all h as = Inr (h_drop h (set as))"
  using assms
proof (induction as arbitrary: h)
  case (Cons a as)
  obtain c where "h_cells h a = Some c"
    using Cons.prems(2) [of a] by auto
  moreover have "free_all (h_upd h a None) as = Inr (h_drop (h_upd h a None) (set as))"
    using Cons.prems by (intro Cons.IH) auto
  ultimately show ?case
    by (simp add: heap_simps)
qed simp

lemma chain_drop:
  assumes "chain (h_cells h) p as" and "set as \<inter> A = {}"
  shows "chain (h_cells (h_drop h A)) p as" and "chain_data (h_cells (h_drop h A)) as = chain_data (h_cells h) as"
  using assms by (induction as arbitrary: p) (auto simp: cell_data_def)

section \<open>Destroying a topic\<close>

text \<open>
  The part of the invariant that survives when topics are destroyed one by one; \<open>N\<close> are the nodes of their lists.
\<close>

definition disposable :: "server \<Rightarrow> (nat \<Rightarrow> nat list) \<Rightarrow> bool" where
  "disposable w N \<longleftrightarrow> topics_ok w N \<and> owned w \<and> heap_ok (hp_nodes w)"

definition without_topic :: "server \<Rightarrow> (nat \<Rightarrow> nat list) \<Rightarrow> nat \<Rightarrow> topic \<Rightarrow> server" where
  "without_topic w N t tp = w\<lparr>hp_nodes := h_drop (hp_nodes w) (set (N t)), hp_subs := h_drop (hp_subs w) (set (non_null (items w tp))),
     hp_msgs := h_drop (hp_msgs w) (set_option (tp_retained tp)), hp_topics := h_upd (hp_topics w) t None\<rparr>"

lemma disposable_topic:
  assumes "disposable w N" and "h_cells (hp_topics w) t = Some tp"
  shows "chain (h_cells (hp_nodes w)) (l_head (tp_subscribers tp)) (N t)" and "items w tp = chain_data (h_cells (hp_nodes w)) (N t)"
    and "length (N t) = unat (l_len (tp_subscribers tp))" and "topic_owned w tp" and "\<And>d. d \<in> set (items w tp) \<Longrightarrow> sub_ok w d"
proof -
  have ok: "topic_ok w tp (N t)"
    using assms topics_ok_topic by (auto simp: disposable_def)
  then have lw: "list_weak (hp_nodes w) (tp_subscribers tp) (N t)"
    by (simp add: topic_ok_def)
  then show "chain (h_cells (hp_nodes w)) (l_head (tp_subscribers tp)) (N t)"
    by (simp add: list_weak_def)
  show i: "items w tp = chain_data (h_cells (hp_nodes w)) (N t)"
    unfolding items_def by (rule list_weak_items [OF lw])
  show o: "topic_owned w tp"
    using assms ownedD(1) by (auto simp: disposable_def)
  show "length (N t) = unat (l_len (tp_subscribers tp))"
    using o i by (simp add: topic_owned_def)
  show "\<And>d. d \<in> set (items w tp) \<Longrightarrow> sub_ok w d"
    using ok i by (auto simp: topic_ok_def)
qed

lemma non_null_items: "a \<in> set (non_null ds) \<longleftrightarrow> Some a \<in> set ds"
  by (force simp: non_null_def)

lemma distinct_non_null: "distinct ds \<Longrightarrow> distinct (non_null ds)"
  by (auto simp: non_null_def distinct_map inj_on_def)

lemma destroy_topic_ok:
  assumes "disposable w N" and "h_cells (hp_topics w) t = Some tp"
  shows "destroy_topic w (Some t) = Inr (without_topic w N t tp, None)"
proof -
  note d = disposable_topic [OF assms]
  have release: "list_release (hp_nodes w) (Some (tp_subscribers tp)) 1 = Inr (h_drop (hp_nodes w) (set (N t)), non_null (items w tp))"
    using list_release_loop_chain [OF d(1), of 1] by (simp add: list_release_def d(2,3))
  have "h_cells (hp_subs w) a \<noteq> None" if "a \<in> set (non_null (items w tp))" for a
    using d(5) [of "Some a"] that by (auto simp: non_null_items sub_ok_def sub_client_def split: option.splits)
  moreover have "distinct (non_null (items w tp))"
    using d(4) by (simp add: topic_owned_def distinct_non_null)
  ultimately have free: "free_all (hp_subs w) (non_null (items w tp)) = Inr (h_drop (hp_subs w) (set (non_null (items w tp))))"
    by (rule free_all_drop [rotated])
  have queue: "tp_messages tp = Some \<lparr>q_len = 0, q_front = None, q_rear = None, q_locked = False\<rparr>"
    using d(4) by (simp add: topic_owned_def create_queue_def)
  show ?thesis
  proof (cases "tp_retained tp")
    case None
    then show ?thesis
      using assms(2)
      by (simp add: destroy_topic_def object_simps release free queue release_queue_def release_queue_loop.simps heap_simps without_topic_def)
  next
    case (Some m)
    then obtain x where "h_cells (hp_msgs w) m = Some x"
      using d(4) by (auto simp: topic_owned_def)
    then show ?thesis
      using assms(2) Some
      by (simp add: destroy_topic_def object_simps release free queue release_queue_def release_queue_loop.simps heap_simps
          destroy_message_def without_topic_def) (simp add: h_drop_def h_upd_def fun_eq_iff)
  qed
qed

lemma without_topic_other:
  assumes "disposable w N" and "h_cells (hp_topics w) t = Some tp" and "h_cells (hp_topics w) t' = Some tp'" and "t' \<noteq> t"
  shows "topic_ok (without_topic w N t tp) tp' (N t')" and "items (without_topic w N t tp) tp' = items w tp'"
proof -
  let ?w = "without_topic w N t tp"
  have T: "topics_ok w N" "owned w" "heap_ok (hp_nodes w)"
    using assms(1) by (auto simp: disposable_def)
  note t' = assms(3,4)
  note d = disposable_topic [OF assms(1) t'(1)]
  have "set (N t') \<inter> set (N t) = {}"
    using T(1) t' assms(2) by (simp add: topics_ok_def)
  note c = chain_drop [OF d(1) this]
  then have lw: "list_weak (hp_nodes ?w) (tp_subscribers tp') (N t')"
    using T(3) d(3) by (auto simp: list_weak_def without_topic_def)
  show i: "items ?w tp' = items w tp'"
    unfolding items_def list_weak_items [OF lw] using c(2) d(2) by (simp add: items_def without_topic_def)
  have "sub_ok ?w x" if x: "x \<in> set (items w tp')" for x
  proof -
    have "x \<notin> set (items w tp)"
      using owned_apart [OF T(2) assms(2) t'(1)] t'(2) x by (auto simp: apart_def)
    then have "sub_client ?w x = sub_client w x"
      by (cases x) (simp_all add: sub_client_def without_topic_def non_null_items)
    then show ?thesis
      using d(5) [OF x] by (simp add: sub_ok_def without_topic_def)
  qed
  then show "topic_ok ?w tp' (N t')"
    using lw i by (simp add: topic_ok_def list_weak_items [OF lw, folded items_def, symmetric])
qed

lemma without_topic_disposable:
  assumes "disposable w N" and "h_cells (hp_topics w) t = Some tp"
  shows "disposable (without_topic w N t tp) N"
proof -
  let ?w = "without_topic w N t tp"
  have T: "topics_ok w N" "owned w" "heap_ok (hp_nodes w)" "heap_ok (hp_msgs w)"
    using assms(1) by (auto simp: disposable_def owned_def)
  note other = without_topic_other [OF assms]
  have "topics_ok ?w N"
    using T(1) other by (auto simp: topics_ok_def without_topic_def)
  have own: "topic_owned ?w tp'" if t': "h_cells (hp_topics w) t' = Some tp'" "t' \<noteq> t" for t' tp'
    using ownedD(1) [OF T(2) t'(1)] owned_apart [OF T(2) assms(2) t'(1)] t'(2) other [OF t']
    by (auto simp: topic_owned_def apart_def without_topic_def)
  have ap: "apart ?w tp1 tp2" if "h_cells (hp_topics w) t1 = Some tp1" "h_cells (hp_topics w) t2 = Some tp2" "t1 \<noteq> t2" "t1 \<noteq> t" "t2 \<noteq> t"
    for t1 t2 tp1 tp2
    using owned_apart [OF T(2) that(1-3)] other [OF that(1,4)] other [OF that(2,5)] by (simp add: apart_def)
  have ret: "\<exists>t' tp'. t' \<noteq> t \<and> h_cells (hp_topics w) t' = Some tp' \<and> tp_retained tp' = Some m"
    if m: "h_cells (hp_msgs w) m \<noteq> None" "tp_retained tp \<noteq> Some m" for m
  proof -
    obtain t' tp' where "h_cells (hp_topics w) t' = Some tp'" "tp_retained tp' = Some m"
      using T(2) m(1) unfolding owned_def by blast
    then show ?thesis
      using m(2) assms(2) by (intro exI [of _ t'] exI [of _ tp']) auto
  qed
  have "\<exists>t' tp'. h_cells (hp_topics ?w) t' = Some tp' \<and> tp_retained tp' = Some m" if m: "h_cells (hp_msgs ?w) m \<noteq> None" for m
  proof -
    obtain t' tp' where "t' \<noteq> t" "h_cells (hp_topics w) t' = Some tp'" "tp_retained tp' = Some m"
      using ret [of m] m by (auto simp: without_topic_def split: if_splits)
    then show ?thesis
      by (intro exI [of _ t'] exI [of _ tp']) (simp add: without_topic_def)
  qed
  then have "owned ?w"
    using T(2,4) own ap unfolding owned_def by (simp add: without_topic_def h_drop_ok)
  with \<open>topics_ok ?w N\<close> show ?thesis
    using T(3) by (auto simp: disposable_def without_topic_def)
qed

section \<open>Walking a table that owns its values\<close>

definition entry_vals :: "hashmap_entry list \<Rightarrow> nat list" where
  "entry_vals es = non_null (map he_val (filter he_in_use es))"

lemma entry_vals_Nil [simp]: "entry_vals [] = []"
  by (simp add: entry_vals_def non_null_def)

text \<open>
  A callback that skips empty entries and takes the invariant from one list of pointers to its tail
  brings the walk to the end of the table.
\<close>

lemma iterate_loop_vals:
  assumes "I (entry_vals es) s"
    and "\<And>e s. he_val e = None \<Longrightarrow> f e s = Inr (s, HASHMAP_OK)"
    and "\<And>e a as s. I (a # as) s \<Longrightarrow> he_val e = Some a \<Longrightarrow> \<exists>s'. f e s = Inr (s', HASHMAP_OK) \<and> I as s'"
  shows "\<exists>s'. hashmap_iterate_loop f es s = Inr (s', HASHMAP_OK) \<and> I [] s'"
  using assms(1)
proof (induction es arbitrary: s)
  case (Cons e es)
  show ?case
  proof (cases "he_in_use e \<and> he_val e \<noteq> None")
    case True
    then obtain a where a: "he_val e = Some a"
      by auto
    then have "I (a # entry_vals es) s"
      using Cons.prems True by (simp add: entry_vals_def non_null_def)
    from assms(3) [OF this a] Cons.IH True show ?thesis
      by auto
  next
    case False
    then have "entry_vals (e # es) = entry_vals es"
      by (auto simp: entry_vals_def non_null_def)
    with Cons assms(2) [of e s] False show ?thesis
      by auto
  qed
qed simp

lemma release_map_vals:
  assumes "hm_wf m" and "I (entry_vals (hm_entries m)) s"
    and "\<And>e s. he_val e = None \<Longrightarrow> f () e s = Inr (s, HASHMAP_OK)"
    and "\<And>e a as s. I (a # as) s \<Longrightarrow> he_val e = Some a \<Longrightarrow> \<exists>s'. f () e s = Inr (s', HASHMAP_OK) \<and> I as s'"
  shows "\<exists>s'. hashmap_release_map m f s = Inr (s', None) \<and> I [] s'"
proof (cases "hm_size m \<le> 0")
  case True
  then have "entry_vals (hm_entries m) = []"
    using assms(1) by (simp add: hm_wf_def entry_vals_def non_null_def)
  with True assms(2) show ?thesis
    by (simp add: hashmap_release_map_def hashmap_iterate2_def)
next
  case False
  have "\<exists>s'. hashmap_iterate_loop (f ()) (hm_entries m) s = Inr (s', HASHMAP_OK) \<and> I [] s'"
    using assms(2) by (rule iterate_loop_vals) (use assms(3,4) in blast)+
  then obtain s' where "hashmap_iterate_loop (f ()) (hm_entries m) s = Inr (s', HASHMAP_OK)" "I [] s'"
    by blast
  with False assms(1) show ?thesis
    by (simp add: hashmap_release_map_def hashmap_iterate2_def hm_wf_def rd_block_def)
qed

text \<open>In the topic table every topic stands once.\<close>

lemma topics_listed:
  assumes "hm_wf (db_topics w)" and "names_ok w" and "owned w"
  shows "distinct (entry_vals (hm_entries (db_topics w)))"
    and "set (entry_vals (hm_entries (db_topics w))) = {t. h_cells (hp_topics w) t \<noteq> None}"
proof -
  let ?m = "db_topics w"
  let ?es = "hm_entries ?m"
  have tight: "hm_tight ?m"
    using assms(3) by (simp add: owned_def)
  have entry: "\<exists>k. slot_match ?es k p \<and> hm_lookup ?m k = Some t"
    if e: "p < length ?es" "he_in_use (?es ! p)" "he_val (?es ! p) = Some t" for p t
  proof -
    obtain k where "he_key (?es ! p) = Some k"
      using assms(1) e(2) nth_mem [OF e(1)] by (auto simp: hm_wf_def)
    with e(2) have "slot_match ?es k p"
      by (simp add: slot_match_def)
    then show ?thesis
      using hm_tight_lookup [OF tight e(1)] e(3) by auto
  qed
  have once: "p = q"
    if pq: "p < length ?es" "he_in_use (?es ! p)" "he_val (?es ! p) = Some t" "q < length ?es" "he_in_use (?es ! q)" "he_val (?es ! q) = Some t"
    for p q t
  proof -
    obtain k k' where k: "slot_match ?es k p" "hm_lookup ?m k = Some t" "slot_match ?es k' q" "hm_lookup ?m k' = Some t"
      using entry [OF pq(1-3)] entry [OF pq(4-6)] by blast
    then obtain tp where "h_cells (hp_topics w) t = Some tp" "tp_name tp = k @ [0]" "tp_name tp = k' @ [0]"
      using assms(2) unfolding names_ok_def by (metis option.inject)
    then have "k = k'"
      by simp
    then have "hm_place ?m k = Some p" "hm_place ?m k = Some q"
      using tight k pq(1,4) unfolding hm_tight_def by blast+
    then show ?thesis
      by simp
  qed
  let ?F = "filter (\<lambda>p. he_in_use (?es ! p) \<and> he_val (?es ! p) \<noteq> None) [0..<length ?es]"
  have vals: "entry_vals ?es = map (\<lambda>p. the (he_val (?es ! p))) ?F"
  proof -
    have "entry_vals (map g ps) = map (\<lambda>p. the (he_val (g p))) (filter (\<lambda>p. he_in_use (g p) \<and> he_val (g p) \<noteq> None) ps)"
      for g and ps :: "nat list"
      by (induction ps) (auto simp: entry_vals_def non_null_def)
    from this [of "(!) ?es" "[0..<length ?es]"] show ?thesis
      by (simp add: map_nth)
  qed
  show "distinct (entry_vals ?es)"
    unfolding vals distinct_map by (auto simp: inj_on_def intro: once)
  show "set (entry_vals ?es) = {t. h_cells (hp_topics w) t \<noteq> None}"
  proof (intro equalityI subsetI)
    fix t assume "t \<in> set (entry_vals ?es)"
    then obtain p where "p < length ?es" "he_in_use (?es ! p)" "he_val (?es ! p) = Some t"
      by (auto simp: vals)
    then show "t \<in> {t. h_cells (hp_topics w) t \<noteq> None}"
      using entry [of p t] assms(2) by (auto simp: names_ok_def)
  next
    fix t assume "t \<in> {t. h_cells (hp_topics w) t \<noteq> None}"
    then obtain k where k: "hm_lookup ?m k = Some t"
      using ownedD(2) [OF assms(3)] by auto
    then obtain i where "hm_find ?m k = Some i" "he_val (?es ! i) = Some t"
      by (auto simp: hm_lookup_def split: option.splits)
    then show "t \<in> set (entry_vals ?es)"
      using hm_find_less [OF assms(1)] by (force simp: vals slot_match_def hm_find_def dest: find_Some_in)
  qed
qed

section \<open>Releasing the topics\<close>

abbreviation listed_sub :: "server \<Rightarrow> nat \<Rightarrow> bool" where
  "listed_sub w s \<equiv> \<exists>t tp. h_cells (hp_topics w) t = Some tp \<and> Some s \<in> set (items w tp)"

text \<open>The topics of \<open>ts\<close> are left of those of \<open>w\<close>; the others went with all they own.\<close>

definition topics_left :: "server \<Rightarrow> (nat \<Rightarrow> nat list) \<Rightarrow> nat list \<Rightarrow> server \<Rightarrow> bool" where
  "topics_left w N ts w' \<longleftrightarrow> distinct ts \<and> disposable w' N \<and> set ts = {t. h_cells (hp_topics w') t \<noteq> None} \<and>
     (\<forall>s. listed_sub w s \<and> \<not> listed_sub w' s \<longrightarrow> h_cells (hp_subs w') s = None) \<and>
     (\<forall>s. \<not> listed_sub w s \<longrightarrow> h_cells (hp_subs w') s = h_cells (hp_subs w) s) \<and>
     (\<forall>s. listed_sub w' s \<longrightarrow> listed_sub w s) \<and>
     (\<exists>hn hs hm ht. w' = w\<lparr>hp_nodes := hn, hp_subs := hs, hp_msgs := hm, hp_topics := ht\<rparr>)"

lemma without_topic_listed:
  assumes "disposable w N" and "h_cells (hp_topics w) t = Some tp"
  shows "listed_sub (without_topic w N t tp) s \<longleftrightarrow> listed_sub w s \<and> Some s \<notin> set (items w tp)"
proof -
  have other: "items (without_topic w N t tp) tp' = items w tp' \<and> set (items w tp) \<inter> set (items w tp') = {}"
    if "h_cells (hp_topics w) t' = Some tp'" "t' \<noteq> t" for t' tp'
    using without_topic_other(2) [OF assms that] owned_apart [OF _ assms(2) that(1)] assms(1) that(2)
    by (auto simp: disposable_def apart_def)
  have cells: "h_cells (hp_topics (without_topic w N t tp)) t' = Some tp' \<longleftrightarrow> t' \<noteq> t \<and> h_cells (hp_topics w) t' = Some tp'" for t' tp'
    by (auto simp: without_topic_def)
  show ?thesis
    unfolding cells
  proof (intro iffI)
    assume "\<exists>t' tp'. (t' \<noteq> t \<and> h_cells (hp_topics w) t' = Some tp') \<and> Some s \<in> set (items (without_topic w N t tp) tp')"
    then obtain t' tp' where "t' \<noteq> t" "h_cells (hp_topics w) t' = Some tp'" "Some s \<in> set (items (without_topic w N t tp) tp')"
      by blast
    then show "listed_sub w s \<and> Some s \<notin> set (items w tp)"
      using other [of t' tp'] by auto
  next
    assume "listed_sub w s \<and> Some s \<notin> set (items w tp)"
    then obtain t' tp' where t': "h_cells (hp_topics w) t' = Some tp'" "Some s \<in> set (items w tp')" "Some s \<notin> set (items w tp)"
      by blast
    then have "t' \<noteq> t"
      using assms(2) by auto
    then show "\<exists>t' tp'. (t' \<noteq> t \<and> h_cells (hp_topics w) t' = Some tp') \<and> Some s \<in> set (items (without_topic w N t tp) tp')"
      using t' other [of t' tp'] by auto
  qed
qed

lemma topics_left_step:
  assumes "topics_left w N (t # ts) w'" and "he_val e = Some t"
  shows "\<exists>w''. destroy_topics () e w' = Inr (w'', HASHMAP_OK) \<and> topics_left w N ts w''"
proof -
  have d: "disposable w' N" "distinct (t # ts)" "set (t # ts) = {t. h_cells (hp_topics w') t \<noteq> None}"
    using assms(1) by (simp_all add: topics_left_def)
  then obtain tp where t: "h_cells (hp_topics w') t = Some tp"
    by auto
  let ?w = "without_topic w' N t tp"
  note sub = without_topic_listed [OF d(1) t]
  have sel: "h_cells (hp_topics ?w) = (h_cells (hp_topics w'))(t := None)"
    "h_cells (hp_subs ?w) s = (if Some s \<in> set (items w' tp) then None else h_cells (hp_subs w') s)" for s
    by (simp_all add: without_topic_def non_null_items)
  have "set ts = {t. h_cells (hp_topics ?w) t \<noteq> None}"
  proof -
    have "{x. h_cells (hp_topics ?w) x \<noteq> None} = {x. h_cells (hp_topics w') x \<noteq> None} - {t}"
      unfolding sel(1) by auto
    then show ?thesis
      using d(2) d(3) [symmetric] by auto
  qed
  moreover have "\<exists>hn hs hm ht. ?w = w\<lparr>hp_nodes := hn, hp_subs := hs, hp_msgs := hm, hp_topics := ht\<rparr>"
  proof -
    obtain hn hs hm ht where "w' = w\<lparr>hp_nodes := hn, hp_subs := hs, hp_msgs := hm, hp_topics := ht\<rparr>"
      using assms(1) unfolding topics_left_def by blast
    then have "?w = w\<lparr>hp_nodes := hp_nodes ?w, hp_subs := hp_subs ?w, hp_msgs := hp_msgs ?w, hp_topics := hp_topics ?w\<rparr>"
      by (simp add: without_topic_def)
    then show ?thesis
      by blast
  qed
  moreover have "\<forall>s. listed_sub w s \<and> \<not> listed_sub ?w s \<longrightarrow> h_cells (hp_subs ?w) s = None"
    "\<forall>s. \<not> listed_sub w s \<longrightarrow> h_cells (hp_subs ?w) s = h_cells (hp_subs w) s" "\<forall>s. listed_sub ?w s \<longrightarrow> listed_sub w s"
    unfolding sub sel(2) using assms(1) t unfolding topics_left_def by (metis (no_types, lifting))+
  ultimately have "topics_left w N ts ?w"
    using without_topic_disposable [OF d(1) t] d(2) unfolding topics_left_def by simp
  then show ?thesis
    using assms(2) by (simp add: destroy_topics_def destroy_topic_ok [OF d(1) t])
qed

text \<open>What is left of a database without its topics.\<close>

definition topics_gone :: "server \<Rightarrow> server \<Rightarrow> bool" where
  "topics_gone w w' \<longleftrightarrow> (\<forall>t. h_cells (hp_topics w') t = None) \<and> (\<forall>m. h_cells (hp_msgs w') m = None) \<and>
     (\<forall>s. h_cells (hp_subs w') s = (if listed_sub w s then None else h_cells (hp_subs w) s)) \<and>
     (\<exists>hn hs hm ht. w' = w\<lparr>hp_nodes := hn, hp_subs := hs, hp_msgs := hm, hp_topics := ht\<rparr>)"

lemma release_topics:
  assumes "db_inv w" and "owned w"
  obtains w' where "hashmap_release_map (db_topics w) destroy_topics w = Inr (w', None)" "topics_gone w w'"
proof -
  obtain N where N: "topics_ok w N" and wf: "hm_wf (db_topics w)" "names_ok w" "heap_ok (hp_nodes w)"
    using assms(1) by (auto simp: db_inv_def hm_inv_def)
  have "\<exists>hn hs hm ht. w = w\<lparr>hp_nodes := hn, hp_subs := hs, hp_msgs := hm, hp_topics := ht\<rparr>"
    by (rule exI [of _ "hp_nodes w"], rule exI [of _ "hp_subs w"], rule exI [of _ "hp_msgs w"], rule exI [of _ "hp_topics w"]) simp
  then have "topics_left w N (entry_vals (hm_entries (db_topics w))) w"
    using topics_listed [OF wf(1,2) assms(2)] N wf(3) assms(2) unfolding topics_left_def disposable_def by blast
  with wf(1) have "\<exists>w'. hashmap_release_map (db_topics w) destroy_topics w = Inr (w', None) \<and> topics_left w N [] w'"
    by (rule release_map_vals) (simp add: destroy_topics_def, rule topics_left_step)
  then obtain w' where w': "hashmap_release_map (db_topics w) destroy_topics w = Inr (w', None)" "topics_left w N [] w'"
    by blast
  then have "owned w'" "h_cells (hp_topics w') t = None" for t
    by (auto simp: topics_left_def disposable_def)
  then have "h_cells (hp_msgs w') m = None" for m
    unfolding owned_def by (metis option.distinct(1))
  with w'(2) \<open>\<And>t. h_cells (hp_topics w') t = None\<close> have "topics_gone w w'"
    unfolding topics_left_def topics_gone_def by simp
  with w'(1) show thesis
    by (rule that)
qed

section \<open>Releasing the clients\<close>

lemma free_client_ok:
  assumes "clients_ok X w" and "h_cells (hp_clients w) c = Some cl"
  obtains h where "free_client w (Some c) = Inr (w\<lparr>hp_pkts := h, hp_clients := h_upd (hp_clients w) c None\<rparr>, None)"
    "clients_ok X (w\<lparr>hp_pkts := h, hp_clients := h_upd (hp_clients w) c None\<rparr>)"
proof -
  have h: "\<exists>h. free_reply w (cl_reply cl) = Inr (w\<lparr>hp_pkts := h\<rparr>, None) \<and> heap_ok h \<and>
    (\<forall>q. \<not> owns cl q \<longrightarrow> h_cells h q = h_cells (hp_pkts w) q)"
  proof (cases "cl_reply cl")
    case None
    then show ?thesis
      using assms(1) by (intro exI [of _ "hp_pkts w"]) (simp add: free_reply_def clients_ok_def)
  next
    case (Some r)
    obtain h where "free_reply w (Some r) = Inr (w\<lparr>hp_pkts := h\<rparr>, None)" "heap_ok h"
        "\<forall>q. \<not> owns cl q \<longrightarrow> h_cells h q = h_cells (hp_pkts w) q"
      by (rule free_reply_ok [OF assms Some])
    then show ?thesis
      unfolding Some by (intro exI [of _ h]) simp
  qed
  then obtain h where h: "free_reply w (cl_reply cl) = Inr (w\<lparr>hp_pkts := h\<rparr>, None)" "heap_ok h"
      "\<And>q. \<not> owns cl q \<Longrightarrow> h_cells h q = h_cells (hp_pkts w) q"
    by blast
  let ?w = "w\<lparr>hp_pkts := h, hp_clients := h_upd (hp_clients w) c None\<rparr>"
  have old: "a \<noteq> c \<and> h_cells (hp_clients w) a = Some x" if "h_cells (hp_clients ?w) a = Some x" for a x
    using that by (simp split: if_splits)
  have ok: "reply_ok (hp_pkts ?w) x \<and> (a \<notin> fst X \<longrightarrow> phase_ok x)" if "h_cells (hp_clients ?w) a = Some x" for a x
  proof -
    have a: "a \<noteq> c" "h_cells (hp_clients w) a = Some x"
      using old [OF that] by auto
    have keep: "h_cells h q = h_cells (hp_pkts w) q" if "owns x q" for q
      using assms(1,2) a that h(3) unfolding clients_ok_def by blast
    have "reply_ok (hp_pkts w) x" "a \<notin> fst X \<longrightarrow> phase_ok x"
      using clients_okD [OF assms(1) a(2)] by auto
    then show ?thesis
      using keep by (auto simp: reply_ok_def owns_def)
  qed
  have inj: "a = b" if "h_cells (hp_clients ?w) a = Some x" "h_cells (hp_clients ?w) b = Some y" "owns x q" "owns y q" for a b x y q
    using old [OF that(1)] old [OF that(2)] that(3,4) assms(1) unfolding clients_ok_def by blast
  have "heap_ok (hp_pkts ?w)"
    using h(2) by simp
  with ok inj have "clients_ok X ?w"
    unfolding clients_ok_def by blast
  moreover have "free_client w (Some c) = Inr (?w, None)"
    using assms(2) by (simp add: free_client_def object_simps h(1) heap_simps)
  ultimately show thesis
    using that by blast
qed

definition clients_left :: "server \<Rightarrow> transit \<Rightarrow> nat list \<Rightarrow> nat list \<Rightarrow> server \<Rightarrow> bool" where
  "clients_left w X all cs w' \<longleftrightarrow> distinct cs \<and> clients_ok X w' \<and> set cs \<subseteq> set all \<and> (\<forall>c\<in>set cs. h_cells (hp_clients w') c \<noteq> None) \<and>
     (\<forall>c. h_cells (hp_clients w') c = (if c \<in> set all - set cs then None else h_cells (hp_clients w) c)) \<and>
     (\<exists>hp hc. w' = w\<lparr>hp_pkts := hp, hp_clients := hc\<rparr>)"

lemma clients_left_step:
  assumes "clients_left w X all (c # cs) w'" and "he_val e = Some c"
  shows "\<exists>w''. destroy_clients () e w' = Inr (w'', HASHMAP_OK) \<and> clients_left w X all cs w''"
proof -
  obtain cl where c: "clients_ok X w'" "h_cells (hp_clients w') c = Some cl"
    using assms(1) by (auto simp: clients_left_def)
  obtain h where h: "free_client w' (Some c) = Inr (w'\<lparr>hp_pkts := h, hp_clients := h_upd (hp_clients w') c None\<rparr>, None)"
      "clients_ok X (w'\<lparr>hp_pkts := h, hp_clients := h_upd (hp_clients w') c None\<rparr>)"
    by (rule free_client_ok [OF c])
  let ?w = "w'\<lparr>hp_pkts := h, hp_clients := h_upd (hp_clients w') c None\<rparr>"
  obtain hp hc where "w' = w\<lparr>hp_pkts := hp, hp_clients := hc\<rparr>"
    using assms(1) unfolding clients_left_def by blast
  then have "?w = w\<lparr>hp_pkts := h, hp_clients := hp_clients ?w\<rparr>"
    by simp
  then have "\<exists>hp hc. ?w = w\<lparr>hp_pkts := hp, hp_clients := hc\<rparr>"
    by blast
  then have "clients_left w X all cs ?w"
    using h(2) assms(1) unfolding clients_left_def by auto
  then show ?thesis
    using assms(2) h(1) by (simp add: destroy_clients_def)
qed

lemma entry_clients_vals:
  assumes "\<forall>e\<in>set es. he_in_use e \<longrightarrow> he_val e \<noteq> None"
  shows "entry_vals es = entry_clients es"
  using assms by (induction es) (auto simp: entry_vals_def entry_clients_def non_null_def)

lemma release_clients:
  assumes "hm_wf (db_clients w)" and "clients_ok X w" and "distinct (entry_clients (hm_entries (db_clients w)))"
    and "\<forall>e\<in>set (hm_entries (db_clients w)). he_in_use e \<longrightarrow> (\<exists>a cl. he_val e = Some a \<and> h_cells (hp_clients w) a = Some cl)"
  obtains w' where "hashmap_release_map (db_clients w) destroy_clients w = Inr (w', None)"
    "clients_left w X (entry_clients (hm_entries (db_clients w))) [] w'"
proof -
  let ?cs = "entry_clients (hm_entries (db_clients w))"
  have vals: "entry_vals (hm_entries (db_clients w)) = ?cs"
    using assms(4) by (intro entry_clients_vals) auto
  have "\<exists>hp hc. w = w\<lparr>hp_pkts := hp, hp_clients := hc\<rparr>"
    by (rule exI [of _ "hp_pkts w"], rule exI [of _ "hp_clients w"]) simp
  moreover have "h_cells (hp_clients w) c \<noteq> None" if "c \<in> set ?cs" for c
    using that assms(4) by (fastforce simp: entry_clients_def)
  ultimately have "clients_left w X ?cs (entry_vals (hm_entries (db_clients w))) w"
    using assms(2,3) unfolding vals clients_left_def by simp
  with assms(1) have "\<exists>w'. hashmap_release_map (db_clients w) destroy_clients w = Inr (w', None) \<and> clients_left w X ?cs [] w'"
    by (rule release_map_vals) (simp add: destroy_clients_def, rule clients_left_step)
  then show thesis
    using that by blast
qed

section \<open>Properties\<close>

text \<open>
  C15: Shutting down releases what the broker owns, exactly once.  From every state that satisfies the invariant of the
  running broker, with no peers and no message waiting for an acknowledgement, and whose client table
  leads to live clients and lists none twice, \<open>server_cleanup\<close> returns without touching freed memory:
  no topic and no retained message is left, the subscriptions in the lists of the topics are freed and
  no other is, the clients of the table are freed while those that never connected are not, and nothing is left of
  the three maps.\<close>

theorem cleanup_releases:
  assumes "busy X w" and "cs = entry_clients (hm_entries (db_clients w))" and "distinct cs"
    and "\<forall>e\<in>set (hm_entries (db_clients w)). he_in_use e \<longrightarrow> (\<exists>a cl. he_val e = Some a \<and> h_cells (hp_clients w) a = Some cl)"
    and "l_len (db_peers w) = 0" and "hm_size (db_ack_waiting w) = 0"
  shows "\<exists>r w'. server_cleanup w = Inr r \<and> rm_heaps r = w' \<and>
    (\<forall>t. h_cells (hp_topics w') t = None) \<and> (\<forall>m. h_cells (hp_msgs w') m = None) \<and>
    (\<forall>s. h_cells (hp_subs w') s =
      (if \<exists>t tp. h_cells (hp_topics w) t = Some tp \<and> Some s \<in> set (list_items (hp_nodes w, tp_subscribers tp)) then None
       else h_cells (hp_subs w) s)) \<and>
    (\<forall>c. h_cells (hp_clients w') c = (if c \<in> set cs then None else h_cells (hp_clients w) c)) \<and>
    rm_topics r = None \<and> rm_clients r = None \<and> rm_ack_waiting r = None"
proof -
  have inv: "db_inv w" "owned w" "clients_ok X w" "hm_wf (db_clients w)"
    using assms(1) by (simp_all add: busy_def tidy_def db_inv_def hm_inv_def)
  obtain w1 where w1: "hashmap_release_map (db_topics w) destroy_topics w = Inr (w1, None)" "topics_gone w w1"
    by (rule release_topics [OF inv(1,2)])
  then obtain hn hs hm ht where w1_eq: "w1 = w\<lparr>hp_nodes := hn, hp_subs := hs, hp_msgs := hm, hp_topics := ht\<rparr>"
    unfolding topics_gone_def by blast
  have same: "db_clients w1 = db_clients w" "hp_clients w1 = hp_clients w" "db_peers w1 = db_peers w" "db_ack_waiting w1 = db_ack_waiting w"
    "hp_pkts w1 = hp_pkts w"
    by (simp_all add: w1_eq)
  have c1: "clients_ok X w1"
    using inv(3) unfolding clients_ok_def same .
  obtain w2 where w2: "hashmap_release_map (db_clients w1) destroy_clients w1 = Inr (w2, None)"
      "clients_left w1 X (entry_clients (hm_entries (db_clients w1))) [] w2"
    by (rule release_clients [OF _ c1]) (use inv(4) assms(2-4) in \<open>simp_all add: same\<close>)
  then obtain hp hc where w2_eq: "w2 = w1\<lparr>hp_pkts := hp, hp_clients := hc\<rparr>"
    unfolding clients_left_def by blast
  have gone: "h_cells (hp_clients w2) c = (if c \<in> set cs then None else h_cells (hp_clients w) c)" for c
    using w2(2) by (simp add: clients_left_def same assms(2))
  have "server_cleanup w = Inr \<lparr>rm_heaps = w2, rm_topics = None, rm_clients = None, rm_ack_waiting = None\<rparr>" (is "_ = Inr ?r")
    using w1(1) w2(1) assms(5,6)
    by (simp add: server_cleanup_def hashmap_release_def hashmap_iterate2_def list_release_def w2_eq same)
  then show ?thesis
    using w1(2) gone unfolding topics_gone_def items_def by (intro exI [of _ ?r] exI [of _ w2]) (simp add: w2_eq)
qed

text \<open>A topic with a subscription and a retained message, and its subscriber in the client table.\<close>

definition table1 :: hashmap where
  "table1 = \<lparr>hm_table_size = 2, hm_size = 1, hm_entries = [empty_entry, \<lparr>he_key = Some [97], he_val = Some 0, he_in_use = True\<rparr>],
     hm_locked = False\<rparr>"

definition last_broker :: server where
  "last_broker = server1\<lparr>hp_topics := one_cell 1 (topic1\<lparr>tp_retained := Some 0\<rparr>), hp_msgs := one_cell 0 (retained_of (message1 1) None 0),
     db_clients := table1, sv_epoll := Map.empty\<rparr>"

lemma table1_ok: "hm_inv table1" "entry_clients (hm_entries table1) = [0]"
  by (simp_all add: hm_inv_def hm_wf_def table1_def empty_entry_def entry_clients_def)

lemma last_broker_items: "items last_broker (topic1\<lparr>tp_retained := r\<rparr>) = [Some 0]"
proof -
  have lw: "list_weak (hp_nodes last_broker) (tp_subscribers (topic1\<lparr>tp_retained := r\<rparr>)) [0]"
    by (simp add: list_weak_def last_broker_def topic1_def db1_linked_def put_subs_def)
  show ?thesis
    unfolding items_def list_weak_items [OF lw] by (simp add: last_broker_def db1_linked_def put_subs_def cell_data_def)
qed

lemma last_broker_busy: "busy ({}, Map.empty) last_broker"
proof -
  have "db_inv (server1\<lparr>db_clients := table1\<rparr>)"
    by (rule db_inv_table [OF server1_ok(1) table1_ok(1)])
  moreover have "grows (server1\<lparr>db_clients := table1\<rparr>) last_broker"
    using server1_ok(1) table1_ok(1)
    by (auto simp: grows_def db_inv_def last_broker_def topic_core_def h_ext_def topic1_def db1_linked_def)
  ultimately have db: "db_inv last_broker"
    by (rule grows_db)
  have "hm_tight hm_c"
    unfolding hm_c_def using hm0_inv hm0_tight by (intro hm_tight_stored hm_seq_slots(1)) (simp_all add: hm_inv_def)
  then have "owned last_broker"
    using hm_lookup_hm_c last_broker_items
    by (auto simp: owned_def topic_owned_def last_broker_def topic1_def topic0_def split: if_splits)
  moreover have "lens_ok last_broker"
    by (simp add: lens_ok_def last_broker_def topic1_def db1_linked_def)
  ultimately show ?thesis
    using db by (simp add: busy_def tidy_def clients_ok_def epoll_ok_def waiting_ok_def last_broker_def)
      (simp add: reply_ok_def phase_ok_def client0_def db1_def heap_ok_def empty_heap_def)
qed

lemma cleanup_releases_witness:
  "\<exists>r w'. h_cells (hp_topics last_broker) 1 \<noteq> None \<and> server_cleanup last_broker = Inr r \<and> rm_heaps r = w' \<and>
    h_cells (hp_topics w') 1 = None \<and> h_cells (hp_msgs w') 0 = None \<and> h_cells (hp_subs w') 0 = None \<and> h_cells (hp_clients w') 0 = None"
proof -
  have sel: "db_clients last_broker = table1" "h_cells (hp_topics last_broker) 1 = Some (topic1\<lparr>tp_retained := Some 0\<rparr>)"
      "h_cells (hp_clients last_broker) 0 = Some client0" "db_peers last_broker = \<lparr>l_head = None, l_tail = None, l_len = 0\<rparr>"
      "db_ack_waiting last_broker = hm0"
    by (simp_all add: last_broker_def) (simp_all add: server1_def sizigydb.defs db1_linked_def db1_def put_subs_def)
  have "Some 0 \<in> set (list_items (hp_nodes last_broker, tp_subscribers (topic1\<lparr>tp_retained := Some 0\<rparr>)))"
    using last_broker_items [unfolded items_def] by simp
  then have sub: "\<exists>t tp. h_cells (hp_topics last_broker) t = Some tp \<and> Some 0 \<in> set (list_items (hp_nodes last_broker, tp_subscribers tp))"
    using sel(2) by blast
  have entries: "\<forall>e\<in>set (hm_entries (db_clients last_broker)). he_in_use e \<longrightarrow>
      (\<exists>a cl. he_val e = Some a \<and> h_cells (hp_clients last_broker) a = Some cl)"
    by (simp add: sel(1)) (simp add: table1_def empty_entry_def sel(3))
  have small: "[0] = entry_clients (hm_entries (db_clients last_broker))" "distinct [0::nat]" "l_len (db_peers last_broker) = 0"
      "hm_size (db_ack_waiting last_broker) = 0"
    by (simp_all add: sel table1_ok(2) hm0_def)
  obtain r w' where w': "server_cleanup last_broker = Inr r" "rm_heaps r = w'" "\<forall>t. h_cells (hp_topics w') t = None" "\<forall>m. h_cells (hp_msgs w') m = None"
      "\<forall>s. h_cells (hp_subs w') s =
        (if \<exists>t tp. h_cells (hp_topics last_broker) t = Some tp \<and> Some s \<in> set (list_items (hp_nodes last_broker, tp_subscribers tp)) then None
         else h_cells (hp_subs last_broker) s)"
      "\<forall>c. h_cells (hp_clients w') c = (if c \<in> set [0] then None else h_cells (hp_clients last_broker) c)"
    using cleanup_releases [OF last_broker_busy small(1,2) entries small(3,4)] by blast
  show ?thesis
    by (rule exI [of _ r], rule exI [of _ w']) (use w' sub sel(2) in simp)
qed

end
