(* ===== verification/Sz_Shutdown.thy ===== *)
theory Sz_Shutdown
  imports Sz_Cleanup
begin

text \<open>
  The stop protocol: the signal handler of \<^verbatim>\<open>main.c\<close> writes to the event descriptor \<open>config.run\<close>, the
  threads of \<open>start_server\<close> read it and leave, and the main thread joins the workers before it
  cleans up.  The threads interleave in any order; a run is the list of the steps they make.
\<close>

section \<open>Threads and the event descriptor\<close>

definition EPOLL_WORKERS :: nat where
  "EPOLL_WORKERS = 4"

text \<open>
  Where a thread that runs \<open>worker\<close> is: in \<open>epoll_wait\<close>, serving events of clients, holding a batch
  that contains the event of \<open>config.run\<close>, or returned.
\<close>

datatype worker_phase = Waiting | Serving | Notified | Stopped

text \<open>
  The counter of the event descriptor; the workers by index; the thread that runs the signal handler with the number of
  writes it made; the variable \<open>val\<close> of the keepalive thread, and whether that thread runs.
\<close>

record threads =
  th_counter :: nat
  th_workers :: "worker_phase list"
  th_handler :: "(nat \<times> nat) option"
  th_val :: nat
  th_keepalive :: bool

text \<open>
  The threads \<open>start_server\<close> creates: the bus worker, the pool, and its own thread as a worker, then
  the keepalive thread, which has the index behind theirs.  The keepalive thread does not initialise
  its \<open>val\<close>, so the value \<open>v\<close> it starts from can be any.
\<close>

definition worker_threads :: nat where
  "worker_threads = 1 + EPOLL_WORKERS + 1"

definition start_threads :: "nat \<Rightarrow> threads" where
  "start_threads v = \<lparr>th_counter = 0, th_workers = replicate worker_threads Waiting, th_handler = None, th_val = v, th_keepalive = True\<rparr>"

abbreviation main_thread :: nat where
  "main_thread \<equiv> 1 + EPOLL_WORKERS"

abbreviation keepalive_thread :: nat where
  "keepalive_thread \<equiv> worker_threads"

text \<open>The calls of \<open>pthread_join\<close> return when every worker has; the keepalive thread is not joined.\<close>

definition joined :: "threads \<Rightarrow> bool" where
  "joined s \<longleftrightarrow> (\<forall>p\<in>set (th_workers s). p = Stopped)"

text \<open>\<open>eventfd_read\<close> on a non-blocking descriptor: fails on zero, otherwise takes the whole counter.\<close>

definition eventfd_read :: "nat \<Rightarrow> nat option \<times> nat" where
  "eventfd_read c = (if c = 0 then None else Some c, 0)"

definition set_worker :: "threads \<Rightarrow> nat \<Rightarrow> worker_phase \<Rightarrow> threads" where
  "set_worker s i p = s\<lparr>th_workers := (th_workers s)[i := p]\<rparr>"

text \<open>The thread \<open>i\<close> runs the signal handler; it runs \<open>worker\<close>, is in phase \<open>p\<close> and is not interrupted.\<close>

definition interrupted :: "threads \<Rightarrow> nat \<Rightarrow> bool" where
  "interrupted s i \<longleftrightarrow> map_option fst (th_handler s) = Some i"

definition at_phase :: "threads \<Rightarrow> nat \<Rightarrow> worker_phase \<Rightarrow> bool" where
  "at_phase s i p \<longleftrightarrow> i < length (th_workers s) \<and> th_workers s ! i = p \<and> \<not> interrupted s i"

text \<open>A worker reads the event descriptor, with whatever result, and leaves its loop.\<close>

definition worker_stop :: "threads \<Rightarrow> nat \<Rightarrow> threads" where
  "worker_stop s i = (set_worker s i Stopped)\<lparr>th_counter := snd (eventfd_read (th_counter s))\<rparr>"

text \<open>The bound of the loop in the signal handler, and one turn of it.\<close>

definition handler_writes :: nat where
  "handler_writes = EPOLL_WORKERS + 1"

definition handler_write :: "threads \<Rightarrow> nat \<Rightarrow> nat \<Rightarrow> threads" where
  "handler_write s t n = s\<lparr>th_counter := th_counter s + 1, th_handler := Some (t, n + 1)\<rparr>"

text \<open>
  The handler returns to the code it interrupted.  A thread that was in \<open>epoll_wait\<close> gets \<open>EINTR\<close> there, whatever
  the flags of the signal action, and leaves the loop of \<open>worker\<close>, whose condition asks for a positive count.
\<close>

definition handler_return :: "threads \<Rightarrow> nat \<Rightarrow> threads" where
  "handler_return s t =
     (if t < length (th_workers s) \<and> th_workers s ! t = Waiting then set_worker s t Stopped else s)\<lparr>th_handler := None\<rparr>"

text \<open>A turn of the loop of \<open>keepalive\<close>: a failed read leaves \<open>val\<close> as it is.\<close>

definition keepalive_poll :: "threads \<Rightarrow> threads" where
  "keepalive_poll s =
     (let (r, c) = eventfd_read (th_counter s);
          val = (case r of None \<Rightarrow> th_val s | Some x \<Rightarrow> x)
      in s\<lparr>th_counter := c, th_val := val, th_keepalive := (val \<noteq> 1)\<rparr>)"

text \<open>
  The steps, each with the worker that makes it.  \<open>Serve\<close> takes a batch of client events from \<open>epoll_wait\<close> and \<open>Served\<close>
  is done with it.  \<open>Told\<close> takes a batch with the event of \<open>config.run\<close>: the descriptor is registered level triggered, so
  every thread that waits can be told of it while the counter is not zero.  The worker then reads the counter and
  leaves: with \<open>Stop\<close> it finds a positive counter, with \<open>Late\<close> another thread was faster and the read fails.
  \<open>Failed\<close> is a call of \<open>epoll_wait\<close> that gives no events for another reason than the signal.  \<open>Alias\<close> is the event of a
  client whose address has the value of \<open>config.run\<close> in its low half, the half \<open>data.fd\<close> shows: the
  worker takes it for the event of \<open>config.run\<close>.  \<open>Poll\<close> is a turn of the keepalive thread, \<open>Turn\<close> and \<open>Done\<close> are
  those of the signal handler.
\<close>

datatype thread_label = Serve nat | Served nat | Told nat | Stop nat | Late nat | Failed nat | Alias nat | Poll | Turn | Done

inductive thread_step :: "thread_label \<Rightarrow> threads \<Rightarrow> threads \<Rightarrow> bool" where
  serve: "at_phase s i Waiting \<Longrightarrow> thread_step (Serve i) s (set_worker s i Serving)"
| served: "at_phase s i Serving \<Longrightarrow> thread_step (Served i) s (set_worker s i Waiting)"
| told: "at_phase s i Waiting \<Longrightarrow> th_counter s > 0 \<Longrightarrow> thread_step (Told i) s (set_worker s i Notified)"
| stop: "at_phase s i Notified \<Longrightarrow> th_counter s > 0 \<Longrightarrow> thread_step (Stop i) s (worker_stop s i)"
| late: "at_phase s i Notified \<Longrightarrow> th_counter s = 0 \<Longrightarrow> thread_step (Late i) s (worker_stop s i)"
| failed: "at_phase s i Waiting \<Longrightarrow> thread_step (Failed i) s (set_worker s i Stopped)"
| aliased: "at_phase s i Serving \<Longrightarrow> thread_step (Alias i) s (worker_stop s i)"
| poll: "th_keepalive s \<Longrightarrow> \<not> interrupted s keepalive_thread \<Longrightarrow> thread_step Poll s (keepalive_poll s)"
| turn: "th_handler s = Some (t, n) \<Longrightarrow> n < handler_writes \<Longrightarrow> thread_step Turn s (handler_write s t n)"
| handler_done: "th_handler s = Some (t, n) \<Longrightarrow> \<not> n < handler_writes \<Longrightarrow> thread_step Done s (handler_return s t)"

inductive thread_run :: "threads \<Rightarrow> thread_label list \<Rightarrow> threads \<Rightarrow> bool" where
  start: "thread_run s [] s"
| more: "thread_run s ls s' \<Longrightarrow> thread_step l s' s'' \<Longrightarrow> thread_run s (ls @ [l]) s''"

inductive_cases thread_run_NilE: "thread_run s [] s'"

text \<open>
  A signal reaches a thread that exists, and its handler starts; the main thread exists after its \<open>worker\<close> has returned.
\<close>

inductive signal_step :: "nat \<Rightarrow> threads \<Rightarrow> threads \<Rightarrow> bool" where
  worker: "t < length (th_workers s) \<Longrightarrow> th_workers s ! t \<noteq> Stopped \<or> t = main_thread \<Longrightarrow> th_handler s = None \<Longrightarrow>
    signal_step t s (s\<lparr>th_handler := Some (t, 0)\<rparr>)"
| keepalive: "th_keepalive s \<Longrightarrow> th_handler s = None \<Longrightarrow>
    signal_step keepalive_thread s (s\<lparr>th_handler := Some (keepalive_thread, 0)\<rparr>)"

lemmas thread_defs = at_phase_def interrupted_def set_worker_def worker_stop_def handler_write_def handler_return_def eventfd_read_def

section \<open>How many workers have returned\<close>

definition stopped :: "threads \<Rightarrow> nat" where
  "stopped s = count_list (th_workers s) Stopped"

text \<open>The steps by which a worker leaves without taking a write of the handler.\<close>

fun irregular :: "thread_label \<Rightarrow> bool" where
  "irregular (Late i) = True"
| "irregular (Failed i) = True"
| "irregular (Alias i) = True"
| "irregular _ = False"

definition irregulars :: "thread_label list \<Rightarrow> nat" where
  "irregulars ls = length (filter irregular ls)"

text \<open>The thread \<open>t\<close> is a worker in \<open>epoll_wait\<close>.\<close>

definition in_epoll_wait :: "threads \<Rightarrow> nat \<Rightarrow> bool" where
  "in_epoll_wait s t \<longleftrightarrow> t < length (th_workers s) \<and> th_workers s ! t = Waiting"

lemma irregulars_simps [simp]:
  "irregulars [] = 0"
  "irregulars (l # ls) = (if irregular l then 1 else 0) + irregulars ls"
  "irregulars (ls @ ls') = irregulars ls + irregulars ls'"
  by (simp_all add: irregulars_def)

lemma count_update:
  "i < length xs \<Longrightarrow> count_list (xs[i := p]) x + (if xs ! i = x then 1 else 0) = count_list xs x + (if p = x then 1 else 0)"
proof (induction xs arbitrary: i)
  case (Cons y ys)
  then show ?case
    by (cases i) fastforce+
qed simp

lemma stopped_joined: "joined s \<longleftrightarrow> stopped s = length (th_workers s)"
proof -
  have "count_list xs x = length xs \<longleftrightarrow> (\<forall>y\<in>set xs. y = x)" for xs and x :: worker_phase
    using count_le_length [of _ x] by (induction xs) (auto, metis Suc_n_not_le_n)
  then show ?thesis
    by (simp add: joined_def stopped_def)
qed

text \<open>What the handler has still to give: the writes to come, and the interruption of a waiting worker.\<close>

definition to_come :: "threads \<Rightarrow> nat" where
  "to_come s = (case th_handler s of None \<Rightarrow> 0
     | Some (t, n) \<Rightarrow> (handler_writes - n) + (if in_epoll_wait s t then 1 else 0))"

text \<open>Every regular return of a worker uses up at least one unit of the counter or of what is to come.\<close>

lemma budget_step:
  assumes "thread_step l s s'"
  shows "stopped s' + th_counter s' + to_come s' \<le> stopped s + th_counter s + to_come s + (if irregular l then 1 else 0)"
proof -
  have "stopped (set_worker s i p) + (if th_workers s ! i = Stopped then 1 else 0) = stopped s + (if p = Stopped then 1 else 0)"
    if "i < length (th_workers s)" for i p
    using count_update [OF that] by (simp add: stopped_def set_worker_def)
  note cnt = this
  have tc: "to_come (set_worker s i p) = to_come s" "to_come (worker_stop s i) = to_come s"
    if "at_phase s i q" for i p q
    using that by (auto simp: to_come_def thread_defs in_epoll_wait_def nth_list_update split: option.splits)
  show ?thesis
    using assms
  proof cases
    case (poll)
    then show ?thesis
      by (auto simp: keepalive_poll_def eventfd_read_def stopped_def to_come_def in_epoll_wait_def split: option.splits)
  next
    case (turn t n)
    then show ?thesis
      by (auto simp: handler_write_def stopped_def to_come_def in_epoll_wait_def)
  next
    case (handler_done t n)
    then show ?thesis
      using cnt [of t Stopped] by (auto simp: handler_return_def stopped_def to_come_def in_epoll_wait_def set_worker_def)
  qed (use cnt tc in \<open>fastforce simp: at_phase_def worker_stop_def eventfd_read_def set_worker_def stopped_def\<close>)+
qed

lemma budget_run:
  "thread_run s ls s' \<Longrightarrow> stopped s' + th_counter s' + to_come s' \<le> stopped s + th_counter s + to_come s + irregulars ls"
proof (induction rule: thread_run.induct)
  case (more s ls s' l s'')
  then show ?case
    using budget_step [OF more.hyps(2)] by simp
qed simp

lemma run_length: "thread_run s ls s' \<Longrightarrow> length (th_workers s') = length (th_workers s)"
proof (induction rule: thread_run.induct)
  case (more s ls s' l s'')
  from more.hyps(2) more.IH show ?case
    by cases (simp_all add: thread_defs keepalive_poll_def Let_def)
qed simp

section \<open>Before a signal\<close>

definition calm :: "threads \<Rightarrow> bool" where
  "calm s \<longleftrightarrow> th_counter s = 0 \<and> th_handler s = None \<and> length (th_workers s) = worker_threads \<and>
     (\<forall>i<length (th_workers s). th_workers s ! i = Waiting \<or> th_workers s ! i = Serving)"

lemma calm_start: "calm (start_threads v)"
  by (simp add: calm_def start_threads_def)

lemma calm_step: "thread_step l s s' \<Longrightarrow> calm s \<Longrightarrow> \<not> irregular l \<Longrightarrow> calm s'"
  by (erule thread_step.cases) (auto simp: calm_def thread_defs keepalive_poll_def Let_def nth_list_update)

lemma calm_run: "thread_run s ls s' \<Longrightarrow> calm s \<Longrightarrow> irregulars ls = 0 \<Longrightarrow> calm s'"
  by (induction rule: thread_run.induct) (auto intro: calm_step split: if_splits)

lemma calm_stopped: "calm s \<Longrightarrow> stopped s = 0"
  by (auto simp: calm_def stopped_def count_list_0_iff in_set_conv_nth)

section \<open>Runs after a signal\<close>

lemma run_append: "thread_run s' ls' s'' \<Longrightarrow> thread_run s ls s' \<Longrightarrow> thread_run s (ls @ ls') s''"
  by (induction rule: thread_run.induct) (auto intro: thread_run.more simp flip: append_assoc)

lemma run_step: "thread_step l s s' \<Longrightarrow> thread_run s [l] s'"
  using thread_run.more [OF thread_run.start] by fastforce

lemma run_Cons: "thread_step l s s' \<Longrightarrow> thread_run s' ls s'' \<Longrightarrow> thread_run s (l # ls) s''"
  using run_append [OF _ run_step] by fastforce

text \<open>A worker that is waiting or serving comes to wait.\<close>

lemma comes_to_wait:
  assumes "i < length (th_workers s)" and "\<not> interrupted s i" and "th_workers s ! i = Waiting \<or> th_workers s ! i = Serving"
  obtains ls where "thread_run s ls (set_worker s i Waiting)" "irregulars ls = 0"
proof (cases "th_workers s ! i = Waiting")
  case True
  then have "set_worker s i Waiting = s"
    using list_update_id [of "th_workers s" i] by (simp add: set_worker_def)
  then show ?thesis
    using that [of "[]"] thread_run.start by simp
next
  case False
  then have "thread_step (Served i) s (set_worker s i Waiting)"
    using assms by (intro thread_step.served) (simp add: at_phase_def)
  then show ?thesis
    using that [OF run_step] by simp
qed

text \<open>
  The handler writes, and a worker that is waiting or serving is told, reads the counter and returns.
\<close>

lemma one_taken:
  assumes s: "th_counter s = 0" "th_handler s = Some (t, n)" "n < handler_writes"
    and i: "i < length (th_workers s)" "i \<noteq> t" "th_workers s ! i = Waiting \<or> th_workers s ! i = Serving"
  obtains ls where "thread_run s ls (s\<lparr>th_workers := (th_workers s)[i := Stopped], th_handler := Some (t, n + 1)\<rparr>)" "irregulars ls = 0"
proof -
  have "\<not> interrupted s i"
    using s(2) i(2) by (simp add: interrupted_def)
  then obtain ls where ls: "thread_run s ls (set_worker s i Waiting)" "irregulars ls = 0"
    by (rule comes_to_wait [OF i(1) _ i(3)])
  let ?s0 = "set_worker s i Waiting"
  let ?s1 = "handler_write ?s0 t n"
  let ?s2 = "set_worker ?s1 i Notified"
  have "thread_step Turn ?s0 ?s1"
    using s by (intro thread_step.turn) (simp_all add: set_worker_def)
  moreover have "thread_step (Told i) ?s1 ?s2"
    using s i by (intro thread_step.told) (simp_all add: thread_defs)
  moreover have "thread_step (Stop i) ?s2 (worker_stop ?s2 i)"
    using s i by (intro thread_step.stop) (simp_all add: thread_defs)
  moreover have "worker_stop ?s2 i = s\<lparr>th_workers := (th_workers s)[i := Stopped], th_handler := Some (t, n + 1)\<rparr>"
    using s by (simp add: thread_defs)
  ultimately have "thread_run ?s0 [Turn, Told i, Stop i] (s\<lparr>th_workers := (th_workers s)[i := Stopped], th_handler := Some (t, n + 1)\<rparr>)"
    by (metis run_Cons thread_run.start)
  then show ?thesis
    using that [OF run_append [OF _ ls(1)]] ls(2) by simp
qed

text \<open>The handler has made \<open>n\<close> writes on the thread \<open>t\<close>, and another worker has taken each.\<close>

definition taken :: "threads \<Rightarrow> nat \<Rightarrow> nat \<Rightarrow> threads \<Rightarrow> bool" where
  "taken s0 t n s \<longleftrightarrow> th_counter s = 0 \<and> th_handler s = Some (t, n) \<and> stopped s = n \<and>
     length (th_workers s) = worker_threads \<and> th_keepalive s = th_keepalive s0 \<and> in_epoll_wait s t = in_epoll_wait s0 t \<and>
     (\<forall>i<length (th_workers s). th_workers s ! i \<noteq> Notified \<and> (i = t \<longrightarrow> th_workers s ! i \<noteq> Stopped))"

lemma another_worker:
  assumes "taken s0 t n s" and "n < EPOLL_WORKERS + 1"
  obtains i where "i < length (th_workers s)" "i \<noteq> t" "th_workers s ! i = Waiting \<or> th_workers s ! i = Serving"
proof -
  have "\<exists>i<length (th_workers s). i \<noteq> t \<and> th_workers s ! i \<noteq> Stopped"
  proof (rule ccontr)
    assume "\<not> ?thesis"
    then have "{..<length (th_workers s)} - {t} \<subseteq> {i. i < length (th_workers s) \<and> th_workers s ! i = Stopped}"
      by auto
    then have "card ({..<length (th_workers s)} - {t}) \<le> stopped s"
      by (auto simp: stopped_def count_list_eq_length_filter length_filter_conv_card eq_commute intro!: card_mono)
    moreover have "length (th_workers s) - 1 \<le> card ({..<length (th_workers s)} - {t})"
      by (simp add: card_Diff_singleton_if)
    ultimately show False
      using assms by (simp add: taken_def worker_threads_def)
  qed
  then show ?thesis
    using assms(1) that by (metis taken_def worker_phase.exhaust)
qed

lemma taken_more:
  assumes "taken s0 t n s" and "n < EPOLL_WORKERS + 1"
  obtains ls s' where "thread_run s ls s'" "irregulars ls = 0" "taken s0 t (n + 1) s'"
proof -
  obtain i where i: "i < length (th_workers s)" "i \<noteq> t" "th_workers s ! i = Waiting \<or> th_workers s ! i = Serving"
    using assms by (rule another_worker)
  let ?s' = "s\<lparr>th_workers := (th_workers s)[i := Stopped], th_handler := Some (t, n + 1)\<rparr>"
  have "th_counter s = 0" "th_handler s = Some (t, n)" "n < handler_writes"
    using assms by (simp_all add: taken_def handler_writes_def)
  then obtain ls where "thread_run s ls ?s'" "irregulars ls = 0"
    by (rule one_taken [OF _ _ _ i])
  moreover have "stopped ?s' = n + 1"
    using count_update [OF i(1), of Stopped Stopped] i(3) assms(1) by (auto simp: stopped_def taken_def)
  then have "taken s0 t (n + 1) ?s'"
    using assms(1) i(2) by (auto simp: taken_def in_epoll_wait_def nth_list_update [OF i(1)])
  ultimately show ?thesis
    by (rule that)
qed

lemma taken_all:
  "taken s0 t 0 s \<Longrightarrow> n \<le> EPOLL_WORKERS + 1 \<Longrightarrow> \<exists>ls s'. thread_run s ls s' \<and> irregulars ls = 0 \<and> taken s0 t n s'"
proof (induction n)
  case 0
  then show ?case
    using thread_run.start by fastforce
next
  case (Suc n)
  then obtain ls s' where ls: "thread_run s ls s'" "irregulars ls = 0" "taken s0 t n s'"
    by auto
  obtain ls' s'' where "thread_run s' ls' s''" "irregulars ls' = 0" "taken s0 t (n + 1) s''"
    by (rule taken_more [OF ls(3)]) (use Suc.prems(2) in simp)
  then show ?case
    using run_append [OF _ ls(1)] ls(2) by fastforce
qed

lemma signal_taken:
  assumes "calm s0" and "signal_step t s0 s1"
  shows "taken s0 t 0 s1 \<and> to_come s1 = handler_writes + (if in_epoll_wait s0 t then 1 else 0)"
  using assms(2,1) calm_stopped [OF assms(1)]
  by cases (auto simp: calm_def taken_def to_come_def in_epoll_wait_def stopped_def)

text \<open>The orderly course of events: every write is taken by another worker, then the handler returns.\<close>

lemma orderly_course:
  assumes "calm s0" and "signal_step t s0 s1"
  obtains ls s where "thread_run s1 ls s" "irregulars ls = 0" "th_handler s = None" "th_counter s = 0"
    "stopped s = EPOLL_WORKERS + 1 + (if in_epoll_wait s0 t then 1 else 0)" "th_keepalive s = th_keepalive s0"
proof -
  obtain ls s where ls: "thread_run s1 ls s" "irregulars ls = 0" "taken s0 t (EPOLL_WORKERS + 1) s"
    using taken_all [OF conjunct1 [OF signal_taken [OF assms]], of "EPOLL_WORKERS + 1"] by blast
  have "thread_step Done s (handler_return s t)"
    using ls(3) by (intro thread_step.handler_done) (auto simp: taken_def handler_writes_def)
  then have "thread_run s1 (ls @ [Done]) (handler_return s t)"
    using ls(1) by (rule thread_run.more [rotated])
  moreover have "stopped (handler_return s t) = EPOLL_WORKERS + 1 + (if in_epoll_wait s0 t then 1 else 0)"
    using ls(3) count_update [of t "th_workers s" Stopped Stopped]
    by (auto simp: taken_def handler_return_def set_worker_def stopped_def in_epoll_wait_def)
  ultimately show ?thesis
    using that ls(2,3) by (auto simp: handler_return_def set_worker_def taken_def)
qed

text \<open>
  The late course: nobody reads before the handler has returned, then all workers are told, and
  the first one takes the whole counter.
\<close>

definition by_descriptor :: "thread_label list \<Rightarrow> bool" where
  "by_descriptor ls \<longleftrightarrow> (\<forall>i. Failed i \<notin> set ls \<and> Alias i \<notin> set ls)"

lemma by_descriptor_simps [simp]:
  "by_descriptor []"
  "by_descriptor (ls @ ls') \<longleftrightarrow> by_descriptor ls \<and> by_descriptor ls'"
  by (auto simp: by_descriptor_def)

lemma by_descriptor_regular: "irregulars ls = 0 \<Longrightarrow> by_descriptor ls"
  by (force simp: by_descriptor_def irregulars_def filter_empty_conv)

lemma all_written:
  assumes "th_handler s = Some (t, n)" and "n \<le> handler_writes"
  shows "\<exists>ls. thread_run s ls (s\<lparr>th_counter := th_counter s + (handler_writes - n), th_handler := Some (t, handler_writes)\<rparr>) \<and> by_descriptor ls"
  using assms
proof (induction "handler_writes - n" arbitrary: s n)
  case 0
  then have "s\<lparr>th_counter := th_counter s + (handler_writes - n), th_handler := Some (t, handler_writes)\<rparr> = s"
    by simp
  then show ?case
    using thread_run.start by fastforce
next
  case (Suc k)
  then have step: "thread_step Turn s (handler_write s t n)"
    by (intro thread_step.turn) simp_all
  have "k = handler_writes - (n + 1)" "n + 1 \<le> handler_writes" "th_handler (handler_write s t n) = Some (t, n + 1)"
    using Suc.hyps(2) by (simp_all add: handler_write_def)
  from Suc.hyps(1) [OF this(1,3,2)] obtain ls where ls: "thread_run (handler_write s t n) ls
      ((handler_write s t n)\<lparr>th_counter := th_counter (handler_write s t n) + (handler_writes - (n + 1)), th_handler := Some (t, handler_writes)\<rparr>)"
      "by_descriptor ls"
    by blast
  have "th_counter (handler_write s t n) + (handler_writes - (n + 1)) = th_counter s + (handler_writes - n)"
    using Suc.hyps(2) by (simp add: handler_write_def)
  then have "(handler_write s t n)\<lparr>th_counter := th_counter (handler_write s t n) + (handler_writes - (n + 1)), th_handler := Some (t, handler_writes)\<rparr> =
      s\<lparr>th_counter := th_counter s + (handler_writes - n), th_handler := Some (t, handler_writes)\<rparr>"
    unfolding handler_write_def by (cases s) (simp only: threads.simps)
  then have "thread_run s ([Turn] @ ls) (s\<lparr>th_counter := th_counter s + (handler_writes - n), th_handler := Some (t, handler_writes)\<rparr>)"
    using run_Cons [OF step ls(1)] by simp
  moreover have "by_descriptor ([Turn] @ ls)"
    using ls(2) by (simp add: by_descriptor_def)
  ultimately show ?case
    by blast
qed

text \<open>Worker after worker does what leads from its phase in \<open>s\<close> to that of \<open>f\<close>, as long as \<open>P\<close> holds of the rest of the state.\<close>

lemma each_worker:
  assumes one: "\<And>s i. P s \<Longrightarrow> i < length (th_workers s) \<Longrightarrow> Q (th_workers s ! i) \<Longrightarrow>
      \<exists>ls s'. thread_run s ls s' \<and> by_descriptor ls \<and> P s' \<and> th_workers s' = (th_workers s)[i := f (th_workers s ! i)]"
    and "P s" and "\<forall>p\<in>set (th_workers s). Q p"
  shows "\<exists>ls s'. thread_run s ls s' \<and> by_descriptor ls \<and> P s' \<and> th_workers s' = map f (th_workers s)"
proof -
  have "k \<le> length (th_workers s) \<Longrightarrow> \<exists>ls s'. thread_run s ls s' \<and> by_descriptor ls \<and> P s' \<and>
      th_workers s' = map f (take k (th_workers s)) @ drop k (th_workers s)" for k
  proof (induction k)
    case 0
    then show ?case
      using assms(2) thread_run.start by fastforce
  next
    case (Suc k)
    then obtain ls s' where ls: "thread_run s ls s'" "by_descriptor ls" "P s'"
        "th_workers s' = map f (take k (th_workers s)) @ drop k (th_workers s)"
      by auto
    let ?p = "th_workers s ! k"
    have k: "k < length (th_workers s')" "th_workers s' ! k = ?p" "drop k (th_workers s) = ?p # drop (Suc k) (th_workers s)"
      using Suc.prems ls(4) by (simp_all add: nth_append Cons_nth_drop_Suc)
    have "Q (th_workers s' ! k)"
      using assms(3) Suc.prems k(2) by simp
    from one [OF ls(3) k(1) this] obtain ls' s'' where ls': "thread_run s' ls' s''" "by_descriptor ls'" "P s''"
        "th_workers s'' = (th_workers s')[k := f ?p]"
      using k(2) by auto
    moreover have "(th_workers s')[k := f ?p] = map f (take (Suc k) (th_workers s)) @ drop (Suc k) (th_workers s)"
      using Suc.prems ls(4) k(3) by (simp add: list_update_append take_Suc_conv_app_nth)
    ultimately show ?case
      using run_append [OF ls'(1) ls(1)] ls(2) by fastforce
  qed
  from this [of "length (th_workers s)"] show ?thesis
    by simp
qed

lemma one_told:
  assumes "th_handler s = None \<and> 0 < th_counter s" and "i < length (th_workers s)" and "th_workers s ! i \<noteq> Notified"
  shows "\<exists>ls s'. thread_run s ls s' \<and> by_descriptor ls \<and> (th_handler s' = None \<and> 0 < th_counter s') \<and>
    th_workers s' = (th_workers s)[i := if th_workers s ! i = Stopped then Stopped else Notified]"
proof (cases "th_workers s ! i = Stopped")
  case True
  then have "(th_workers s)[i := Stopped] = th_workers s"
    by (metis list_update_id)
  then show ?thesis
    using assms(1) True thread_run.start by fastforce
next
  case False
  have "\<not> interrupted s i"
    using assms(1) by (simp add: interrupted_def)
  then obtain ls where ls: "thread_run s ls (set_worker s i Waiting)" "irregulars ls = 0"
    using False assms(2,3) by (metis comes_to_wait worker_phase.exhaust)
  have "thread_step (Told i) (set_worker s i Waiting) (set_worker (set_worker s i Waiting) i Notified)"
    using assms by (intro thread_step.told) (simp_all add: thread_defs)
  from thread_run.more [OF ls(1) this] show ?thesis
    using False assms(1) ls(2)
    by (intro exI [of _ "ls @ [Told i]"] exI [of _ "set_worker (set_worker s i Waiting) i Notified"])
      (auto simp: set_worker_def by_descriptor_regular)
qed

lemma one_reads:
  assumes "th_handler s = None" and "i < length (th_workers s)" and "th_workers s ! i = Notified \<or> th_workers s ! i = Stopped"
  shows "\<exists>ls s'. thread_run s ls s' \<and> by_descriptor ls \<and> th_handler s' = None \<and> th_workers s' = (th_workers s)[i := Stopped]"
proof (cases "th_workers s ! i = Stopped")
  case True
  then have "(th_workers s)[i := Stopped] = th_workers s"
    by (metis list_update_id)
  then show ?thesis
    using assms(1) thread_run.start by fastforce
next
  case False
  then have "at_phase s i Notified"
    using assms by (simp add: at_phase_def interrupted_def)
  then have "thread_step (if th_counter s = 0 then Late i else Stop i) s (worker_stop s i)"
    by (simp add: thread_step.stop thread_step.late)
  from run_step [OF this] show ?thesis
    using assms(1) by (fastforce simp: worker_stop_def set_worker_def by_descriptor_def split: if_splits)
qed

lemma late_course:
  assumes "calm s0" and "signal_step t s0 s1"
  obtains ls s where "thread_run s1 ls s" "by_descriptor ls" "joined s"
proof -
  have s1: "th_handler s1 = Some (t, 0)" "\<forall>p\<in>set (th_workers s1). p \<noteq> Notified"
    using signal_taken [OF assms] by (auto simp: taken_def in_set_conv_nth)
  obtain ls where ls: "thread_run s1 ls (s1\<lparr>th_counter := th_counter s1 + handler_writes, th_handler := Some (t, handler_writes)\<rparr>)" (is "thread_run s1 ls ?s2")
      "by_descriptor ls"
    using all_written [OF s1(1)] by auto
  let ?s3 = "handler_return ?s2 t"
  have s3: "thread_run s1 (ls @ [Done]) ?s3"
    by (rule thread_run.more [OF ls(1) thread_step.handler_done [where n = handler_writes]]) simp_all
  have "th_handler ?s3 = None \<and> 0 < th_counter ?s3" "\<forall>p\<in>set (th_workers ?s3). p \<noteq> Notified"
    using s1(2) by (auto simp: handler_return_def set_worker_def handler_writes_def dest!: set_update_subset_insert [THEN subsetD])
  from each_worker [where Q = "\<lambda>p. p \<noteq> Notified" and P = "\<lambda>s. th_handler s = None \<and> 0 < th_counter s", OF one_told this]
  obtain ls' s4 where s4: "thread_run ?s3 ls' s4" "by_descriptor ls'" "th_handler s4 = None"
      "th_workers s4 = map (\<lambda>p. if p = Stopped then Stopped else Notified) (th_workers ?s3)"
    by auto
  have "\<forall>p\<in>set (th_workers s4). p = Notified \<or> p = Stopped"
    by (auto simp: s4(4))
  from each_worker [where Q = "\<lambda>p. p = Notified \<or> p = Stopped" and P = "\<lambda>s. th_handler s = None" and f = "\<lambda>_. Stopped", OF one_reads s4(3) this]
  obtain ls'' s5 where s5: "thread_run s4 ls'' s5" "by_descriptor ls''" "th_workers s5 = map (\<lambda>_. Stopped) (th_workers s4)"
    by auto
  have "by_descriptor ((ls @ [Done]) @ ls' @ ls'')"
    using ls(2) s4(2) s5(2) by (simp add: by_descriptor_def)
  moreover have "joined s5"
    by (simp add: joined_def s5(3))
  ultimately show ?thesis
    using that [OF run_append [OF run_append [OF s5(1) s4(1)] s3]] by simp
qed

section \<open>Properties\<close>

text \<open>
  C16: One signal is not sure to stop the broker, because its handler writes once less than there are workers.  Let the
  signal meet a thread \<open>t\<close> of a broker none of whose workers has left yet.  However the threads go on, of the
  \<open>EPOLL_WORKERS + 2\<close> workers at most \<open>EPOLL_WORKERS + 1\<close> return, plus the one the signal interrupts in \<open>epoll_wait\<close>, if it
  does, plus those that leave without taking a write: by a read that comes too late, by a failing \<open>epoll_wait\<close>, or by taking a client for
  the event descriptor.  The bound is met without such exits: every write is taken by another worker, the handler
  returns, nothing is left to read, and the keepalive thread runs if it did.  So without such exits the joins
  can return exactly if the signal interrupted a worker in \<open>epoll_wait\<close>; otherwise the clean-up is never
  reached.  With late reads they can return in every case.\<close>

theorem shutdown_outcomes:
  assumes "thread_run (start_threads v) ls0 s0" and "irregulars ls0 = 0" and "signal_step t s0 s1"
  shows "(\<forall>ls s. thread_run s1 ls s \<longrightarrow>
      stopped s \<le> EPOLL_WORKERS + 1 + (if in_epoll_wait s0 t then 1 else 0) + irregulars ls \<and> length (th_workers s) = EPOLL_WORKERS + 2) \<and>
    (\<exists>ls s. thread_run s1 ls s \<and> irregulars ls = 0 \<and> th_handler s = None \<and> th_counter s = 0 \<and> th_keepalive s = th_keepalive s0 \<and>
      stopped s = EPOLL_WORKERS + 1 + (if in_epoll_wait s0 t then 1 else 0)) \<and>
    ((\<exists>ls s. thread_run s1 ls s \<and> irregulars ls = 0 \<and> joined s) \<longleftrightarrow> in_epoll_wait s0 t) \<and>
    (\<exists>ls s. thread_run s1 ls s \<and> by_descriptor ls \<and> joined s)"
proof -
  have calm: "calm s0"
    using calm_run [OF assms(1) calm_start assms(2)] .
  have s1: "stopped s1 = 0" "th_counter s1 = 0" "length (th_workers s1) = EPOLL_WORKERS + 2"
      "to_come s1 = EPOLL_WORKERS + 1 + (if in_epoll_wait s0 t then 1 else 0)"
    using signal_taken [OF calm assms(3)] by (simp_all add: taken_def worker_threads_def handler_writes_def)
  have bound: "stopped s \<le> EPOLL_WORKERS + 1 + (if in_epoll_wait s0 t then 1 else 0) + irregulars ls \<and> length (th_workers s) = EPOLL_WORKERS + 2"
    if "thread_run s1 ls s" for ls s
    using budget_run [OF that] run_length [OF that] by (simp add: s1)
  obtain ls s where run: "thread_run s1 ls s" "irregulars ls = 0" "th_handler s = None" "th_counter s = 0"
      "stopped s = EPOLL_WORKERS + 1 + (if in_epoll_wait s0 t then 1 else 0)" "th_keepalive s = th_keepalive s0"
    by (rule orderly_course [OF calm assms(3)])
  have "in_epoll_wait s0 t" if "thread_run s1 ls s" "irregulars ls = 0" "joined s" for ls s
    using bound [OF that(1)] that(2,3) by (auto simp: stopped_joined split: if_splits)
  moreover have "joined s" if "in_epoll_wait s0 t"
    using that run(5) bound [OF run(1)] by (simp add: stopped_joined)
  moreover obtain ls' s' where "thread_run s1 ls' s'" "by_descriptor ls'" "joined s'"
    by (rule late_course [OF calm assms(3)])
  ultimately show ?thesis
    using bound run by blast
qed

lemma shutdown_outcomes_witness:
  "(\<exists>s1 ls s. signal_step 5 (start_threads 1) s1 \<and> thread_run s1 ls s \<and> irregulars ls = 0 \<and> joined s) \<and>
   (\<exists>s0 s1. thread_run (start_threads 7) [Serve 5] s0 \<and> signal_step 5 s0 s1 \<and>
     (\<exists>ls s. thread_run s1 ls s \<and> irregulars ls = 0 \<and> stopped s = 5) \<and> \<not> (\<exists>ls s. thread_run s1 ls s \<and> irregulars ls = 0 \<and> joined s))"
proof -
  let ?s0 = "set_worker (start_threads 7) 5 Serving"
  note defs = start_threads_def worker_threads_def EPOLL_WORKERS_def thread_defs in_epoll_wait_def
  have a: "signal_step 5 (start_threads 1) ((start_threads 1)\<lparr>th_handler := Some (5, 0)\<rparr>)"
    by (rule signal_step.worker) (simp_all add: defs)
  have b: "thread_run (start_threads 7) [Serve 5] ?s0" "signal_step 5 ?s0 (?s0\<lparr>th_handler := Some (5, 0)\<rparr>)"
    by (rule run_step [OF thread_step.serve], simp add: defs, rule signal_step.worker) (simp_all add: defs)
  have w: "in_epoll_wait (start_threads 1) 5" "\<not> in_epoll_wait ?s0 5"
    by (simp_all add: defs)
  show ?thesis
    using shutdown_outcomes [OF thread_run.start _ a] shutdown_outcomes [OF b(1) _ b(2)] a b w
    by (simp add: EPOLL_WORKERS_def) blast
qed

end
