(* ===== verification/Sz_Client.thy ===== *)
theory Sz_Client
  imports Sz_Delivery
begin

text \<open>
  The publisher of \<^verbatim>\<open>sizigypub.c\<close>: its line reader \<open>readline\<close> over the bytes of the standard input, and
  its main loop, which sends one request per line.  The functions that build and pack a request are
  declared nowhere in the repository; they are the parameter \<open>request_api\<close> of the loop.
\<close>

section \<open>Reading a line\<close>

definition BUFSIZE :: size_t where "BUFSIZE = 2048"

text \<open>
  The loop over the characters up to the end of the input: the block \<open>linep\<close>, the position of \<open>line\<close> in it,
  \<open>lenmax\<close> and \<open>len\<close>.  \<open>realloc\<close> says for which sizes a reallocation succeeds; what it adds to the
  block is indeterminate.  The result is \<open>None\<close> when it fails, and the unread input.
\<close>

fun readline_loop ::
  "(size_t \<Rightarrow> bool) \<Rightarrow> (nat \<Rightarrow> u8) \<Rightarrow> u8 list \<Rightarrow> block \<Rightarrow> nat \<Rightarrow> size_t \<Rightarrow> size_t \<Rightarrow> cerr + ((block \<times> nat) option \<times> u8 list)" where
  "readline_loop realloc junk [] buf pos lenmax len = Inr (Some (buf, pos), [])"
| "readline_loop realloc junk (c # cs) buf pos lenmax len =
     (let len' = len - 1; grow = (len' = 0);
          len2 = (if grow then lenmax else len');
          lenmax2 = (if grow then 2 * lenmax else lenmax);
          buf2 = (if grow then take (unat lenmax2) buf @ map junk [length buf..<unat lenmax2] else buf) in
      if grow \<and> \<not> realloc lenmax2 then Inr (None, cs)
      else bindR (wr buf2 pos c) (\<lambda>buf3.
           if c = 10 then Inr (Some (buf3, Suc pos), cs)
           else readline_loop realloc junk cs buf3 (Suc pos) lenmax2 len2))"

definition readline :: "bool \<Rightarrow> (size_t \<Rightarrow> bool) \<Rightarrow> (nat \<Rightarrow> u8) \<Rightarrow> u8 list \<Rightarrow> cerr + (block option \<times> u8 list)" where
  "readline alloc realloc junk input =
     (if \<not> alloc then Inr (None, input)
      else
        bindR (readline_loop realloc junk input (map junk [0..<unat BUFSIZE]) 0 BUFSIZE BUFSIZE) (\<lambda>(r, rest).
        case r of
          None \<Rightarrow> Inr (None, rest)
        | Some (linep, line) \<Rightarrow>
            bindR (wr linep line 0) (\<lambda>linep.
            bindR (c_strlen linep) (\<lambda>n.
            bindR (if n = 0 then Inl OutOfBounds else wr linep (n - 1) 0) (\<lambda>linep.
            Inr (Some linep, rest))))))"

section \<open>The publisher\<close>

text \<open>
  What the publisher calls of the request library: the opcode \<open>QUIT\<close>, \<open>build_ack_req\<close>, \<open>build_subscribe_request\<close>,
  \<open>pack_request\<close> and the field \<open>qos\<close>.  String arguments are passed by their value.
\<close>

record 'r request_api =
  ra_QUIT :: u8
  ra_build_ack :: "u8 \<Rightarrow> block \<Rightarrow> 'r"
  ra_build_subscribe :: "u8 \<Rightarrow> u8 \<Rightarrow> u8 \<Rightarrow> block \<Rightarrow> block \<Rightarrow> 'r"
  ra_pack :: "'r \<Rightarrow> buffer"
  ra_qos :: "'r \<Rightarrow> u8"

text \<open>The standard input, what the socket takes and delivers, and the bytes sent.\<close>

record pub_proc =
  pu_in :: "u8 list"
  pu_tx :: "send_ev list"
  pu_rx :: "recv_ev list"
  pu_wire :: block

text \<open>\<open>strncasecmp(input, "QUIT", 4) == 0\<close>, the topic of the requests, and a request sent whole.\<close>

definition is_quit :: "block \<Rightarrow> bool" where
  "is_quit s \<longleftrightarrow> map c_tolower (take 4 s) = [113, 117, 105, 116]"

definition pub_topic :: block where
  "pub_topic = [116, 101, 115, 116, 48, 49]"

definition send_buffer :: "pub_proc \<Rightarrow> buffer \<Rightarrow> cerr + pub_proc" where
  "send_buffer p b =
     bindR (sendall (pu_tx p) (b_data b) (unat (b_size b))) (\<lambda>(evs, bytes, _, _).
     Inr (p\<lparr>pu_tx := evs, pu_wire := pu_wire p @ bytes\<rparr>))"

text \<open>
  \<open>recv\<close> on the connection, which \<open>make_connection\<close> leaves blocking: it waits until something arrives, and does not return
  when nothing ever does.
\<close>

definition recv_blocking :: "recv_ev list \<Rightarrow> nat \<Rightarrow> cerr + recv_ev list" where
  "recv_blocking es len =
     (let es' = dropWhile (\<lambda>e. e = RecvAgain) es in if es' = [] then Inl Blocked else Inr (snd (recv es' len)))"

text \<open>
  The loop of \<open>main\<close>; the fuel bounds the number of lines.  \<open>strncasecmp\<close> dereferences the NULL of a line that
  could not be allocated.  What \<open>recv\<close> delivers after a request is not looked at.
\<close>

fun pub_loop :: "nat \<Rightarrow> 'r request_api \<Rightarrow> bool \<Rightarrow> (size_t \<Rightarrow> bool) \<Rightarrow> (nat \<Rightarrow> u8) \<Rightarrow> buffer \<Rightarrow> pub_proc \<Rightarrow> cerr + pub_proc" where
  "pub_loop 0 api alloc realloc junk quitp p = Inl Diverges"
| "pub_loop (Suc f) api alloc realloc junk quitp p =
     bindR (readline alloc realloc junk (pu_in p)) (\<lambda>(line, rest).
     case line of
       None \<Rightarrow> Inl NullDeref
     | Some linep \<Rightarrow>
         let p = p\<lparr>pu_in := rest\<rparr>; input = c_str linep in
         if is_quit input then send_buffer p quitp
         else
           let pub = ra_build_subscribe api 0xfc 0x03 0x00 pub_topic input in
           bindR (send_buffer p (ra_pack api pub)) (\<lambda>p.
           bindR (if ra_qos api pub > 0
                  then bindR (recv_blocking (pu_rx p) (unat BUFSIZE)) (\<lambda>es. Inr (p\<lparr>pu_rx := es\<rparr>))
                  else Inr p) (\<lambda>p.
           pub_loop f api alloc realloc junk quitp p)))"

declare pub_loop.simps [simp del]

text \<open>
  \<open>main\<close>: the outcomes of the system calls of \<open>make_connection\<close>, and the state of the process for the
  descriptor it returns.
\<close>

definition pub_main ::
  "nat \<Rightarrow> 'r request_api \<Rightarrow> int \<times> bool \<times> bool \<Rightarrow> bool \<Rightarrow> (size_t \<Rightarrow> bool) \<Rightarrow> (nat \<Rightarrow> u8) \<Rightarrow> (int \<Rightarrow> pub_proc) \<Rightarrow> cerr + pub_proc" where
  "pub_main fuel api net alloc realloc junk proc =
     (let (sock, host, conn) = net in
      bindR (make_connection sock host conn []) (\<lambda>(_, connfd).
      pub_loop fuel api alloc realloc junk (ra_pack api (ra_build_ack api (ra_QUIT api) [])) (proc connfd)))"

section \<open>What is read and sent\<close>

text \<open>What the loop consumes: the first line with its newline, or all of an input without one.\<close>

definition line_of :: "u8 list \<Rightarrow> u8 list" where
  "line_of input = takeWhile (\<lambda>c. c \<noteq> 10) input @ (if 10 \<in> set input then [10] else [])"

lemma line_of_simps [simp]: "line_of [] = []" "line_of (c # cs) = (if c = 10 then [10] else c # line_of cs)"
  by (simp_all add: line_of_def)

lemma unat_double: "2 * unat x < 2 ^ 64 \<Longrightarrow> unat (2 * x) = 2 * unat x" for x :: size_t
  using unat_mult_lem [of 2 x] by simp

text \<open>
  One character: the room left in the block is always \<open>len\<close>, and never exhausted, since the block is doubled before the last
  byte is used.
\<close>

lemma readline_loop_step:
  assumes "pos + unat len = length buf" and "unat lenmax = length buf" and "0 < unat len" and "\<And>n. realloc n" and "pos < 2 ^ 62"
  obtains buf2 lenmax2 len2 where "length buf2 = unat lenmax2" "take pos buf2 = take pos buf" "pos < length buf2"
    "Suc pos + unat len2 = length buf2" "0 < unat len2"
    "readline_loop realloc junk (c # cs) buf pos lenmax len =
      (if c = 10 then Inr (Some (buf2[pos := c], Suc pos), cs) else readline_loop realloc junk cs (buf2[pos := c]) (Suc pos) lenmax2 len2)"
proof -
  define grow where "grow \<longleftrightarrow> len - 1 = (0 :: size_t)"
  define len2 where "len2 = (if grow then lenmax else len - 1)"
  define lenmax2 where "lenmax2 = (if grow then 2 * lenmax else lenmax)"
  define buf2 where "buf2 = (if grow then take (unat lenmax2) buf @ map junk [length buf..<unat lenmax2] else buf)"
  have len: "unat (len - 1) = unat len - 1"
    using assms(3) by (simp add: unat_sub word_le_nat_alt)
  have one: "unat len = 1" if grow
    using that assms(3) len unfolding grow_def by simp
  have more: "0 < unat (len - 1)" if "\<not> grow"
    using that unfolding grow_def by (simp add: unat_gt_0)
  have max2: "unat lenmax2 = (if grow then 2 * length buf else length buf)"
  proof (cases grow)
    case True
    have "2 * unat lenmax < 2 ^ 64"
      using one [OF True] assms(1,2,5) by simp
    then show ?thesis
      using True assms(2) by (simp add: lenmax2_def unat_double)
  qed (simp add: lenmax2_def assms(2))
  have buf2: "length buf2 = unat lenmax2" "take pos buf2 = take pos buf" "pos < length buf2"
    using max2 assms(1,3) by (auto simp: buf2_def)
  have inv: "Suc pos + unat len2 = length buf2" "0 < unat len2"
  proof -
    have "unat len2 = (if grow then length buf else unat len - 1)"
      using assms(2) len by (simp add: len2_def)
    then show "Suc pos + unat len2 = length buf2" "0 < unat len2"
      using assms(1,3) one more max2 buf2(1) len by (auto split: if_splits)
  qed
  have run: "readline_loop realloc junk (c # cs) buf pos lenmax len =
      (if c = 10 then Inr (Some (buf2[pos := c], Suc pos), cs) else readline_loop realloc junk cs (buf2[pos := c]) (Suc pos) lenmax2 len2)"
  proof -
    have "readline_loop realloc junk (c # cs) buf pos lenmax len =
        bindR (wr buf2 pos c) (\<lambda>buf3. if c = 10 then Inr (Some (buf3, Suc pos), cs)
          else readline_loop realloc junk cs buf3 (Suc pos) lenmax2 len2)"
      unfolding readline_loop.simps Let_def grow_def [symmetric] len2_def [symmetric] lenmax2_def [symmetric]
        buf2_def [symmetric]
      using assms(4) by simp
    then show ?thesis
      using buf2(3) by simp
  qed
  show thesis
    by (rule that [OF buf2 inv run])
qed

lemma readline_loop_ok:
  assumes "pos + unat len = length buf" and "unat lenmax = length buf" and "0 < unat len" and "\<And>n. realloc n"
    and "pos + length input < 2 ^ 62"
  shows "\<exists>buf'. readline_loop realloc junk input buf pos lenmax len =
      Inr (Some (buf', pos + length (line_of input)), drop (length (line_of input)) input) \<and>
    take (pos + length (line_of input)) buf' = take pos buf @ line_of input \<and> pos + length (line_of input) < length buf'"
  using assms(1-3,5)
proof (induction input arbitrary: buf pos lenmax len)
  case Nil
  then show ?case
    by simp
next
  case (Cons c cs)
  have "pos < 2 ^ 62"
    using Cons.prems(4) by simp
  then obtain buf2 lenmax2 len2 where buf2: "length buf2 = unat lenmax2" "take pos buf2 = take pos buf" "pos < length buf2"
      and inv: "Suc pos + unat len2 = length buf2" "0 < unat len2"
      and run: "readline_loop realloc junk (c # cs) buf pos lenmax len =
        (if c = 10 then Inr (Some (buf2[pos := c], Suc pos), cs) else readline_loop realloc junk cs (buf2[pos := c]) (Suc pos) lenmax2 len2)"
    by (rule readline_loop_step [OF Cons.prems(1-3) assms(4)])
  let ?buf3 = "buf2[pos := c]"
  have pre: "take (Suc pos) ?buf3 = take pos buf @ [c]"
    using buf2 by (simp add: take_Suc_conv_app_nth)
  show ?case
  proof (cases "c = 10")
    case True
    then show ?thesis
      using run pre inv buf2 by simp
  next
    case False
    have "Suc pos + unat len2 = length ?buf3" "unat lenmax2 = length ?buf3" "Suc pos + length cs < 2 ^ 62"
      using inv buf2 Cons.prems(4) by simp_all
    from Cons.IH [OF this(1,2) inv(2) this(3)] show ?thesis
      using False run pre by simp
  qed
qed

lemma c_str_prefix: "0 \<notin> set s \<Longrightarrow> c_str (s @ 0 # t) = s"
  by (simp add: c_str_def takeWhile_append)

lemma update_prefix: "take n buf = s \<Longrightarrow> length s = n \<Longrightarrow> n < length buf \<Longrightarrow> buf[n := x] = s @ x # drop (Suc n) buf"
  by (metis upd_conv_take_nth_drop)

lemma readline_eof:
  shows "readline True realloc junk [] = Inl OutOfBounds"
proof -
  obtain x xs where "map junk [0..<unat BUFSIZE] = x # xs"
    by (cases "map junk [0..<unat BUFSIZE]") (simp_all add: BUFSIZE_def)
  then show ?thesis
    by (simp add: readline_def c_strlen_def c_str_def)
qed

lemma readline_line:
  assumes "\<And>n. realloc n" and "0 \<notin> set (line_of input)" and "length input < 2 ^ 62" and "line_of input \<noteq> []"
  obtains linep where "readline True realloc junk input = Inr (Some linep, drop (length (line_of input)) input)"
    "c_str linep = butlast (line_of input)"
proof -
  let ?line = "line_of input" and ?buf = "map junk [0..<unat BUFSIZE]"
  obtain buf where loop: "readline_loop realloc junk input ?buf 0 BUFSIZE BUFSIZE =
        Inr (Some (buf, length ?line), drop (length ?line) input)"
      and buf: "take (length ?line) buf = ?line" "length ?line < length buf"
    using readline_loop_ok [of 0 BUFSIZE ?buf BUFSIZE realloc input junk] assms(1,3) by (auto simp: BUFSIZE_def)
  define linep where "linep = buf[length ?line := 0]"
  have linep: "linep = ?line @ 0 # drop (Suc (length ?line)) buf"
    unfolding linep_def by (rule update_prefix [OF buf(1) _ buf(2)]) simp
  obtain s c where line: "?line = s @ [c]"
    using assms(4) by (meson rev_exhaust)
  have strlen: "c_strlen linep = Inr (length ?line)"
    using assms(2) by (simp add: linep c_strlen_def c_str_prefix)
  then have "readline True realloc junk input = Inr (Some (linep[length s := 0]), drop (length ?line) input)"
    using loop buf(2) assms(4) by (simp add: readline_def linep_def line)
  moreover have "linep[length s := 0] = s @ 0 # 0 # drop (Suc (length ?line)) buf"
    by (simp add: linep line list_update_append)
  then have "c_str (linep[length s := 0]) = butlast ?line"
    using assms(2) line by (simp add: c_str_prefix)
  ultimately show thesis
    by (rule that)
qed

lemma line_of_newline [simp]: "10 \<notin> set l \<Longrightarrow> line_of (l @ 10 # rest) = l @ [10]"
  by (induction l) auto

text \<open>The request sent for a line, the bytes of a buffer, and a buffer that can be sent.\<close>

definition line_request :: "'r request_api \<Rightarrow> block \<Rightarrow> buffer" where
  "line_request api l = ra_pack api (ra_build_subscribe api 0xfc 0x03 0x00 pub_topic l)"

definition buffer_bytes :: "buffer \<Rightarrow> block" where
  "buffer_bytes b = take (unat (b_size b)) (b_data b)"

definition sendable :: "buffer \<Rightarrow> bool" where
  "sendable b \<longleftrightarrow> unat (b_size b) \<le> length (b_data b) \<and> unat (b_size b) \<le> INT_MAX"

definition text_line :: "block \<Rightarrow> bool" where
  "text_line l \<longleftrightarrow> 0 \<notin> set l \<and> 10 \<notin> set l"

lemma send_buffer_ok:
  assumes "sendable b" and "accepts (pu_tx p) (length (buffer_bytes b) + m)"
  obtains evs where "send_buffer p b = Inr (p\<lparr>pu_tx := evs, pu_wire := pu_wire p @ buffer_bytes b\<rparr>)" "accepts evs m"
  using assms sendall_loop_rest [of "unat (b_size b)" "b_data b" 0 0 "pu_tx p" m]
  by (auto simp: send_buffer_def sendall_def sendable_def buffer_bytes_def)

text \<open>The request for a line waits for an answer; the number of answers that are to come.\<close>

definition asks :: "'r request_api \<Rightarrow> block \<Rightarrow> bool" where
  "asks api l \<longleftrightarrow> ra_qos api (ra_build_subscribe api 0xfc 0x03 0x00 pub_topic l) > 0"

definition answers :: "recv_ev list \<Rightarrow> nat" where
  "answers es = length (filter (\<lambda>e. e \<noteq> RecvAgain) es)"

lemma answers_drop: "answers (dropWhile (\<lambda>e. e = RecvAgain) es) = answers es"
  by (induction es) (auto simp: answers_def)

lemma answers_recv: "answers es \<le> Suc (answers (snd (recv es len)))"
  by (cases "(es, len)" rule: recv.cases) (auto simp: answers_def)

lemma recv_blocking_answer:
  assumes "answers es > 0"
  obtains es' where "recv_blocking es len = Inr es'" "answers es \<le> Suc (answers es')"
proof -
  let ?es = "dropWhile (\<lambda>e. e = RecvAgain) es"
  have ne: "?es \<noteq> []"
    using assms answers_drop [of es] by (auto simp: answers_def filter_empty_conv)
  show thesis
    using ne answers_recv [of ?es len] by (intro that [of "snd (recv ?es len)"]) (simp_all add: recv_blocking_def answers_drop)
qed

lemma recv_blocking_none:
  assumes "answers es = 0"
  shows "recv_blocking es len = Inl Blocked"
proof -
  have "\<forall>e\<in>set es. e = RecvAgain"
    using assms by (auto simp: answers_def filter_empty_conv)
  then have "dropWhile (\<lambda>e. e = RecvAgain) es = []"
    by (simp add: dropWhile_eq_Nil_conv)
  then show ?thesis
    by (simp add: recv_blocking_def)
qed

lemma readline_text:
  assumes "\<And>n. realloc n" and "text_line l" and "length (l @ 10 # rest) < 2 ^ 62"
  obtains linep where "readline True realloc junk (l @ 10 # rest) = Inr (Some linep, rest)" "c_str linep = l"
  using assms readline_line [of realloc "l @ 10 # rest" junk] by (auto simp: text_line_def)

text \<open>The last line, when the input ends inside it.\<close>

lemma line_of_rest: "10 \<notin> set l \<Longrightarrow> line_of l = l"
  by (induction l) auto

lemma readline_rest:
  assumes "\<And>n. realloc n" and "text_line l" and "length l < 2 ^ 62" and "l \<noteq> []"
  obtains linep where "readline True realloc junk l = Inr (Some linep, [])" "c_str linep = butlast l"
  using assms readline_line [of realloc l junk] by (auto simp: text_line_def line_of_rest)

text \<open>The loop over one line that is not \<open>QUIT\<close>, up to the wait for an answer.\<close>

lemma pub_loop_line:
  assumes "readline True realloc junk (pu_in p) = Inr (Some linep, rest)" and "c_str linep = l" and "\<not> is_quit l"
    and "sendable (line_request api l)" and "accepts (pu_tx p) (length (buffer_bytes (line_request api l)) + m)"
  obtains p' where "pub_loop (Suc f) api True realloc junk quitp p =
      (if asks api l then bindR (recv_blocking (pu_rx p) (unat BUFSIZE)) (\<lambda>es. pub_loop f api True realloc junk quitp (p'\<lparr>pu_rx := es\<rparr>))
       else pub_loop f api True realloc junk quitp p')"
    "pu_in p' = rest" "accepts (pu_tx p') m" "pu_wire p' = pu_wire p @ buffer_bytes (line_request api l)" "pu_rx p' = pu_rx p"
proof -
  obtain evs where sent: "send_buffer (p\<lparr>pu_in := rest\<rparr>) (line_request api l) =
        Inr ((p\<lparr>pu_in := rest\<rparr>)\<lparr>pu_tx := evs, pu_wire := pu_wire (p\<lparr>pu_in := rest\<rparr>) @ buffer_bytes (line_request api l)\<rparr>)"
      "accepts evs m"
    by (rule send_buffer_ok [OF assms(4), of "p\<lparr>pu_in := rest\<rparr>" m]) (use assms(5) in simp_all)
  let ?p = "p\<lparr>pu_in := rest, pu_tx := evs, pu_wire := pu_wire p @ buffer_bytes (line_request api l)\<rparr>"
  have "pub_loop (Suc f) api True realloc junk quitp p =
      (if asks api l then bindR (recv_blocking (pu_rx p) (unat BUFSIZE)) (\<lambda>es. pub_loop f api True realloc junk quitp (?p\<lparr>pu_rx := es\<rparr>))
       else pub_loop f api True realloc junk quitp ?p)"
    using assms(1-3) sent(1)
    by (cases "recv_blocking (pu_rx p) (unat BUFSIZE)") (simp_all add: pub_loop.simps Let_def line_request_def asks_def)
  then show thesis
    by (rule that) (use sent(2) in simp_all)
qed

text \<open>The loop over lines that are not \<open>QUIT\<close>, whatever follows them.\<close>

lemma pub_loop_lines:
  assumes "\<And>n. realloc n" and "\<forall>l\<in>set ls. text_line l \<and> \<not> is_quit l \<and> sendable (line_request api l)"
    and "pu_in p = concat (map (\<lambda>l. l @ [10]) ls) @ rest" and "length (pu_in p) < 2 ^ 62"
    and "accepts (pu_tx p) (length (concat (map (\<lambda>l. buffer_bytes (line_request api l)) ls)) + m)"
    and "length (filter (asks api) ls) \<le> answers (pu_rx p)"
  obtains p' where "pub_loop (length ls + f) api True realloc junk quitp p = pub_loop f api True realloc junk quitp p'"
    "pu_in p' = rest" "accepts (pu_tx p') m"
    "pu_wire p' = pu_wire p @ concat (map (\<lambda>l. buffer_bytes (line_request api l)) ls)"
    "filter (asks api) ls = [] \<longrightarrow> pu_rx p' = pu_rx p"
  using assms(2-)
proof (induction ls arbitrary: p thesis)
  case Nil
  then show ?case
    by simp
next
  case (Cons l ls)
  let ?bs = "\<lambda>ls. concat (map (\<lambda>l. buffer_bytes (line_request api l)) ls)"
  let ?rest = "concat (map (\<lambda>l. l @ [10]) ls) @ rest"
  have plain: "text_line l" "length (l @ 10 # ?rest) < 2 ^ 62" and l: "\<not> is_quit l" "sendable (line_request api l)"
    and in_p: "pu_in p = l @ 10 # ?rest"
    using Cons.prems(2-4) by simp_all
  obtain linep where linep: "readline True realloc junk (pu_in p) = Inr (Some linep, ?rest)" "c_str linep = l"
    unfolding in_p by (rule readline_text [OF assms(1) plain])
  have acc: "accepts (pu_tx p) (length (buffer_bytes (line_request api l)) + (length (?bs ls) + m))"
    using Cons.prems(5) by (simp add: add.assoc)
  obtain p1 where p1: "pub_loop (Suc (length ls + f)) api True realloc junk quitp p =
      (if asks api l then bindR (recv_blocking (pu_rx p) (unat BUFSIZE)) (\<lambda>es. pub_loop (length ls + f) api True realloc junk quitp (p1\<lparr>pu_rx := es\<rparr>))
       else pub_loop (length ls + f) api True realloc junk quitp p1)"
      "pu_in p1 = ?rest" "accepts (pu_tx p1) (length (?bs ls) + m)" "pu_wire p1 = pu_wire p @ buffer_bytes (line_request api l)"
      "pu_rx p1 = pu_rx p"
    by (rule pub_loop_line [OF linep l acc])
  obtain es where es: "pub_loop (Suc (length ls + f)) api True realloc junk quitp p = pub_loop (length ls + f) api True realloc junk quitp (p1\<lparr>pu_rx := es\<rparr>)"
      "length (filter (asks api) ls) \<le> answers es" "\<not> asks api l \<longrightarrow> es = pu_rx p"
  proof (cases "asks api l")
    case True
    then have "answers (pu_rx p) > 0"
      using Cons.prems(6) by simp
    then obtain es where "recv_blocking (pu_rx p) (unat BUFSIZE) = Inr es" "answers (pu_rx p) \<le> Suc (answers es)"
      by (rule recv_blocking_answer)
    with True p1(1) Cons.prems(6) show thesis
      by (intro that [of es]) simp_all
  next
    case False
    with p1(1,5) Cons.prems(6) show thesis
      by (intro that [of "pu_rx p"]) (simp_all add: p1(5) [symmetric])
  qed
  let ?p1 = "p1\<lparr>pu_rx := es\<rparr>"
  obtain p' where "pub_loop (length ls + f) api True realloc junk quitp ?p1 = pub_loop f api True realloc junk quitp p'"
      "pu_in p' = rest" "accepts (pu_tx p') m" "pu_wire p' = pu_wire ?p1 @ ?bs ls"
      "filter (asks api) ls = [] \<longrightarrow> pu_rx p' = pu_rx ?p1"
    by (rule Cons.IH [of ?p1]) (use Cons.prems(2-4) p1 es(2) in auto)
  with es p1(4) show ?case
    using Cons.prems(1) [of p'] by simp
qed

text \<open>What ends the loop: a quit, the end of the input, an answer that does not come.\<close>

lemma pub_loop_quit:
  assumes "readline True realloc junk (pu_in p) = Inr (Some linep, rest)" and "is_quit (c_str linep)"
    and "sendable quitp" and "accepts (pu_tx p) (length (buffer_bytes quitp) + m)"
  shows "\<exists>p'. pub_loop (Suc f) api True realloc junk quitp p = Inr p' \<and> pu_in p' = rest \<and> pu_wire p' = pu_wire p @ buffer_bytes quitp"
proof -
  have "accepts (pu_tx (p\<lparr>pu_in := rest\<rparr>)) (length (buffer_bytes quitp) + m)"
    using assms(4) by simp
  then obtain evs where "send_buffer (p\<lparr>pu_in := rest\<rparr>) quitp =
      Inr ((p\<lparr>pu_in := rest\<rparr>)\<lparr>pu_tx := evs, pu_wire := pu_wire (p\<lparr>pu_in := rest\<rparr>) @ buffer_bytes quitp\<rparr>)"
    by (rule send_buffer_ok [OF assms(3)])
  then show ?thesis
    using assms(1,2) by (simp add: pub_loop.simps Let_def)
qed

lemma pub_loop_eof: "pu_in p = [] \<Longrightarrow> pub_loop (Suc f) api True realloc junk quitp p = Inl OutOfBounds"
  by (simp add: pub_loop.simps readline_eof)

lemma pub_loop_rest:
  assumes "\<And>n. realloc n" and "text_line (pu_in p)" and "length (pu_in p) < 2 ^ 62" and "pu_in p \<noteq> []"
    and l: "l = butlast (pu_in p)" "\<not> is_quit l" "\<not> asks api l" "sendable (line_request api l)"
    and acc: "accepts (pu_tx p) (length (buffer_bytes (line_request api l)) + m)"
  shows "pub_loop (Suc (Suc f)) api True realloc junk quitp p = Inl OutOfBounds"
proof -
  obtain linep where linep: "readline True realloc junk (pu_in p) = Inr (Some linep, [])" "c_str linep = l"
    unfolding l(1) by (rule readline_rest [OF assms(1-4)])
  obtain p' where "pub_loop (Suc (Suc f)) api True realloc junk quitp p =
      (if asks api l then bindR (recv_blocking (pu_rx p) (unat BUFSIZE)) (\<lambda>es. pub_loop (Suc f) api True realloc junk quitp (p'\<lparr>pu_rx := es\<rparr>))
       else pub_loop (Suc f) api True realloc junk quitp p')" "pu_in p' = []"
    by (rule pub_loop_line [OF linep l(2,4) acc])
  then show ?thesis
    using l(3) pub_loop_eof [of p'] by simp
qed

lemma pub_loop_blocks:
  assumes "\<And>n. realloc n" and "text_line l" and "length (l @ 10 # rest) < 2 ^ 62" and in_p: "pu_in p = l @ 10 # rest"
    and l: "\<not> is_quit l" "sendable (line_request api l)" and "asks api l" and "answers (pu_rx p) = 0"
    and acc: "accepts (pu_tx p) (length (buffer_bytes (line_request api l)) + m)"
  shows "pub_loop (Suc f) api True realloc junk quitp p = Inl Blocked"
proof -
  obtain linep where linep: "readline True realloc junk (pu_in p) = Inr (Some linep, rest)" "c_str linep = l"
    unfolding in_p by (rule readline_text [OF assms(1-3)])
  obtain p' where "pub_loop (Suc f) api True realloc junk quitp p =
      (if asks api l then bindR (recv_blocking (pu_rx p) (unat BUFSIZE)) (\<lambda>es. pub_loop f api True realloc junk quitp (p'\<lparr>pu_rx := es\<rparr>))
       else pub_loop f api True realloc junk quitp p')"
    by (rule pub_loop_line [OF linep l acc])
  then show ?thesis
    using assms(7,8) by (simp add: recv_blocking_none)
qed

section \<open>Properties\<close>

text \<open>
  C40: \<open>readline\<close> of the publisher reads one line and returns it without its last character,
  whatever its length: the buffer is doubled in time, so every byte is written inside it.  It drops
  the last character whether or not that is the newline, so the last line of an input that does not
  end in one loses a byte of data; and at the end of the input, where there is no line, it writes the
  byte before the block it allocated.
\<close>

theorem readline_strips:
  assumes "\<And>n. realloc n" and "0 \<notin> set (line_of input)" and "length input < 2 ^ 62"
  shows "(input = [] \<longrightarrow> readline True realloc junk input = Inl OutOfBounds) \<and>
    (input \<noteq> [] \<longrightarrow>
       (\<exists>linep. readline True realloc junk input = Inr (Some linep, drop (length (line_of input)) input) \<and>
          c_str linep = butlast (line_of input)))"
proof (cases input)
  case (Cons c cs)
  then have "line_of input \<noteq> []"
    by simp
  then obtain linep where "readline True realloc junk input = Inr (Some linep, drop (length (line_of input)) input)"
      "c_str linep = butlast (line_of input)"
    by (rule readline_line [OF assms, where junk = junk])
  with Cons show ?thesis
    by simp
qed (simp add: readline_eof)

theorem readline_strips_witness:
  "(\<exists>linep. readline True (\<lambda>_. True) (\<lambda>_. 255) [104, 105, 10, 111] = Inr (Some linep, [111]) \<and> c_str linep = [104, 105]) \<and>
   (\<exists>linep. readline True (\<lambda>_. True) (\<lambda>_. 255) [111, 107] = Inr (Some linep, []) \<and> c_str linep = [111]) \<and>
   readline True (\<lambda>_. True) (\<lambda>_. 255) [] = Inl OutOfBounds"
  using readline_strips [of "\<lambda>_. True" "[104, 105, 10, 111]" "\<lambda>_. 255"] readline_strips [of "\<lambda>_. True" "[111, 107]" "\<lambda>_. 255"]
    readline_strips [of "\<lambda>_. True" "[]" "\<lambda>_. 255"]
  by simp

text \<open>
  C39: The publisher sends one request per line, in order.  When its socket takes the bytes and every request that asks for an
  answer gets one, the lines up to one that starts with \<open>quit\<close>, in upper or lower case, are read, the packed requests
  for them go out one behind the other, followed by the packed quit request, and the program returns with the rest of
  the input unread.  When the input ends inside a last line, that line is handled without its last character; unless
  this is a quit or asks for an answer, the program then writes outside of its buffer, as it does when the input ends behind a newline.  A request that asks
  for an answer that never comes blocks the program.
\<close>

theorem publisher_sends_lines:
  assumes "\<And>n. realloc n" and "0 \<le> sock" and "proc sock = p"
    and "\<forall>l\<in>set ls. text_line l \<and> \<not> is_quit l \<and> sendable (line_request api l)"
    and "length (filter (asks api) ls) \<le> answers (pu_rx p)" and "text_line l"
    and "quit = ra_pack api (ra_build_ack api (ra_QUIT api) [])" and "sendable quit" and "sendable (line_request api (butlast l))"
    and "sendable (line_request api l)" and "sent = concat (map (\<lambda>l. buffer_bytes (line_request api l)) ls)"
    and "m = length (buffer_bytes quit) + length (buffer_bytes (line_request api l)) + length (buffer_bytes (line_request api (butlast l)))"
    and "accepts (pu_tx p) (length sent + m)" and "length (pu_in p) < 2 ^ 62"
    and "run = pub_main (length ls + 2) api (sock, True, True) True realloc junk proc"
  shows "(pu_in p = concat (map (\<lambda>l. l @ [10]) ls) @ l @ 10 # rest \<longrightarrow> is_quit l \<longrightarrow>
      (\<exists>p'. run = Inr p' \<and> pu_in p' = rest \<and> pu_wire p' = pu_wire p @ sent @ buffer_bytes quit)) \<and>
    (pu_in p = concat (map (\<lambda>l. l @ [10]) ls) @ l \<longrightarrow> l \<noteq> [] \<longrightarrow> is_quit (butlast l) \<longrightarrow>
      (\<exists>p'. run = Inr p' \<and> pu_in p' = [] \<and> pu_wire p' = pu_wire p @ sent @ buffer_bytes quit)) \<and>
    (pu_in p = concat (map (\<lambda>l. l @ [10]) ls) @ l \<longrightarrow> l = [] \<or> \<not> is_quit (butlast l) \<and> \<not> asks api (butlast l) \<longrightarrow>
      run = Inl OutOfBounds) \<and>
    (pu_in p = concat (map (\<lambda>l. l @ [10]) ls) @ l @ 10 # rest \<longrightarrow> \<not> is_quit l \<longrightarrow> asks api l \<longrightarrow>
      filter (asks api) ls = [] \<longrightarrow> answers (pu_rx p) = 0 \<longrightarrow> run = Inl Blocked)"
proof -
  have lines: "\<exists>p1. run = pub_loop (Suc (Suc 0)) api True realloc junk quit p1 \<and> pu_in p1 = tail \<and> accepts (pu_tx p1) m \<and>
      pu_wire p1 = pu_wire p @ sent \<and> (filter (asks api) ls = [] \<longrightarrow> pu_rx p1 = pu_rx p)"
    if tail: "pu_in p = concat (map (\<lambda>l. l @ [10]) ls) @ tail" for tail
  proof -
    obtain p1 where "pub_loop (length ls + 2) api True realloc junk quit p = pub_loop 2 api True realloc junk quit p1"
        "pu_in p1 = tail" "accepts (pu_tx p1) m" "pu_wire p1 = pu_wire p @ sent" "filter (asks api) ls = [] \<longrightarrow> pu_rx p1 = pu_rx p"
      by (rule pub_loop_lines [where f = 2 and junk = junk and quitp = quit, OF assms(1,4) tail assms(14)
            assms(13) [unfolded assms(11)] assms(5), folded assms(11)])
    then show ?thesis
      using assms(2,3,7,15) by (intro exI [of _ p1]) (simp add: pub_main_def make_connection_def numeral_2_eq_2)
  qed
  have quits: "\<exists>p'. run = Inr p' \<and> pu_in p' = tl' \<and> pu_wire p' = pu_wire p @ sent @ buffer_bytes quit"
    if q: "pu_in p = concat (map (\<lambda>l. l @ [10]) ls) @ tail" "readline True realloc junk tail = Inr (Some linep, tl')" "is_quit (c_str linep)"
    for tail linep tl'
  proof -
    obtain p1 where p1: "run = pub_loop (Suc (Suc 0)) api True realloc junk quit p1" "pu_in p1 = tail" "accepts (pu_tx p1) m"
        "pu_wire p1 = pu_wire p @ sent"
      using lines [OF q(1)] by blast
    with pub_loop_quit [OF _ q(3) assms(8), of realloc junk p1 tl' _ "Suc 0" api] show ?thesis
      using q(2) assms(12) by (simp add: add.assoc)
  qed
  have short: "length (l @ 10 # rest) < 2 ^ 62" if "pu_in p = concat (map (\<lambda>l. l @ [10]) ls) @ l @ 10 # rest"
    using assms(14) that by simp
  have short': "length l < 2 ^ 62" if "pu_in p = concat (map (\<lambda>l. l @ [10]) ls) @ l"
    using assms(14) that by simp
  have "\<exists>p'. run = Inr p' \<and> pu_in p' = rest \<and> pu_wire p' = pu_wire p @ sent @ buffer_bytes quit"
    if input: "pu_in p = concat (map (\<lambda>l. l @ [10]) ls) @ l @ 10 # rest" and q: "is_quit l"
  proof -
    obtain linep where "readline True realloc junk (l @ 10 # rest) = Inr (Some linep, rest)" "c_str linep = l"
      by (rule readline_text [OF assms(1,6) short [OF input]])
    then show ?thesis
      using quits [OF input] q by simp
  qed
  moreover have "\<exists>p'. run = Inr p' \<and> pu_in p' = [] \<and> pu_wire p' = pu_wire p @ sent @ buffer_bytes quit"
    if input: "pu_in p = concat (map (\<lambda>l. l @ [10]) ls) @ l" and q: "l \<noteq> []" "is_quit (butlast l)"
  proof -
    obtain linep where "readline True realloc junk l = Inr (Some linep, [])" "c_str linep = butlast l"
      by (rule readline_rest [OF assms(1,6) short' [OF input] q(1)])
    then show ?thesis
      using quits [OF input] q by simp
  qed
  moreover have "run = Inl OutOfBounds"
    if input: "pu_in p = concat (map (\<lambda>l. l @ [10]) ls) @ l" and q: "l = [] \<or> \<not> is_quit (butlast l) \<and> \<not> asks api (butlast l)"
  proof -
    obtain p1 where p1: "run = pub_loop (Suc (Suc 0)) api True realloc junk quit p1" "pu_in p1 = l" "accepts (pu_tx p1) m"
      using lines [OF input] by blast
    then have "accepts (pu_tx p1) (length (buffer_bytes (line_request api (butlast l))) + 0)"
      using assms(12) by (auto intro: accepts_mono)
    from pub_loop_rest [OF assms(1) _ _ _ _ _ _ assms(9) this] show ?thesis
      using p1(1,2) q assms(6) short' [OF input] pub_loop_eof [of p1] by fastforce
  qed
  moreover have "run = Inl Blocked"
    if input: "pu_in p = concat (map (\<lambda>l. l @ [10]) ls) @ l @ 10 # rest" and q: "\<not> is_quit l" "asks api l"
      and none: "filter (asks api) ls = []" "answers (pu_rx p) = 0"
  proof -
    obtain p1 where p1: "run = pub_loop (Suc (Suc 0)) api True realloc junk quit p1" "pu_in p1 = l @ 10 # rest" "accepts (pu_tx p1) m"
        "pu_rx p1 = pu_rx p"
      using lines [OF input] none by blast
    then have "answers (pu_rx p1) = 0" "accepts (pu_tx p1) (length (buffer_bytes (line_request api l)) + 0)"
      using none(2) assms(12) by (auto intro: accepts_mono)
    from pub_loop_blocks [OF assms(1,6) short [OF input] p1(2) q(1) assms(10) q(2) this] show ?thesis
      by (simp add: p1(1))
  qed
  ultimately show ?thesis
    by blast
qed

text \<open>A request library that packs the topic and the message behind each other.\<close>

definition plain_api :: "block request_api" where
  "plain_api = \<lparr>ra_QUIT = 0xE0, ra_build_ack = \<lambda>opcode s. opcode # s, ra_build_subscribe = \<lambda>_ _ _ topic s. topic @ s,
     ra_pack = \<lambda>r. \<lparr>b_size = of_nat (length r), b_pos = 0, b_data = r\<rparr>, ra_qos = \<lambda>_. 0\<rparr>"

definition publisher1 :: "int \<Rightarrow> pub_proc" where
  "publisher1 fd = \<lparr>pu_in = [104, 105, 10, 81, 117, 105, 116, 10, 1], pu_tx = replicate 40 (Accept 1), pu_rx = [], pu_wire = []\<rparr>"

theorem publisher_sends_lines_witness:
  "\<exists>p'. pub_main 3 plain_api (3, True, True) True (\<lambda>_. True) (\<lambda>_. 255) publisher1 = Inr p' \<and> pu_in p' = [1] \<and>
    pu_wire p' = [116, 101, 115, 116, 48, 49, 104, 105, 0xE0]"
proof -
  have req: "line_request plain_api l = \<lparr>b_size = of_nat (6 + length l), b_pos = 0, b_data = [116, 101, 115, 116, 48, 49] @ l\<rparr>" for l
    by (simp add: line_request_def plain_api_def pub_topic_def)
  have quit: "ra_pack plain_api (ra_build_ack plain_api (ra_QUIT plain_api) []) = \<lparr>b_size = 1, b_pos = 0, b_data = [0xE0]\<rparr>"
    by (simp add: plain_api_def)
  let ?p = "publisher1 3" and ?ls = "[[104, 105]] :: block list" and ?q = "[81, 117, 105, 116] :: block"
  let ?quit = "\<lparr>b_size = 1, b_pos = 0, b_data = [0xE0]\<rparr> :: buffer"
  let ?sent = "[116, 101, 115, 116, 48, 49, 104, 105] :: block"
  have lines: "\<forall>l\<in>set ?ls. text_line l \<and> \<not> is_quit l \<and> sendable (line_request plain_api l)"
    by (simp add: req text_line_def is_quit_def c_tolower_def sendable_def)
  have asks: "length (filter (asks plain_api) ?ls) \<le> answers (pu_rx ?p)"
    by (simp add: asks_def plain_api_def)
  have q: "text_line ?q" "is_quit ?q" "sendable ?quit" "sendable (line_request plain_api ?q)" "sendable (line_request plain_api (butlast ?q))"
    by (simp_all add: text_line_def is_quit_def c_tolower_def sendable_def req)
  have sent: "?sent = concat (map (\<lambda>l. buffer_bytes (line_request plain_api l)) ?ls)"
    by (simp add: req buffer_bytes_def)
  have m: "20 = length (buffer_bytes ?quit) + length (buffer_bytes (line_request plain_api ?q)) + length (buffer_bytes (line_request plain_api (butlast ?q)))"
    by (simp add: req buffer_bytes_def)
  have tx: "accepts (pu_tx ?p) (length ?sent + 20)" "length (pu_in ?p) < 2 ^ 62"
    by (simp_all add: publisher1_def accepts_def)
  have "pu_in ?p = concat (map (\<lambda>l. l @ [10]) ?ls) @ ?q @ 10 # [1]" "(0 :: int) \<le> 3"
    by (simp_all add: publisher1_def)
  with publisher_sends_lines [where proc = publisher1 and junk = "\<lambda>_. 255" and rest = "[1]",
      OF TrueI _ refl lines asks q(1) quit [symmetric] q(3,5,4) sent m tx refl] q(2)
  obtain p' where "pub_main (length ?ls + 2) plain_api (3, True, True) True (\<lambda>_. True) (\<lambda>_. 255) publisher1 = Inr p'" "pu_in p' = [1]"
      "pu_wire p' = pu_wire ?p @ ?sent @ buffer_bytes ?quit"
    by blast
  then show ?thesis
    by (intro exI [of _ p']) (simp add: publisher1_def buffer_bytes_def numeral_3_eq_3)
qed

end
