(* ===== verification/Sz_Subscriber.thy ===== *)
theory Sz_Subscriber
  imports Sz_Client Sz_Forward
begin

text \<open>
  The subscriber of \<^verbatim>\<open>sizigysub.c\<close>: it subscribes to one topic, then waits for events of its connection and prints
  the messages it receives.  The functions that build, pack and unpack requests and responses are
  declared nowhere in the repository; they are the parameters \<open>request_api\<close> and \<open>response_api\<close>.
\<close>

section \<open>Definitions\<close>

text \<open>
  What the subscriber calls of the response library: \<open>unpack_response\<close>, given the buffer of \<open>recv_packet\<close> or NULL, with
  the response and the return code, and the fields \<open>header->opcode\<close> and \<open>message\<close>.
\<close>

record 'r response_api =
  rs_unpack :: "buffer option \<Rightarrow> cerr + ('r \<times> u8)"
  rs_opcode :: "'r \<Rightarrow> u8"
  rs_message :: "'r \<Rightarrow> block"

text \<open>The epoll instance, what the sockets deliver and take, the bytes sent and the messages printed.\<close>

record subscriber =
  su_epoll :: "nat epoll"
  su_rx :: "int \<Rightarrow> recv_ev list"
  su_tx :: "send_ev list"
  su_wire :: block
  su_out :: "block list"
  su_junk :: "nat \<Rightarrow> u8"

definition handle_request :: "nat \<Rightarrow> 'r response_api \<Rightarrow> subscriber \<Rightarrow> int \<Rightarrow> cerr + (subscriber \<times> int)" where
  "handle_request fuel api s fd =
     bindR (ringbuf_init True (Some (map (su_junk s) [0..<RBUF_SIZE])) (of_nat RBUF_SIZE)) (\<lambda>rbuf.
     bindR (recv_packet fuel (su_junk s) (su_rx s fd) rbuf) (\<lambda>(es, rbuf, res).
     let s = s\<lparr>su_rx := (su_rx s)(fd := es)\<rparr> in
     bindR (rs_unpack api (map_option fst res)) (\<lambda>(r, read_all).
     if read_all = 1 then Inr (s, -1)
     else
       bindR (if rs_opcode api r = PUBLISH
              then bindR (c_strlen (rs_message api r)) (\<lambda>_. Inr (s\<lparr>su_out := su_out s @ [c_str (rs_message api r)]\<rparr>))
              else Inr s) (\<lambda>s.
       Inr (s\<lparr>su_epoll := mod_epoll (su_epoll s) fd EPOLLIN None\<rparr>, 0)))))"

text \<open>One event of \<open>response_thread\<close>, and the thread over what \<open>epoll_wait\<close> returns; it ends when there is no event.\<close>

definition close_event :: "subscriber \<Rightarrow> int \<Rightarrow> subscriber" where
  "close_event s fd = s\<lparr>su_epoll := del_epoll (su_epoll s) fd\<rparr>"

definition response_event :: "nat \<Rightarrow> 'r response_api \<Rightarrow> subscriber \<Rightarrow> u32 \<times> int \<Rightarrow> cerr + subscriber" where
  "response_event fuel api s ev =
     (let (evs, fd) = ev in
      if evs AND EPOLLERR \<noteq> 0 \<or> evs AND EPOLLHUP \<noteq> 0 \<or> (evs AND EPOLLIN = 0 \<and> evs AND EPOLLOUT = 0)
      then Inr (close_event s fd)
      else if evs AND EPOLLIN \<noteq> 0
      then bindR (handle_request fuel api s fd) (\<lambda>(s, rc). Inr (if rc = -1 then close_event s fd else s))
      else Inr s)"

fun response_batch :: "nat \<Rightarrow> 'r response_api \<Rightarrow> subscriber \<Rightarrow> (u32 \<times> int) list \<Rightarrow> cerr + subscriber" where
  "response_batch fuel api s [] = Inr s"
| "response_batch fuel api s (ev # evs) = bindR (response_event fuel api s ev) (\<lambda>s. response_batch fuel api s evs)"

fun response_thread :: "nat \<Rightarrow> 'r response_api \<Rightarrow> subscriber \<Rightarrow> (u32 \<times> int) list list \<Rightarrow> cerr + subscriber" where
  "response_thread fuel api s [] = Inr s"
| "response_thread fuel api s (b # bs) =
     (if b = [] then Inr s else bindR (response_batch fuel api s b) (\<lambda>s. response_thread fuel api s bs))"

definition AT_MOST_ONCE :: u8 where "AT_MOST_ONCE = 0x00"

text \<open>
  \<open>main\<close>: the outcomes of \<open>epoll_create1\<close> and of the system calls of \<open>make_connection\<close>, the process when it starts and the events it
  then gets.  The result of \<open>set_nonblocking\<close> is not used; a descriptor that is not open is not registered.  \<open>REQUEST\<close>
  is another name the repository does not declare.
\<close>

definition sub_main ::
  "nat \<Rightarrow> u8 \<Rightarrow> 'q request_api \<Rightarrow> 'r response_api \<Rightarrow> int \<Rightarrow> int \<times> bool \<times> bool \<Rightarrow> subscriber \<Rightarrow> (u32 \<times> int) list list \<Rightarrow>
    cerr + (subscriber \<times> int)" where
  "sub_main fuel REQUEST qapi api epollfd net s bs =
     (if epollfd = -1 then Inl ExitFailure
      else
        let (sock, host, conn) = net in
        bindR (make_connection sock host conn []) (\<lambda>(_, connfd).
        let s = (if connfd < 0 then s else s\<lparr>su_epoll := add_epoll (su_epoll s) connfd None\<rparr>);
            sp = ra_pack qapi (ra_build_subscribe qapi REQUEST SUBSCRIBE AT_MOST_ONCE pub_topic []) in
        bindR (sendall (su_tx s) (b_data sp) (unat (b_size sp))) (\<lambda>(evs, bytes, _, n).
        let s = s\<lparr>su_tx := evs, su_wire := su_wire s @ bytes\<rparr> in
        if n < 0 then Inr (s, -1)
        else bindR (response_thread fuel api s bs) (\<lambda>s. Inr (s, 0)))))"

section \<open>Printing what arrives\<close>

text \<open>The buffer \<open>recv_packet\<close> makes of a packet, and what the subscriber prints for a response.\<close>

definition packet_buffer :: "block \<Rightarrow> buffer" where
  "packet_buffer p = \<lparr>b_size = of_nat (length p), b_pos = 0, b_data = p\<rparr>"

definition printed :: "'r response_api \<Rightarrow> 'r \<Rightarrow> block list" where
  "printed api r = (if rs_opcode api r = PUBLISH then [c_str (rs_message api r)] else [])"

text \<open>What is left of the process after a packet: the input behind it, before anything is printed.\<close>

lemma handle_request_received:
  assumes "Chunk [] \<notin> set (su_rx s fd)" and "ready (su_rx s fd) = p @ rest" and "packet_block p" and "length p \<le> RBUF_SIZE"
    and "rs_unpack api (Some (packet_buffer p)) = Inr (r, rc)" and "rc \<noteq> 1 \<longrightarrow> 0 \<in> set (rs_message api r)"
  obtains es where "handle_request (Suc f) api s fd =
      (if rc = 1 then Inr (s\<lparr>su_rx := (su_rx s)(fd := es)\<rparr>, -1)
       else Inr (s\<lparr>su_rx := (su_rx s)(fd := es), su_out := su_out s @ printed api r,
         su_epoll := mod_epoll (su_epoll s) fd EPOLLIN None\<rparr>, 0))" "ready es = rest" "Chunk [] \<notin> set es"
proof -
  obtain rb where rb: "ringbuf_init True (Some (map (su_junk s) [0..<RBUF_SIZE])) (of_nat RBUF_SIZE) = Inr rb" "ring_inv rb"
      "ring_contents rb = []" "unat (rb_max rb) = RBUF_SIZE"
    by (rule request_ring)
  have "length p \<le> unat (rb_max rb)"
    using assms(4) rb(4) by simp
  then obtain es r' where es: "recv_packet (Suc f) (su_junk s) (su_rx s fd) rb =
      Inr (es, r', Some (\<lparr>b_size = of_nat (length p), b_pos = 0, b_data = p\<rparr>, p ! 0))"
      "ready es = rest" "Chunk [] \<notin> set es"
    by (rule recv_packet_ready [OF rb(2,3) assms(1-3)])
  have "handle_request (Suc f) api s fd =
      (if rc = 1 then Inr (s\<lparr>su_rx := (su_rx s)(fd := es)\<rparr>, -1)
       else Inr (s\<lparr>su_rx := (su_rx s)(fd := es), su_out := su_out s @ printed api r,
         su_epoll := mod_epoll (su_epoll s) fd EPOLLIN None\<rparr>, 0))"
    using assms(5,6) by (simp add: handle_request_def rb(1) es(1) packet_buffer_def printed_def c_strlen_def Let_def)
  then show thesis
    using es(2,3) that by blast
qed

lemma response_event_in:
  "handle_request fuel api s fd = Inr (s', rc) \<Longrightarrow> response_event fuel api s (EPOLLIN, fd) = Inr (if rc = -1 then close_event s' fd else s')"
  by (simp add: response_event_def epoll_masks)

lemma response_thread_append:
  assumes "\<forall>b\<in>set bs. b \<noteq> []"
  shows "response_thread fuel api s (bs @ bs') = bindR (response_thread fuel api s bs) (\<lambda>s. response_thread fuel api s bs')"
  using assms
proof (induction bs arbitrary: s)
  case (Cons b bs)
  then show ?case
    by (cases "response_batch fuel api s b") auto
qed simp

lemma response_thread_packets:
  assumes "\<forall>(p, r)\<in>set prs. packet_block p \<and> length p \<le> RBUF_SIZE \<and> 0 \<in> set (rs_message api r) \<and>
      (\<exists>rc. rs_unpack api (Some (packet_buffer p)) = Inr (r, rc) \<and> rc \<noteq> 1)"
    and "Chunk [] \<notin> set (su_rx s fd)" and "ready (su_rx s fd) = concat (map fst prs) @ rest" and "armed (su_epoll s) fd EPOLLIN"
  shows "\<exists>s'. response_thread (Suc f) api s (map (\<lambda>_. [(EPOLLIN, fd)]) prs) = Inr s' \<and>
    su_out s' = su_out s @ concat (map (\<lambda>(_, r). printed api r) prs) \<and> ready (su_rx s' fd) = rest \<and> armed (su_epoll s') fd EPOLLIN \<and>
    Chunk [] \<notin> set (su_rx s' fd)"
  using assms
proof (induction prs arbitrary: s)
  case Nil
  then show ?case
    by simp
next
  case (Cons pr prs)
  obtain p r where pr: "pr = (p, r)"
    by (cases pr)
  then obtain rc where unp: "rs_unpack api (Some (packet_buffer p)) = Inr (r, rc)" "rc \<noteq> 1"
      and p: "packet_block p" "length p \<le> RBUF_SIZE" "0 \<in> set (rs_message api r)"
    using Cons.prems(1) by auto
  have rdy: "ready (su_rx s fd) = p @ concat (map fst prs) @ rest"
    using Cons.prems(3) pr by simp
  obtain es where es: "handle_request (Suc f) api s fd =
      (if rc = 1 then Inr (s\<lparr>su_rx := (su_rx s)(fd := es)\<rparr>, -1)
       else Inr (s\<lparr>su_rx := (su_rx s)(fd := es), su_out := su_out s @ printed api r,
         su_epoll := mod_epoll (su_epoll s) fd EPOLLIN None\<rparr>, 0))" (is "_ = (if _ then _ else Inr (?s, 0))")
      "ready es = concat (map fst prs) @ rest" "Chunk [] \<notin> set es"
    by (rule handle_request_received [OF Cons.prems(2) rdy p(1,2) unp(1)]) (use p(3) in simp_all)
  have "fd \<in> dom (su_epoll s)"
    using Cons.prems(4) by (auto simp: armed_def split: option.splits)
  then have "armed (su_epoll ?s) fd EPOLLIN"
    by simp
  with Cons.IH [of ?s] Cons.prems(1) es(2,3) obtain s' where "response_thread (Suc f) api ?s (map (\<lambda>_. [(EPOLLIN, fd)]) prs) = Inr s'"
      "su_out s' = su_out ?s @ concat (map (\<lambda>(_, r). printed api r) prs)" "ready (su_rx s' fd) = rest" "armed (su_epoll s') fd EPOLLIN"
      "Chunk [] \<notin> set (su_rx s' fd)"
    by auto
  moreover have "handle_request (Suc f) api s fd = Inr (?s, 0)"
    using es(1) unp(2) by simp
  ultimately show ?case
    using response_event_in [of "Suc f" api s fd ?s 0] pr by simp
qed

section \<open>Properties\<close>

text \<open>
  C38: The subscriber cuts its input into packets.  Whatever \<open>unpack_response\<close> makes of a packet, when complete packets
  are ready on the connection back to back, in chunks of any sizes, and each of them is unpacked without the error
  code, the response thread, given one input event for each, hands exactly these packets to \<open>unpack_response\<close>, in
  order: it prints the messages of the responses with opcode \<open>PUBLISH\<close> and nothing for the others, leaves the
  bytes behind them on the socket and stays armed for input.  A further packet that unpacks with the error code closes the
  connection and prints nothing.
\<close>

theorem subscriber_cuts_packets:
  assumes "\<forall>(p, r)\<in>set prs. packet_block p \<and> length p \<le> RBUF_SIZE \<and> 0 \<in> set (rs_message api r) \<and>
      (\<exists>rc. rs_unpack api (Some (packet_buffer p)) = Inr (r, rc) \<and> rc \<noteq> 1)"
    and "Chunk [] \<notin> set (su_rx s fd)" and "armed (su_epoll s) fd EPOLLIN"
    and "out = su_out s @ concat (map (\<lambda>(_, r). if rs_opcode api r = PUBLISH then [c_str (rs_message api r)] else []) prs)"
  shows "(ready (su_rx s fd) = concat (map fst prs) @ rest \<longrightarrow>
      (\<exists>s'. response_thread (Suc f) api s (map (\<lambda>_. [(EPOLLIN, fd)]) prs) = Inr s' \<and>
        su_out s' = out \<and> ready (su_rx s' fd) = rest \<and> armed (su_epoll s') fd EPOLLIN)) \<and>
    (ready (su_rx s fd) = concat (map fst prs) @ p @ rest \<longrightarrow> packet_block p \<longrightarrow> length p \<le> RBUF_SIZE \<longrightarrow>
      rs_unpack api (Some (packet_buffer p)) = Inr (r, 1) \<longrightarrow>
      (\<exists>s'. response_thread (Suc f) api s (map (\<lambda>_. [(EPOLLIN, fd)]) prs @ [[(EPOLLIN, fd)]]) = Inr s' \<and>
        su_out s' = out \<and> ready (su_rx s' fd) = rest \<and> fd \<notin> dom (su_epoll s')))"
proof (intro conjI impI)
  have out: "out = su_out s @ concat (map (\<lambda>(_, r). printed api r) prs)"
    by (simp add: assms(4) printed_def)
  note packets = response_thread_packets [OF assms(1,2) _ assms(3), of _ f, folded out]
  show "\<exists>s'. response_thread (Suc f) api s (map (\<lambda>_. [(EPOLLIN, fd)]) prs) = Inr s' \<and>
      su_out s' = out \<and> ready (su_rx s' fd) = rest \<and> armed (su_epoll s') fd EPOLLIN"
    if "ready (su_rx s fd) = concat (map fst prs) @ rest"
    using packets [OF that] by blast
  assume p: "ready (su_rx s fd) = concat (map fst prs) @ p @ rest" "packet_block p" "length p \<le> RBUF_SIZE"
    "rs_unpack api (Some (packet_buffer p)) = Inr (r, 1)"
  obtain s1 where s1: "response_thread (Suc f) api s (map (\<lambda>_. [(EPOLLIN, fd)]) prs) = Inr s1" "su_out s1 = out"
      "ready (su_rx s1 fd) = p @ rest" "Chunk [] \<notin> set (su_rx s1 fd)"
    using packets [OF p(1)] by blast
  obtain es where "handle_request (Suc f) api s1 fd =
      (if (1 :: u8) = 1 then Inr (s1\<lparr>su_rx := (su_rx s1)(fd := es)\<rparr>, -1)
       else Inr (s1\<lparr>su_rx := (su_rx s1)(fd := es), su_out := su_out s1 @ printed api r,
         su_epoll := mod_epoll (su_epoll s1) fd EPOLLIN None\<rparr>, 0))" "ready es = rest" "Chunk [] \<notin> set es"
    by (rule handle_request_received [OF s1(4,3) p(2-4)]) simp_all
  then have "response_event (Suc f) api s1 (EPOLLIN, fd) = Inr (close_event (s1\<lparr>su_rx := (su_rx s1)(fd := es)\<rparr>) fd)" "ready es = rest"
    using response_event_in [of "Suc f" api s1 fd _ "-1"] by simp_all
  then show "\<exists>s'. response_thread (Suc f) api s (map (\<lambda>_. [(EPOLLIN, fd)]) prs @ [[(EPOLLIN, fd)]]) = Inr s' \<and>
      su_out s' = out \<and> ready (su_rx s' fd) = rest \<and> fd \<notin> dom (su_epoll s')"
    using s1(1,2) by (simp add: response_thread_append close_event_def del_epoll_def)
qed

text \<open>The protocol's own \<open>unpack_publish\<close> as a library that unpacks responses.\<close>

definition publish_api :: "publish response_api" where
  "publish_api = \<lparr>rs_unpack = \<lambda>b. case b of
        None \<Rightarrow> Inl NullDeref
      | Some b \<Rightarrow> bindR (unpack_publish True b) (\<lambda>(_, x, _). case x of None \<Rightarrow> Inl UninitRead | Some x \<Rightarrow> Inr (x, 0)),
     rs_opcode = \<lambda>x. hd_opcode (pb_header x), rs_message = pb_message\<rparr>"

lemma publish_api_unpacks:
  assumes "exact x"
  shows "rs_unpack publish_api (Some (packet_buffer (publish_block x))) = Inr (x, 0)"
proof -
  obtain b where "unpack_publish True (packet_buffer (publish_block x)) = Inr (b, Some x, 0)"
    unfolding packet_buffer_def by (rule unpack_publish_exact [OF assms])
  then show ?thesis
    by (simp add: publish_api_def)
qed

definition subscriber1 :: subscriber where
  "subscriber1 = \<lparr>su_epoll = [5 \<mapsto> (EPOLLIN, EpFd 5)],
     su_rx = \<lambda>_. [Chunk (publish_block (message1 0)), Chunk (publish_block (message1 0)), Chunk [7]],
     su_tx = [], su_wire = [], su_out = [], su_junk = \<lambda>_. 255\<rparr>"

theorem subscriber_cuts_packets_witness:
  "\<exists>s'. response_thread 1 publish_api subscriber1 [[(EPOLLIN, 5)], [(EPOLLIN, 5)]] = Inr s' \<and>
    su_out s' = [[104, 105], [104, 105]] \<and> ready (su_rx s' 5) = [7]"
proof -
  let ?x = "message1 0" and ?s = subscriber1
  let ?prs = "[(publish_block ?x, ?x), (publish_block ?x, ?x)]"
  have msg: "rs_message publish_api ?x = [104, 105, 0]" "rs_opcode publish_api ?x = PUBLISH" "c_str [104, 105, 0] = [104, 105]"
    by (simp_all add: publish_api_def message1_def c_str_def)
  have prs: "\<forall>(p, r)\<in>set ?prs. packet_block p \<and> length p \<le> RBUF_SIZE \<and> 0 \<in> set (rs_message publish_api r) \<and>
      (\<exists>rc. rs_unpack publish_api (Some (packet_buffer p)) = Inr (r, rc) \<and> rc \<noteq> 1)"
    using publish_api_unpacks [OF message1_exact] exact_packet_block [OF message1_exact]
    by (simp add: message1_length RBUF_SIZE_def ONEMB_def msg)
  have chunks: "Chunk [] \<notin> set (su_rx ?s 5)"
    using message1_length by (auto simp: subscriber1_def)
  have rdy: "ready (su_rx ?s 5) = concat (map fst ?prs) @ [7]" and armed: "armed (su_epoll ?s) 5 EPOLLIN"
    by (simp_all add: subscriber1_def armed_def epoll_masks)
  have out: "[[104, 105], [104, 105]] = su_out ?s @
      concat (map (\<lambda>(_, r). if rs_opcode publish_api r = PUBLISH then [c_str (rs_message publish_api r)] else []) ?prs)"
    by (simp add: subscriber1_def msg)
  have "\<exists>s'. response_thread (Suc 0) publish_api ?s (map (\<lambda>_. [(EPOLLIN, 5)]) ?prs) = Inr s' \<and>
      su_out s' = [[104, 105], [104, 105]] \<and> ready (su_rx s' 5) = [7] \<and> armed (su_epoll s') 5 EPOLLIN"
    using subscriber_cuts_packets [OF prs chunks armed out, of "[7]" 0] rdy by blast
  then show ?thesis
    by auto
qed

end
