(* ===== verification/Spec2Isabelle.thy ===== *)
theory Spec2Isabelle
  imports Sz_Forward Sz_Shutdown Sz_Subscriber
begin

text \<open>
  Verification of sizigy, an MQTT-like publish/subscribe broker in C, with its two demonstration clients.

  \<^bold>\<open>The program.\<close>  \<^verbatim>\<open>main.c\<close> parses the command line and calls \<open>start_server\<close> of \<^verbatim>\<open>server.c\<close>, which creates
  the database, the listening sockets and two epoll instances, and starts a pool of worker threads and a keepalive
  thread.  A worker waits for events and calls the context handler of the client an event belongs to:
  \<open>accept_handler\<close> for a listening socket, \<open>request_handler\<close> for a client whose packet is to be read, \<open>reply_handler\<close> for
  one whose reply is to be sent.  Registrations are one-shot; every handler arms the descriptor again for the
  next phase.  \<open>request_handler\<close> collects a packet in a ring buffer (\<open>recv_packet\<close>, \<^verbatim>\<open>ringbuf.c\<close>, \<^verbatim>\<open>network.c\<close>), unpacks it
  (\<^verbatim>\<open>protocol.c\<close>) and runs the handler of its opcode, which changes the database (\<^verbatim>\<open>sizigy.c\<close>: hash maps of clients and topics,
  topics with linked lists of subscriptions; \<^verbatim>\<open>hashmap.c\<close>, \<^verbatim>\<open>list.c\<close>) and leaves a reply.  \<open>reply_handler\<close> sends it, and
  delivers a published packet to the subscribers of its topic (\<open>publish_message\<close>).

  \<^bold>\<open>Theories and sources.\<close>
  \<^item> \<open>Sz_Prelude\<close>: the failures of C (\<open>cerr\<close>), the result monad \<open>bindR\<close>, checked access to blocks, C strings, and the rules \<open>fails_only\<close> and
    \<open>yields\<close> with which the later theories follow a computation step by step.
  \<^item> \<open>Sz_Heap\<close>: typed heaps with a bounded number of allocations, and linked chains in them.
  \<^item> \<open>Sz_Ringbuf\<close> (\<^verbatim>\<open>ringbuf.c\<close>), \<open>Sz_List\<close> (\<^verbatim>\<open>list.c\<close>), \<open>Sz_Queue\<close> (\<^verbatim>\<open>queue.c\<close>), \<open>Sz_Crc32\<close> and \<open>Sz_Hashmap\<close> (\<^verbatim>\<open>hashmap.c\<close>): the containers,
    each with its invariant, its abstraction to a HOL list or map, and what every operation does to it.
  \<^item> \<open>Sz_Network\<close> (\<^verbatim>\<open>network.c\<close>): byte order, the loops around \<open>send\<close> and \<open>recv\<close>, socket set-up, epoll registrations.
  \<^item> \<open>Sz_Protocol\<close> (\<^verbatim>\<open>protocol.c\<close>): buffers with a cursor, the packets, packing and unpacking.
  \<^item> \<open>Sz_Receive\<close> (\<open>recv_packet\<close> of \<^verbatim>\<open>server.c\<close>): receiving one packet.
  \<^item> \<open>Sz_Sizigy\<close> (\<^verbatim>\<open>sizigy.c\<close>): the database, its invariant \<open>db_inv\<close>, and its abstraction \<open>subscribers\<close>, the list of clients
    subscribed to each topic.
  \<^item> \<open>Sz_Util\<close> (\<^verbatim>\<open>util.c\<close>): string helpers, the name generator, the counter and its interleavings, the throttler, the log.
  \<^item> \<open>Sz_Server\<close> and \<open>Sz_Start\<close> (\<^verbatim>\<open>server.c\<close>, \<^verbatim>\<open>main.c\<close>): the handlers, the thread functions \<open>worker\<close> and \<open>keepalive\<close>, start-up and clean-up.
    The state \<open>server\<close> is the database extended by the epoll registrations, by what every descriptor will
    deliver (\<open>sv_rx\<close>) and take (\<open>sv_tx\<close>), and by the bytes sent on it so far (\<open>sv_wire\<close>).
  \<^item> \<open>Sz_Ownership\<close>: which topic owns which subscriptions and which message, and the changes of the database that keep it so.
  \<^item> \<open>Sz_Invariant\<close>: the invariant \<open>server_inv\<close> of the running broker, kept by every handler.
  \<^item> \<open>Sz_Session\<close>: the broker as a state machine \<open>server_step\<close> over a state and the multiset of events that were reported and not handled yet;
    its reachable states and their properties.
  \<^item> \<open>Sz_Handlers\<close>, \<open>Sz_Delivery\<close>, \<open>Sz_Commands\<close>, \<open>Sz_Keepalive\<close>, \<open>Sz_Forward\<close>: what the handlers do: accepting, answering,
    delivering, subscribing, connecting, the keepalive round, and the path of a published packet.
  \<^item> \<open>Sz_Cleanup\<close> and \<open>Sz_Shutdown\<close> (the end of \<open>start_server\<close>, \<open>sigint_handler\<close> of \<^verbatim>\<open>main.c\<close>): what the clean-up frees, and the protocol of signal handler,
    workers and keepalive thread over the event descriptor as a state machine \<open>thread_step\<close> with labelled steps.
  \<^item> \<open>Sz_Client\<close> and \<open>Sz_Subscriber\<close> (\<^verbatim>\<open>sizigypub.c\<close>, \<^verbatim>\<open>sizigysub.c\<close>): the two clients.
  \<^item> This theory: a published packet from the socket of the publisher to those of the subscribers.

  \<^bold>\<open>Conventions.\<close>  A C function that can fail is a function into \<open>cerr + 'a\<close>.  \<open>Inl\<close> stands for an execution that has undefined
  behaviour (a null or dangling pointer, an access outside of a block, a signed overflow, an indeterminate
  value), that locks a mutex it holds, that exits, or that does not return (\<open>Diverges\<close>); \<open>Inr\<close> holds the result.  Machine integers are words of their
  width.  Pointers are optional addresses; memory that is allocated and not yet written comes from a function \<open>junk\<close>.
  System calls are represented by their outcomes, as lists or records the definitions consume.

  \<^bold>\<open>Interfaces.\<close>  \<open>bounded_fifo\<close> (ring buffer), \<open>seq_insert\<close> (both ends of the list), \<open>fifo\<close> (queue), \<open>named_store\<close> (hash
  map), \<open>wire_codec\<close> (fields of 8 to 64 bits) and \<open>packet_format\<close> (the packets that round-trip) are locales with the laws their
  clients use; each is interpreted on the definitions of the model, where the laws are proved.

  \<^bold>\<open>What is shown.\<close>  Containers: each operation refines its abstract counterpart, with the exceptions
  below.  Protocol: packing and unpacking are inverse, unpacking stays inside the buffer, and so does forwarding a packet whose fields fit the size its header announces.  Broker: from start-up on and as long as every handler returns, every reachable state
  satisfies the invariant, so that an event meets a client that is alive and in the phase its handler
  expects; at most one event per client is outstanding; the thread functions are runs of the state machine.  A
  ping is answered, subscribing and connecting update the database as the protocol says, and
  a published packet reaches every subscriber whose socket takes it, unchanged.  Clients: the publisher sends a request per line and waits for the
  answers it asks for, the subscriber cuts its input into packets.  Shutdown: how many workers a signal stops, and when it can stop all of them; from every state of
  the running broker the clean-up frees each topic, message and subscription it owns once, the clients of its table, and the tables.  The theorems also make precise where the code does not do what it means to:
  growing a hash map locks its mutex twice, a deleted key can reappear, a topic somebody unsubscribed from cannot be destroyed, a
  \<open>CONNECT\<close> does not round-trip, a header that arrives in parts or announces too much breaks
  \<open>recv_packet\<close>, some packets leave their client without service, a retained message can be read after it
  was freed, a keepalive round stops early, and one signal may leave a worker waiting so that the clean-up is not reached.

  \<^bold>\<open>Fuel.\<close>  \<open>hashmap_put\<close> is given 2: the retry after a rehash is reached only once, and the rehash itself cannot return.
  \<open>publish_loop\<close>, \<open>release_queue\<close> and \<open>list_remove_node\<close> are given the recorded length of their list (the last one more), which the invariants show
  to be enough.  The polling loops of \<open>recv_packet\<close> have fuel because they need not end; one step is enough for a packet that is ready, and
  no fuel is enough for one that is too long.  The loop of the publisher has as much as there are lines.

  \<^bold>\<open>Abstractions.\<close>  Handlers run to completion, and the state machine \<open>server_step\<close> goes on only from handlers that return: it does not describe the broker
  after a thread has locked itself out by growing a map.  Reports of events, their handling, the keepalive rounds and the environment
  interleave.  Objects of the database may fail to be allocated, short strings and headers do not.  The
  clock does not advance inside a handler.  Fewer than \<open>2 ^ 64\<close> objects of a kind are allocated in a run.  Strings are values, so that
  only the release of objects, not of strings, is followed; the one exception is the identifier a \<open>CONNECT\<close> frees while
  it can still be the key of a table entry (\<open>free_id\<close>).

  In \<open>Sz_Shutdown\<close> the threads are reduced to what they do with the event descriptor; a batch of events counts as one phase, and a
  signal that interrupts the service of a client does not change its outcome.  Whether \<open>epoll_wait\<close> fails and whether the address of a client looks like the
  descriptor is left open there: either can happen at any time.  The event descriptor stays open.

  \<^bold>\<open>Not modelled.\<close>  \<open>oom\<close> of \<^verbatim>\<open>util.c\<close>, which prints and exits; failing \<open>pthread_create\<close>; data races inside a handler; a second signal during
  the shutdown.  The request and response functions the two clients call are not part of the repository and are parameters there.
\<close>

section \<open>From publisher to subscribers\<close>

text \<open>
  C2: A published packet is forwarded byte for byte.  When a complete and well-formed \<open>PUBLISH\<close> for an existing topic is
  ready on the socket of a client in the request phase, and the subscribers' sockets take data, the two events
  of that client make the broker append exactly the bytes it received to the output of every
  subscriber, once per subscription, followed at quality of service 1 by what the publisher's socket takes
  of a \<open>PUBACK\<close>, and nothing to any other descriptor; afterwards the client is armed for input again, the database is
  consistent and the subscriptions are as before.\<close>

theorem publish_forwarded:
  assumes "db_inv w" and "h_cells (hp_clients w) c = Some cl" and "cl_ctx_handler cl = RequestHandler"
    and "cl_id cl = Some ident" and "0 \<in> set ident" and "cl_fd cl \<in> dom (sv_epoll w)"
    and "exact x" and "pb_topic_len x \<noteq> 0" and "packet_ready w (cl_fd cl) (publish_block x)"
    and "heap_ok (hp_pkts w)" and "h_avail (hp_pkts w) > 0"
    and "hm_lookup (db_topics w) (c_str (pb_topic x)) = Some t" and "h_cells (hp_topics w) t = Some tp"
    and "length (subscribers w t) * length (publish_block x) \<le> INT_MAX"
    and "pb_retain x \<noteq> 0 \<longrightarrow> retained_live w tp \<and> h_avail (hp_msgs w) > 0"
    and "\<forall>s\<in>set (subscribers w t). accepts (sv_tx w (client_fd w s)) (length (subscribers w t) * length (publish_block x))"
  shows "\<exists>w1 w2 rc k. dispatch (Suc f) e w c = Inr (w1, 0) \<and> armed (sv_epoll w1) (cl_fd cl) EPOLLOUT \<and> sv_wire w1 = sv_wire w \<and>
    dispatch f' e' w1 c = Inr (w2, rc) \<and> armed (sv_epoll w2) (cl_fd cl) EPOLLIN \<and>
    (\<forall>fd. sv_wire w2 fd = sv_wire w fd @
      concat (map (\<lambda>_. publish_block x) (filter (\<lambda>s. client_fd w s = fd) (subscribers w t))) @
      (if pb_qos x = 1 \<and> fd = cl_fd cl then take k (ack_bytes PUBACK 0) else [])) \<and>
    db_inv w2 \<and> subscribers w2 = subscribers w"
proof -
  let ?fd = "cl_fd cl"
  have size: "unat (hd_size (pb_header x)) = length (publish_block x)"
    using assms(7) by (simp add: exact_def)
  note pub = exact_publishable [OF assms(7)]
  obtain es q h where req: "request_handler (Suc f) w c =
      Inr (set_epoll ((set_rx w ?fd es)\<lparr>hp_pkts := h, hp_clients := h_upd (hp_clients w) c (Some (publishing cl q (db_now w)))\<rparr>)
        (mod_epoll (sv_epoll w) ?fd EPOLLOUT (Some c)), 0)" (is "_ = Inr (?w1, 0)")
      and q: "h_cells h q = Some (PPublish x)"
    by (rule request_publish [OF assms(2,7,9,8,11,10)])
  let ?cl = "publishing cl q (db_now w)" and ?r = "\<lparr>rp_opcode = PUBLISH, rp_fd = ?fd, rp_body = Published (Some q), rp_retained = None\<rparr>"
  have cl: "h_cells (hp_clients ?w1) c = Some ?cl" "cl_reply ?cl = Some ?r" "cl_fd ?cl = ?fd" "cl_id ?cl = Some ident"
      "cl_ctx_handler ?cl = ReplyHandler"
    using assms(4) by (simp_all add: publishing_def)
  have w1: "db_inv ?w1" "subscribers ?w1 = subscribers w"
    using db_inv_client [OF assms(1), of c h ?cl] assms(2)
      db_inv_cong [of ?w1 "w\<lparr>hp_clients := h_upd (hp_clients w) c (Some ?cl), hp_pkts := h\<rparr>"] by simp_all
  have cfd: "client_fd ?w1 = client_fd w"
    using assms(2) cl(3) by (auto simp: fun_eq_iff client_fd_def)
  note eqs = w1(2) cfd size pub(2)
  have w1q: "h_cells (hp_pkts ?w1) q = Some (PPublish x)" "hm_lookup (db_topics ?w1) (c_str (pb_topic x)) = Some t"
      "h_cells (hp_topics ?w1) t = Some tp" "rp_body ?r = Published (Some q)"
      "length (subscribers ?w1 t) * unat (hd_size (pb_header x)) \<le> INT_MAX"
      "pb_retain x \<noteq> 0 \<longrightarrow> retained_live ?w1 tp \<and> h_avail (hp_msgs ?w1) > 0"
    using q assms(12-15) by (simp_all add: eqs retained_live_def)
  obtain w2 rc ts k n where w2: "reply_publish ?w1 (Some c) ?r = Inr (w2, rc)" "db_inv w2" "subscribers w2 = subscribers ?w1"
      "\<forall>fd. sv_wire w2 fd = sv_wire ?w1 fd @ delivered ?w1 (publish_bytes ?w1 x) (subscribers ?w1 t) ts fd @
        (if pb_qos x = 1 \<and> fd = rp_fd ?r then take k (ack_bytes PUBACK 0) else [])"
      "(\<forall>c\<in>set (subscribers ?w1 t). accepts (sv_tx ?w1 (client_fd ?w1 c)) (length (subscribers ?w1 t) * unat (hd_size (pb_header x)))) \<longrightarrow>
        ts = replicate (length (subscribers ?w1 t)) (unat (hd_size (pb_header x)))"
      "hp_pkts w2 = hp_pkts ?w1" "sv_epoll w2 = sv_epoll ?w1" "h_cells (hp_clients w2) c = Some (?cl\<lparr>cl_last_action_time := n\<rparr>)"
    by (rule reply_publish_ok [OF w1(1) cl(1) w1q(1) pub(1) w1q(2,3) cl(4) assms(5) w1q(4-6)])
  let ?w = "replied (w2\<lparr>hp_pkts := h_upd (hp_pkts ?w1) q None\<rparr>) c (?cl\<lparr>cl_last_action_time := n\<rparr>)"
  have "ts = replicate (length (subscribers w t)) (length (publish_block x))"
    using w2(5) assms(16) by (simp add: eqs)
  then have wire: "\<forall>fd. sv_wire ?w fd = sv_wire w fd @
      concat (map (\<lambda>_. publish_block x) (filter (\<lambda>s. client_fd w s = fd) (subscribers w t))) @
      (if pb_qos x = 1 \<and> fd = ?fd then take k (ack_bytes PUBACK 0) else [])"
    using w2(4) by (simp add: eqs replied_def delivered_cong [OF cfd] delivered_all)
  have run: "reply_handler ?w1 c = Inr (?w, rc)"
    by (rule reply_handler_publish [OF cl(1,2) _ _ w1q(1) w2(1,6,8)]) simp_all
  have db: "db_inv ?w" "subscribers ?w = subscribers w"
    using replied_ok [OF w2(2), of c] w2(3,8) w1(2) by simp_all
  have "armed (sv_epoll ?w1) ?fd EPOLLOUT" "armed (sv_epoll ?w) ?fd EPOLLIN"
    using assms(6) w2(7) cl(3) by (simp_all add: replied_def)
  moreover have "dispatch (Suc f) e w c = Inr (?w1, 0)" "dispatch f' e' ?w1 c = Inr (?w, rc)"
    using assms(2,3) req run cl(1,5) by (simp_all add: dispatch_def load_client_Some)
  ultimately show ?thesis
    using wire db by (intro exI [of _ ?w1] exI [of _ ?w] exI [of _ rc] exI [of _ k]) simp
qed

text \<open>A publisher beside the subscriber of the example.\<close>

definition publisher :: client where
  "publisher = client0\<lparr>cl_fd := 9, cl_id := Some [98, 0]\<rparr>"

definition server5 :: server where
  "server5 = server1\<lparr>hp_clients := \<lparr>h_cells = [0 \<mapsto> client0, 1 \<mapsto> publisher], h_brk = 2, h_avail = 8\<rparr>,
     sv_epoll := [7 \<mapsto> (EPOLLIN, EpPtr 0), 9 \<mapsto> (EPOLLIN, EpPtr 1)], sv_rx := (\<lambda>_. [])(9 := [Chunk (publish_block (message1 0))])\<rparr>"

lemma server5_ok: "db_inv server5" "subscribers server5 1 = [0]"
proof -
  have "hm_inv (db_clients server5)"
    using hm0_inv by (simp add: server5_def)
  moreover have "heap_ok (hp_clients server5)" "dom (h_cells (hp_clients server1)) \<subseteq> dom (h_cells (hp_clients server5))"
    by (auto simp: server5_def heap_ok_def split: if_splits)
  ultimately have "grows server1 server5"
    by (intro grows_frame [OF server1_ok(1)]) (simp_all add: server5_def)
  from grows_db [OF server1_ok(1) this] server1_ok(2) show "db_inv server5" "subscribers server5 1 = [0]"
    by simp_all
qed

lemma publish_forwarded_witness:
  "\<exists>w1 w2 rc. dispatch 1 accept0 server5 1 = Inr (w1, 0) \<and> dispatch 1 accept0 w1 1 = Inr (w2, rc) \<and>
    sv_wire w2 7 = publish_block (message1 0) \<and> sv_wire w2 9 = []"
proof -
  let ?x = "message1 0"
  have x: "pb_topic_len ?x \<noteq> 0" "c_str (pb_topic ?x) = [99]" "pb_qos ?x = 0" "pb_retain ?x = 0"
    by (simp_all add: message1_def c_str_def)
  have cl: "h_cells (hp_clients server5) 1 = Some publisher" "cl_ctx_handler publisher = RequestHandler" "cl_id publisher = Some [98, 0]"
      "cl_fd publisher = 9" "client_fd server5 0 = 7"
    by (simp_all add: server5_def publisher_def client0_def client_fd_def)
  have "packet_block (publish_block ?x)"
    by (simp add: packet_block_def message1_length)
      (simp add: publish_block_def message1_def wire_publish_def wire_header_def store32_def load32_def)
  moreover have "publish_block ?x \<noteq> []"
    using message1_length by auto
  ultimately have "packet_ready server5 (cl_fd publisher) (publish_block ?x)"
    by (auto simp: packet_ready_def cl server5_def message1_length RBUF_SIZE_def ONEMB_def packet_block_def)
  moreover have "hm_lookup (db_topics server5) [99] = Some 1" "h_cells (hp_topics server5) 1 = Some topic1"
      "heap_ok (hp_pkts server5)" "h_avail (hp_pkts server5) > 0" "cl_fd publisher \<in> dom (sv_epoll server5)"
      "sv_wire server5 = (\<lambda>_. [])"
    using server1_topic by (simp_all add: server5_def hm_lookup_hm_c cl) (simp_all add: db1_def empty_heap_def heap_ok_def)
  moreover have "length (subscribers server5 1) * length (publish_block ?x) \<le> INT_MAX"
      "\<forall>s\<in>set (subscribers server5 1). accepts (sv_tx server5 (client_fd server5 s)) (length (subscribers server5 1) * length (publish_block ?x))"
    unfolding server5_ok(2) message1_length by (simp_all add: cl accepts_def) (simp_all add: server5_def)
  ultimately obtain w1 w2 rc k where "dispatch (Suc 0) accept0 server5 1 = Inr (w1, 0)" "dispatch 1 accept0 w1 1 = Inr (w2, rc)"
      "\<forall>fd. sv_wire w2 fd = concat (map (\<lambda>_. publish_block ?x) (filter (\<lambda>s. client_fd server5 s = fd) (subscribers server5 1)))"
    using publish_forwarded [OF server5_ok(1) cl(1,2,3) _ _ message1_exact, of 1 topic1 0 accept0 1 accept0] by (auto simp: x)
  then show ?thesis
    unfolding server5_ok(2) by (auto simp: cl)
qed

end
